(* ===== verification/Prelude.thy ===== *)
theory Prelude
  imports Main "HOL-Library.Word" "HOL-Library.Multiset"
begin

unbundle bit_operations_syntax

text \<open>
  Shared vocabulary of the development: the names of the machine types, the collections of
  rewrite rules the component theories extend, reachability of a step relation with the
  locale that lifts an inductive invariant to every reachable state, the locale of a
  byte-level codec, and lemmas on words and lists that several components use.
\<close>

section \<open>Machine types\<close>

type_synonym byte = "8 word"
type_synonym u32 = "32 word"
type_synonym u64 = "64 word"
type_synonym bytes = "8 word list"

named_theorems codec_simps \<open>rewrite rules that evaluate encoders and decoders\<close>
named_theorems word_arith \<open>rules that move word operations to the naturals\<close>
named_theorems inv_intros \<open>preservation lemmas of the component invariants\<close>

text \<open>A string literal of the source as the bytes it denotes.\<close>

definition lit :: "string \<Rightarrow> bytes" where
  "lit s = map of_char s"

lemma length_lit [simp]: "length (lit s) = length s"
  by (simp add: lit_def)

text \<open>Numbers as text, in decimal.\<close>

fun show_nat :: "nat \<Rightarrow> string" where
  "show_nat n = (if n < 10 then [char_of (48 + n)] else show_nat (n div 10) @ [char_of (48 + n mod 10)])"

declare show_nat.simps [simp del]

definition show_int :: "int \<Rightarrow> string" where
  "show_int z = (if z < 0 then CHR ''-'' # show_nat (nat (- z)) else show_nat (nat z))"

text \<open>\<^verbatim>\<open>ASSERT\<close> of \<^verbatim>\<open>common/xassert.h\<close>, and \<^verbatim>\<open>assert\<close> of the drivers: \<open>None\<close> is an abort.\<close>

definition assert_that :: "bool \<Rightarrow> unit option" where
  "assert_that b = (if b then Some () else None)"

section \<open>Reachable states and inductive invariants\<close>

inductive reachable :: "('s \<Rightarrow> bool) \<Rightarrow> ('s \<Rightarrow> 's \<Rightarrow> bool) \<Rightarrow> 's \<Rightarrow> bool"
  for I :: "'s \<Rightarrow> bool" and R :: "'s \<Rightarrow> 's \<Rightarrow> bool" where
  reach_init: "I s \<Longrightarrow> reachable I R s"
| reach_step: "reachable I R s \<Longrightarrow> R s t \<Longrightarrow> reachable I R t"

lemma reachable_rtranclp: "reachable I R s \<Longrightarrow> R\<^sup>*\<^sup>* s t \<Longrightarrow> reachable I R t"
  by (rotate_tac, induction rule: rtranclp_induct) (auto intro: reach_step)

locale inductive_invariant =
  fixes init :: "'s \<Rightarrow> bool"
    and step :: "'s \<Rightarrow> 's \<Rightarrow> bool"
    and inv :: "'s \<Rightarrow> bool"
  assumes inv_init: "init s \<Longrightarrow> inv s"
    and inv_step: "inv s \<Longrightarrow> step s t \<Longrightarrow> inv t"
begin

lemma reachable_inv: "reachable init step s \<Longrightarrow> inv s"
  by (induction rule: reachable.induct) (auto intro: inv_init inv_step)

lemma steps_inv: "step\<^sup>*\<^sup>* s t \<Longrightarrow> inv s \<Longrightarrow> inv t"
  by (induction rule: rtranclp_induct) (auto intro: inv_step)

end

section \<open>Byte codecs\<close>

text \<open>
  Reading a sequence of values with a decoder that returns the value and the input after it: the
  bytes from the pointer on, or the slice as it was advanced.
\<close>

fun decode_seq :: "('b \<Rightarrow> ('a \<times> 'b) option) \<Rightarrow> nat \<Rightarrow> 'b \<Rightarrow> ('a list \<times> 'b) option" where
  "decode_seq dec 0 bs = Some ([], bs)"
| "decode_seq dec (Suc n) bs =
     (case dec bs of
        None \<Rightarrow> None
      | Some (x, bs') \<Rightarrow>
          (case decode_seq dec n bs' of
             None \<Rightarrow> None
           | Some (xs, bs'') \<Rightarrow> Some (x # xs, bs'')))"

text \<open>
  The contract between a writer and a reader of the wire format: what the encoder wrote, the
  decoder reads back, leaving what follows. \<open>ok\<close> are the values the encoding is meant for.
\<close>

locale codec =
  fixes enc :: "'a \<Rightarrow> bytes"
    and dec :: "bytes \<Rightarrow> ('a \<times> bytes) option"
    and ok :: "'a \<Rightarrow> bool"
  assumes dec_enc: "ok x \<Longrightarrow> dec (enc x @ rest) = Some (x, rest)"
begin

lemma enc_prefix_free:
  assumes "ok x" "ok y" "enc x @ r = enc y @ s"
  shows "x = y \<and> r = s"
proof -
  have "Some (x, r) = Some (y, s)"
    using dec_enc [OF assms(1), of r] dec_enc [OF assms(2), of s] unfolding assms(3) by metis
  then show ?thesis by simp
qed

lemma enc_inj: "ok x \<Longrightarrow> ok y \<Longrightarrow> enc x = enc y \<Longrightarrow> x = y"
  using enc_prefix_free [of x y "[]" "[]"] by simp

lemma decode_seq_concat:
  "\<forall>x\<in>set xs. ok x \<Longrightarrow> decode_seq dec (length xs) (concat (map enc xs) @ rest) = Some (xs, rest)"
  by (induction xs) (auto simp: dec_enc)

end

section \<open>Operations and their specifications\<close>

text \<open>
  A run performs operations one after the other and collects their results; \<open>None\<close> is a failed
  assertion or undefined behaviour. The locale states that each operation of an implementation
  that meets its precondition succeeds, keeps the invariant and does what a specification on an
  abstract state does; its lemma extends this to runs.
\<close>

fun run :: "('o \<Rightarrow> 's \<Rightarrow> ('r \<times> 's) option) \<Rightarrow> 'o list \<Rightarrow> 's \<Rightarrow> ('r list \<times> 's) option" where
  "run impl [] s = Some ([], s)"
| "run impl (op # ops) s =
     (case impl op s of
        None \<Rightarrow> None
      | Some (r, s') \<Rightarrow>
          (case run impl ops s' of
             None \<Rightarrow> None
           | Some (rs, s'') \<Rightarrow> Some (r # rs, s'')))"

fun spec_run :: "('o \<Rightarrow> 'a \<Rightarrow> 'r \<times> 'a) \<Rightarrow> 'o list \<Rightarrow> 'a \<Rightarrow> 'r list \<times> 'a" where
  "spec_run spec [] a = ([], a)"
| "spec_run spec (op # ops) a =
     (let (r, a') = spec op a; (rs, a'') = spec_run spec ops a' in (r # rs, a''))"

lemma run_append:
  "run impl (xs @ ys) s =
     (case run impl xs s of
        None \<Rightarrow> None
      | Some (rs, s') \<Rightarrow>
          (case run impl ys s' of
             None \<Rightarrow> None
           | Some (rs', s'') \<Rightarrow> Some (rs @ rs', s'')))"
  by (induction xs arbitrary: s) (auto split: option.splits prod.splits)

lemma spec_run_append:
  "spec_run spec (xs @ ys) a =
     (let (rs, a') = spec_run spec xs a; (rs', a'') = spec_run spec ys a' in (rs @ rs', a''))"
  by (induction xs arbitrary: a) (auto simp: Let_def split: prod.splits)

lemma length_spec_run: "length (fst (spec_run spec ops a)) = length ops"
  by (induction ops arbitrary: a) (auto simp: Let_def split: prod.splits, metis fst_conv)

locale op_refinement =
  fixes impl :: "'o \<Rightarrow> 's \<Rightarrow> ('r \<times> 's) option"
    and spec :: "'o \<Rightarrow> 'a \<Rightarrow> 'r \<times> 'a"
    and abs :: "'s \<Rightarrow> 'a"
    and inv :: "'s \<Rightarrow> bool"
    and pre :: "'o \<Rightarrow> 's \<Rightarrow> bool"
  assumes step_refines:
    "inv s \<Longrightarrow> pre op s \<Longrightarrow> \<exists>r s'. impl op s = Some (r, s') \<and> inv s' \<and> spec op (abs s) = (r, abs s')"
begin

lemma run_refines:
  assumes "inv s" and "\<And>s op. inv s \<Longrightarrow> op \<in> set ops \<Longrightarrow> pre op s"
  shows "\<exists>rs s'. run impl ops s = Some (rs, s') \<and> inv s' \<and> spec_run spec ops (abs s) = (rs, abs s')"
  using assms
proof (induction ops arbitrary: s)
  case (Cons op ops)
  obtain r s1 where s1: "impl op s = Some (r, s1)" "inv s1" "spec op (abs s) = (r, abs s1)"
    using step_refines [OF Cons.prems(1), of op] Cons.prems by auto
  obtain rs s2 where "run impl ops s1 = Some (rs, s2)" "inv s2" "spec_run spec ops (abs s1) = (rs, abs s2)"
    using Cons.IH [OF s1(2)] Cons.prems(2) by auto
  then show ?case using s1 by simp
qed simp

end

text \<open>
  Operations without a result that a specification may refuse: a run is carried out as long as every
  operation is. An implementation succeeds exactly when the specification does, and keeps its
  invariant.
\<close>

fun run_all :: "('s \<Rightarrow> 'o \<Rightarrow> 's option) \<Rightarrow> 's \<Rightarrow> 'o list \<Rightarrow> 's option" where
  "run_all step s [] = Some s"
| "run_all step s (op # ops) = (case step s op of None \<Rightarrow> None | Some s' \<Rightarrow> run_all step s' ops)"

locale partial_refinement =
  fixes impl :: "'s \<Rightarrow> 'o \<Rightarrow> 's option"
    and spec :: "'a \<Rightarrow> 'o \<Rightarrow> 'a option"
    and abs :: "'s \<Rightarrow> 'a"
    and inv :: "'s \<Rightarrow> bool"
  assumes same_step: "inv s \<Longrightarrow> map_option abs (impl s op) = spec (abs s) op"
    and keeps_inv: "inv s \<Longrightarrow> impl s op = Some s' \<Longrightarrow> inv s'"
begin

lemma run_all_refines:
  "inv s \<Longrightarrow> map_option abs (run_all impl s ops) = run_all spec (abs s) ops"
proof (induction ops arbitrary: s)
  case (Cons op ops)
  show ?case
  proof (cases "impl s op")
    case None
    then show ?thesis using same_step [OF Cons.prems, of op] by (simp add: eq_commute)
  next
    case (Some s1)
    then show ?thesis
      using same_step [OF Cons.prems, of op] Cons.IH [OF keeps_inv [OF Cons.prems Some]]
      by (simp add: eq_commute [of "Some (abs s1)"])
  qed
qed simp

lemma run_all_inv: "inv s \<Longrightarrow> run_all impl s ops = Some s' \<Longrightarrow> inv s'"
proof (induction ops arbitrary: s)
  case (Cons op ops)
  then show ?case by (cases "impl s op") (auto intro: keeps_inv)
qed simp

end

fun enq_all :: "('a \<Rightarrow> 'q \<Rightarrow> 'q option) \<Rightarrow> 'a list \<Rightarrow> 'q \<Rightarrow> 'q option" where
  "enq_all enq [] q = Some q"
| "enq_all enq (x # xs) q = Option.bind (enq x q) (enq_all enq xs)"

fun deq_n :: "('q \<Rightarrow> ('a option \<times> 'q) option) \<Rightarrow> nat \<Rightarrow> 'q \<Rightarrow> ('a option list \<times> 'q) option" where
  "deq_n deq 0 q = Some ([], q)"
| "deq_n deq (Suc n) q =
     Option.bind (deq q) (\<lambda>(r, q'). map_option (\<lambda>(rs, q''). (r # rs, q'')) (deq_n deq n q'))"

text \<open>
  The contract of a first-in first-out queue: \<open>deq\<close> returns the item (nothing when the queue is
  empty) and the queue that is left.
\<close>

locale fifo_queue =
  fixes enq :: "'a \<Rightarrow> 'q \<Rightarrow> 'q option"
    and deq :: "'q \<Rightarrow> ('a option \<times> 'q) option"
    and items :: "'q \<Rightarrow> 'a list"
    and wf :: "'q \<Rightarrow> bool"
    and accepts :: "'q \<Rightarrow> 'a \<Rightarrow> bool"
  assumes enq_items: "wf q \<Longrightarrow> accepts q x \<Longrightarrow>
      \<exists>q'. enq x q = Some q' \<and> wf q' \<and> items q' = items q @ [x] \<and> accepts q' = accepts q"
    and deq_items: "wf q \<Longrightarrow> items q = x # xs \<Longrightarrow>
      \<exists>q'. deq q = Some (Some x, q') \<and> wf q' \<and> items q' = xs \<and> accepts q' = accepts q"
begin

lemma enq_all_items:
  "wf q \<Longrightarrow> \<forall>x\<in>set xs. accepts q x \<Longrightarrow>
     \<exists>q'. enq_all enq xs q = Some q' \<and> wf q' \<and> items q' = items q @ xs \<and> accepts q' = accepts q"
proof (induction xs arbitrary: q)
  case (Cons x xs)
  obtain q1 where q1: "enq x q = Some q1" "wf q1" "items q1 = items q @ [x]" "accepts q1 = accepts q"
    using enq_items [OF Cons.prems(1)] Cons.prems(2) by auto
  then show ?case using Cons.IH [OF q1(2)] Cons.prems(2) by simp
qed simp

lemma deq_n_items:
  "wf q \<Longrightarrow> n \<le> length (items q) \<Longrightarrow>
     \<exists>q'. deq_n deq n q = Some (map Some (take n (items q)), q') \<and> wf q' \<and> items q' = drop n (items q)"
proof (induction n arbitrary: q)
  case (Suc n)
  then obtain x xs where x: "items q = x # xs" by (cases "items q") auto
  obtain q1 where q1: "deq q = Some (Some x, q1)" "wf q1" "items q1 = xs"
    using deq_items [OF Suc.prems(1) x] by blast
  then show ?case using Suc.IH [OF q1(2)] Suc.prems(2) by (auto simp: x)
qed simp

lemma fifo_order:
  assumes "wf q" "items q = []" "\<forall>x\<in>set xs. accepts q x"
  shows "\<exists>q1 q2. enq_all enq xs q = Some q1 \<and> deq_n deq (length xs) q1 = Some (map Some xs, q2) \<and> items q2 = []"
proof -
  obtain q1 where q1: "enq_all enq xs q = Some q1" "wf q1" "items q1 = xs"
    using enq_all_items [OF assms(1,3)] assms(2) by auto
  then show ?thesis using deq_n_items [OF q1(2), of "length xs"] by auto
qed

end

section \<open>Lists of indices\<close>

lemma upt_split_at: "k < n \<Longrightarrow> [0..<n] = [0..<k] @ k # [Suc k..<n]"
  using upt_add_eq_append [of 0 k "n - k"] by (simp add: upt_conv_Cons)

section \<open>Words\<close>

lemma unat_and_mask_mod: "unat (w AND mask n :: 'a::len word) = unat w mod 2 ^ n"
  by (metis take_bit_eq_mask take_bit_eq_mod unsigned_take_bit_eq)

lemma unat_mask: "k < LENGTH('a) \<Longrightarrow> unat (mask k :: 'a::len word) = 2 ^ k - 1"
proof -
  assume k: "k < LENGTH('a)"
  have "(of_nat (2 ^ k - 1) :: 'a word) = mask k"
    by (simp add: mask_eq_decr_exp)
  moreover have "(2::nat) ^ k - 1 < 2 ^ LENGTH('a)"
    using power_strict_increasing [OF k, of "2::nat"] by linarith
  ultimately show ?thesis by (metis of_nat_inverse)
qed

lemma unat_drop_bit_div [word_arith]: "unat (drop_bit n w) = unat (w :: 'a::len word) div 2 ^ n"
  by (rule trans [OF unat_drop_bit_eq]) (rule drop_bit_eq_div)

lemma unat_less_len: "unat (w :: 'a::len word) < 2 ^ LENGTH('a)"
  by (rule unsigned_less)

lemma unat_byte_less: "unat (b :: byte) < 256"
  using unat_less_len [of b] by simp

lemma unat_ucast_byte:
  assumes "8 \<le> LENGTH('a::len)"
  shows "unat (ucast (b :: byte) :: 'a word) = unat b"
proof -
  have "unat b < 2 ^ LENGTH('a)"
    using unat_byte_less [of b] power_increasing [OF assms, of "2::nat"] by simp
  then show ?thesis by (simp add: unsigned_ucast_eq take_bit_nat_eq_self)
qed

lemma unat_shift7_less: "128 \<le> v \<Longrightarrow> unat (drop_bit 7 v) < unat (v :: u64)"
  by (simp only: unat_drop_bit_div) (simp add: word_le_nat_alt)

lemma or_of_nat_disjoint:
  fixes b :: "'a::len word"
  assumes "acc < 2 ^ s"
  shows "(of_nat acc :: 'a word) OR push_bit s b = of_nat (acc + 2 ^ s * unat b)"
proof -
  have "\<not> bit acc n" if "s \<le> n" for n
  proof -
    have "take_bit s acc = acc" using assms by (simp add: take_bit_nat_eq_self)
    then have "bit acc n \<longleftrightarrow> bit (take_bit s acc) n" by simp
    then show ?thesis using that by (simp add: bit_take_bit_iff)
  qed
  then have "(of_nat acc :: 'a word) + push_bit s b = of_nat acc OR push_bit s b"
    by (intro disjunctive_add) (auto simp: bit_push_bit_iff bit_simps not_le)
  moreover have "push_bit s b = of_nat (2 ^ s * unat b)"
    by (simp add: push_bit_eq_mult)
  ultimately show ?thesis by simp
qed

end
