(* ===== verification/Bits.thy ===== *)
theory Bits
  imports Prelude
begin

unbundle bit_operations_syntax

text \<open>
  \<^verbatim>\<open>common/align.h\<close>, \<^verbatim>\<open>common/bitopts.h\<close> and the size literals of
  \<^verbatim>\<open>example-udl/main.cc\<close>. The templates are modelled on \<open>'a word\<close>, the unsigned integer
  types they are used with. A failing \<^verbatim>\<open>ASSERT\<close> aborts the program: it is the value \<open>None\<close>.
\<close>

section \<open>align.h\<close>

definition align_ok :: "'a::len word \<Rightarrow> bool" where
  "align_ok align \<longleftrightarrow> align AND (align - 1) = 0"

definition align_up :: "'a::len word \<Rightarrow> 'a word \<Rightarrow> 'a word option" where
  "align_up v align = (if align_ok align then Some ((v + align - 1) AND NOT (align - 1)) else None)"

definition align_down :: "'a::len word \<Rightarrow> 'a word \<Rightarrow> 'a word option" where
  "align_down v align = (if align_ok align then Some (v AND NOT (align - 1)) else None)"

section \<open>bitopts.h\<close>

text \<open>
  \<^verbatim>\<open>__builtin_clz(0)\<close> and \<^verbatim>\<open>__builtin_ctz(0)\<close> are undefined behaviour: the C++ wrappers are
  partial. \<open>clz\<close> and \<open>ctz\<close> are the values of the builtins on nonzero arguments.
\<close>

definition clz :: "'a::len word \<Rightarrow> nat" where
  "clz x = length (takeWhile (\<lambda>i. \<not> bit x i) (rev [0..<LENGTH('a)]))"

definition ctz :: "'a::len word \<Rightarrow> nat" where
  "ctz x = length (takeWhile (\<lambda>i. \<not> bit x i) [0..<LENGTH('a)])"

definition count_leading_zeros :: "'a::len word \<Rightarrow> nat option" where
  "count_leading_zeros x = (if x = 0 then None else Some (clz x))"

definition count_trailing_zeros :: "'a::len word \<Rightarrow> nat option" where
  "count_trailing_zeros x = (if x = 0 then None else Some (ctz x))"

text \<open>\<open>numeric_limits<T>::digits\<close> of an unsigned type is its width.\<close>

definition log2ceil :: "'a::len word \<Rightarrow> nat option" where
  "log2ceil x =
     (if x = 1 then Some 0
      else map_option (\<lambda>z. LENGTH('a) - z) (count_leading_zeros (x - 1)))"

definition log2floor :: "'a::len word \<Rightarrow> nat option" where
  "log2floor x = map_option (\<lambda>z. LENGTH('a) - z - 1) (count_leading_zeros x)"

section \<open>User-defined size literals\<close>

definition udl_K :: "u64 \<Rightarrow> u64" where
  "udl_K n = push_bit 10 n"

definition udl_M :: "u64 \<Rightarrow> u64" where
  "udl_M n = push_bit 20 n"

definition udl_G :: "u64 \<Rightarrow> u64" where
  "udl_G n = push_bit 30 n"

definition udl_T :: "u64 \<Rightarrow> u64" where
  "udl_T n = push_bit 40 n"

section \<open>Zero counts\<close>

lemma takeWhile_upt_least:
  assumes "P k" "k < n" "\<And>i. i < k \<Longrightarrow> \<not> P i"
  shows "length (takeWhile (\<lambda>i. \<not> P i) [0..<n]) = k"
proof -
  have "[0..<n] = [0..<k] @ k # [Suc k..<n]"
    using assms(2) by (rule upt_split_at)
  then show ?thesis using assms(1,3) by (simp add: takeWhile_append)
qed

lemma ctz_props:
  fixes x :: "'a::len word"
  assumes "x \<noteq> 0"
  shows ctz_less: "ctz x < LENGTH('a)"
    and bit_ctz: "bit x (ctz x)"
    and below_ctz: "i < ctz x \<Longrightarrow> \<not> bit x i"
proof -
  define P where "P = (\<lambda>i. bit x i)"
  from assms obtain j where j: "P j" "j < LENGTH('a)"
    unfolding P_def by (metis bit_0_eq bit_imp_le_length bit_word_eqI bot_apply bot_bool_def)
  define k where "k = (LEAST i. P i)"
  have k: "P k" "\<And>i. i < k \<Longrightarrow> \<not> P i" "k < LENGTH('a)"
    using j by (auto simp: k_def intro: LeastI dest: not_less_Least le_less_trans [OF Least_le])
  have "ctz x = k"
    unfolding ctz_def using takeWhile_upt_least [of P k "LENGTH('a)"] k by (simp add: P_def)
  with k show "ctz x < LENGTH('a)" "bit x (ctz x)" "i < ctz x \<Longrightarrow> \<not> bit x i"
    by (auto simp: P_def)
qed

text \<open>The position of the highest set bit, from the least-significant end.\<close>

lemma clz_top:
  fixes x :: "'a::len word"
  assumes "bit x m" "\<And>i. m < i \<Longrightarrow> \<not> bit x i"
  shows "clz x = LENGTH('a) - Suc m" and "m < LENGTH('a)"
proof -
  show m: "m < LENGTH('a)" using assms(1) by (rule bit_imp_le_length)
  then have "[0..<LENGTH('a)] = [0..<m] @ m # [Suc m..<LENGTH('a)]"
    by (rule upt_split_at)
  then have "rev [0..<LENGTH('a)] = rev [Suc m..<LENGTH('a)] @ m # rev [0..<m]"
    by simp
  then show "clz x = LENGTH('a) - Suc m"
    unfolding clz_def using assms by (simp add: takeWhile_append)
qed

lemma obtain_top_bit:
  fixes x :: "'a::len word"
  assumes "x \<noteq> 0"
  obtains m where "bit x m" "\<And>i. m < i \<Longrightarrow> \<not> bit x i"
proof -
  from assms obtain j where j: "bit x j"
    by (metis bit_0_eq bit_word_eqI bot_apply bot_bool_def)
  have bnd: "\<forall>i. bit x i \<longrightarrow> i \<le> LENGTH('a)"
    using bit_imp_le_length by (metis less_imp_le_nat)
  define m where "m = (GREATEST i. bit x i)"
  have "bit x m" unfolding m_def by (rule GreatestI_nat [where P = "bit x", OF j]) (use bnd in blast)
  moreover have "\<not> bit x i" if "m < i" for i
  proof
    assume "bit x i"
    then have "i \<le> m" unfolding m_def by (rule Greatest_le_nat [where P = "bit x"]) (use bnd in blast)
    with that show False by simp
  qed
  ultimately show ?thesis using that by blast
qed

lemma unat_top_bit:
  fixes x :: "'a::len word"
  assumes "bit x m" "\<And>i. m < i \<Longrightarrow> \<not> bit x i"
  shows "2 ^ m \<le> unat x" and "unat x < 2 ^ Suc m"
proof -
  have m: "m < LENGTH('a)" using assms(1) by (rule bit_imp_le_length)
  have "take_bit (Suc m) x = x"
    by (rule bit_word_eqI) (use assms(2) in \<open>auto simp: bit_take_bit_iff less_Suc_eq_le intro: leI\<close>)
  then have "take_bit (Suc m) (unat x) = unat x"
    by (metis unsigned_take_bit_eq)
  then show "unat x < 2 ^ Suc m"
    by (metis take_bit_nat_less_exp)
  have "bit (unat x) m" using assms(1) m by (simp add: bit_unsigned_iff)
  then show "2 ^ m \<le> unat x"
    by (metis bit_iff_odd div_less even_zero linorder_not_le)
qed

lemma clz_less: "x \<noteq> 0 \<Longrightarrow> clz (x :: 'a::len word) < LENGTH('a)"
  by (metis clz_top(1) clz_top(2) diff_less len_gt_0 obtain_top_bit zero_less_Suc)

lemma unat_clz_bounds:
  fixes x :: "'a::len word"
  assumes "x \<noteq> 0"
  shows "2 ^ (LENGTH('a) - Suc (clz x)) \<le> unat x" and "unat x < 2 ^ (LENGTH('a) - clz x)"
proof -
  obtain m where m: "bit x m" "\<And>i. m < i \<Longrightarrow> \<not> bit x i" using obtain_top_bit [OF assms] by blast
  have "LENGTH('a) - Suc (clz x) = m" "LENGTH('a) - clz x = Suc m"
    using clz_top [OF m] by auto
  with unat_top_bit [OF m] show "2 ^ (LENGTH('a) - Suc (clz x)) \<le> unat x"
    and "unat x < 2 ^ (LENGTH('a) - clz x)" by simp_all
qed

section \<open>Logarithms\<close>

lemma log2ceil_Some:
  fixes x :: "'a::len word"
  assumes "x \<noteq> 0"
  shows "\<exists>k. log2ceil x = Some k \<and> unat x \<le> 2 ^ k \<and> (\<forall>j<k. 2 ^ j < unat x)"
proof (cases "x = 1")
  case True
  then show ?thesis by (simp add: log2ceil_def)
next
  case False
  let ?y = "x - 1" and ?k = "LENGTH('a) - clz (x - 1)"
  have nz: "?y \<noteq> 0" using False by simp
  have un: "unat x = Suc (unat ?y)"
    using assms by (metis Suc_pred' unat_gt_0 unat_minus_one)
  have "2 ^ j < unat x" if "j < ?k" for j
  proof -
    have "(2::nat) ^ j \<le> 2 ^ (LENGTH('a) - Suc (clz ?y))"
      using that by (intro power_increasing) auto
    also have "\<dots> \<le> unat ?y" by (rule unat_clz_bounds [OF nz])
    finally show ?thesis by (simp add: un)
  qed
  moreover have "unat x \<le> 2 ^ ?k" using unat_clz_bounds(2) [OF nz] by (simp add: un)
  moreover have "log2ceil x = Some ?k"
    using False nz by (simp add: log2ceil_def count_leading_zeros_def)
  ultimately show ?thesis by blast
qed

lemma log2floor_Some:
  fixes x :: "'a::len word"
  assumes "x \<noteq> 0"
  shows "\<exists>k. log2floor x = Some k \<and> 2 ^ k \<le> unat x \<and> unat x < 2 ^ Suc k"
proof -
  have "LENGTH('a) - clz x = Suc (LENGTH('a) - clz x - 1)"
    using clz_less [OF assms] by simp
  then show ?thesis
    using unat_clz_bounds [OF assms] assms by (auto simp: log2floor_def count_leading_zeros_def)
qed

section \<open>Alignment\<close>

lemma align_ok_power: "align_ok ((2::'a::len word) ^ k)"
proof -
  have "(2::'a word) ^ k AND mask k = 0"
    by (rule bit_word_eqI) (auto simp: bit_simps)
  then show ?thesis by (simp add: align_ok_def mask_eq_decr_exp)
qed

lemma and_not_mask_unat:
  fixes v :: "'a::len word"
  shows "unat (v AND NOT (mask k)) = unat v div 2 ^ k * 2 ^ k"
proof -
  have "push_bit k (drop_bit k v) = v AND NOT (mask k)"
    by (rule bit_word_eqI) (auto simp: bit_simps not_le)
  then have eq: "v AND NOT (mask k) = v - take_bit k v"
    using bits_ident [of k v] by (metis add_diff_cancel_right')
  have mod: "unat (take_bit k v) = unat v mod 2 ^ k"
    by (metis take_bit_eq_mod unsigned_take_bit_eq)
  then have "take_bit k v \<le> v" by (simp add: word_le_nat_alt)
  then have "unat (v - take_bit k v) = unat v - unat v mod 2 ^ k"
    by (simp add: unat_sub mod)
  then show ?thesis by (simp add: eq minus_mod_eq_div_mult)
qed

lemma align_down_pow2:
  "align_down v (2 ^ k :: 'a::len word) = Some (v AND NOT (mask k))"
  by (simp add: align_down_def align_ok_power mask_eq_decr_exp)

lemma align_up_pow2:
  "align_up v (2 ^ k :: 'a::len word) = Some ((v + mask k) AND NOT (mask k))"
  by (simp add: align_up_def align_ok_power mask_eq_decr_exp algebra_simps)

lemma align_up_unat:
  fixes v :: "'a::len word"
  assumes "k < LENGTH('a)" "unat v + 2 ^ k \<le> 2 ^ LENGTH('a)"
  shows "\<exists>r. align_up v (2 ^ k) = Some r \<and> unat r = (unat v + 2 ^ k - 1) div 2 ^ k * 2 ^ k"
proof -
  have m: "unat (mask k :: 'a word) = 2 ^ k - 1"
    using assms(1) by (simp add: unat_mask)
  have "unat (v + mask k) = unat v + 2 ^ k - 1"
    using assms(2) zero_less_power [of "2::nat" k]
    by (subst unat_add_lem [THEN iffD1]) (simp_all only: m, arith+)
  then show ?thesis by (simp add: align_up_pow2 and_not_mask_unat)
qed

text \<open>
  \<open>align_up\<close> returns the least multiple of the alignment that is at least the value; zero passes
  the power-of-two assertion as well, and sends every value to zero.
\<close>

lemma align_up_least:
  fixes v :: "'a::len word"
  assumes "k < LENGTH('a)" "unat v + 2 ^ k \<le> 2 ^ LENGTH('a)"
  shows "\<exists>r. align_up v (2 ^ k) = Some r \<and> 2 ^ k dvd unat r \<and> unat v \<le> unat r \<and> unat r < unat v + 2 ^ k"
proof -
  obtain r where r: "align_up v (2 ^ k) = Some r" "unat r = (unat v + 2 ^ k - 1) div 2 ^ k * 2 ^ k"
    using align_up_unat [OF assms] by blast
  have "(unat v + 2 ^ k - 1) mod 2 ^ k < 2 ^ k" by simp
  then have "unat v \<le> unat r" "unat r < unat v + 2 ^ k"
    using r(2) div_mult_mod_eq [of "unat v + 2 ^ k - 1" "2 ^ k"] zero_less_power [of "2::nat" k]
    by linarith+
  then show ?thesis using r by auto
qed

lemma align_up_zero: "align_up v 0 = Some 0"
  by (simp add: align_up_def align_ok_def)

section \<open>Properties\<close>

text \<open>For a power of two that leaves room in the type, align_up and align_down return the nearest
  multiples of it at or above and at or below the argument.\<close>

theorem align_brackets:
  fixes v :: "'a::len word"
  assumes "k < LENGTH('a)" and "unat v + 2 ^ k \<le> 2 ^ LENGTH('a)"
  shows "\<exists>up down. align_up v (2 ^ k) = Some up \<and> align_down v (2 ^ k) = Some down \<and>
           2 ^ k dvd unat up \<and> unat v \<le> unat up \<and> unat up < unat v + 2 ^ k \<and>
           2 ^ k dvd unat down \<and> unat down \<le> unat v \<and> unat v < unat down + 2 ^ k"
proof -
  have "unat v div 2 ^ k * 2 ^ k \<le> unat v" "unat v < unat v div 2 ^ k * 2 ^ k + 2 ^ k"
    using dividend_less_div_times [of "2 ^ k" "unat v"] by simp_all
  then show ?thesis
    using align_up_least [OF assms] by (auto simp: align_down_pow2 and_not_mask_unat)
qed

theorem align_brackets_witness:
  "\<exists>up. align_up (13 :: u32) 8 = Some up \<and> 8 dvd unat up \<and> 13 \<le> unat up"
  using align_brackets [of 3 "13 :: u32"] by auto

text \<open>On nonzero arguments log2ceil is the least exponent whose power of two reaches the argument,
  and log2floor the greatest whose power of two does not exceed it.\<close>

theorem log2_brackets:
  fixes x :: "'a::len word"
  assumes "x \<noteq> 0"
  shows "\<exists>c f. log2ceil x = Some c \<and> unat x \<le> 2 ^ c \<and> (\<forall>j<c. 2 ^ j < unat x) \<and>
           log2floor x = Some f \<and> 2 ^ f \<le> unat x \<and> unat x < 2 ^ Suc f"
  using log2ceil_Some [OF assms] log2floor_Some [OF assms] by blast

theorem log2_brackets_witness:
  "\<exists>c f. log2ceil (9 :: u32) = Some c \<and> 9 \<le> (2::nat) ^ c \<and> log2floor (9 :: u32) = Some f \<and> (2::nat) ^ f \<le> 9"
  using log2_brackets [of "9 :: u32"] by auto

end
