(* ===== verification/Slices.thy ===== *)
theory Slices
  imports Prelude
begin

text \<open>
  \<^verbatim>\<open>common/slice.h\<close> and the slice set of \<^verbatim>\<open>example-algorithm/main.cc\<close>. A \<^verbatim>\<open>Slice\<close> is a
  pointer and a size; the model keeps the bytes it views, so a null slice is the empty one. A
  failing \<^verbatim>\<open>assert\<close> is \<open>None\<close>. The order \<^verbatim>\<open>Slice::compare\<close> gives is made the \<open>linorder\<close>
  instance of the type.
\<close>

section \<open>The view\<close>

datatype slice = Slice (slice_bytes: bytes)

definition slice_empty_new :: slice where
  "slice_empty_new = Slice []"

definition slice_of_lit :: "string \<Rightarrow> slice" where
  "slice_of_lit s = Slice (lit s)"

definition data :: "slice \<Rightarrow> bytes" where
  "data s = slice_bytes s"

definition slice_size :: "slice \<Rightarrow> nat" where
  "slice_size s = length (slice_bytes s)"

definition slice_empty :: "slice \<Rightarrow> bool" where
  "slice_empty s \<longleftrightarrow> slice_size s = 0"

definition slice_at :: "slice \<Rightarrow> nat \<Rightarrow> byte option" where
  "slice_at s n = (if n < slice_size s then Some (slice_bytes s ! n) else None)"

definition slice_clear :: "slice \<Rightarrow> slice" where
  "slice_clear s = Slice []"

definition remove_prefix :: "nat \<Rightarrow> slice \<Rightarrow> slice option" where
  "remove_prefix n s = (if n \<le> slice_size s then Some (Slice (drop n (slice_bytes s))) else None)"

definition to_string :: "slice \<Rightarrow> bytes" where
  "to_string s = slice_bytes s"

section \<open>Comparison\<close>

text \<open>
  \<^verbatim>\<open>std::memcmp\<close> compares the first \<open>n\<close> bytes as unsigned values and returns the sign of the
  first difference.
\<close>

fun memcmp :: "bytes \<Rightarrow> bytes \<Rightarrow> nat \<Rightarrow> int" where
  "memcmp (x # xs) (y # ys) (Suc n) = (if x = y then memcmp xs ys n else if x < y then -1 else 1)"
| "memcmp _ _ _ = 0"

definition starts_with :: "slice \<Rightarrow> slice \<Rightarrow> bool" where
  "starts_with s x \<longleftrightarrow>
     slice_size s \<ge> slice_size x \<and> memcmp (slice_bytes s) (slice_bytes x) (slice_size x) = 0"

definition slice_eq :: "slice \<Rightarrow> slice \<Rightarrow> bool" where
  "slice_eq a b \<longleftrightarrow>
     slice_size a = slice_size b \<and> memcmp (slice_bytes a) (slice_bytes b) (slice_size a) = 0"

definition slice_neq :: "slice \<Rightarrow> slice \<Rightarrow> bool" where
  "slice_neq a b \<longleftrightarrow> \<not> slice_eq a b"

definition compare :: "slice \<Rightarrow> slice \<Rightarrow> int" where
  "compare a b =
     (let min_size = (if slice_size a > slice_size b then slice_size b else slice_size a);
          r = memcmp (slice_bytes a) (slice_bytes b) min_size
      in if r = 0 then
           if slice_size a < slice_size b then -1
           else if slice_size a > slice_size b then 1 else r
         else r)"

section \<open>Lexicographic reading of compare\<close>

fun lex_cmp :: "bytes \<Rightarrow> bytes \<Rightarrow> int" where
  "lex_cmp [] [] = 0"
| "lex_cmp [] (y # ys) = -1"
| "lex_cmp (x # xs) [] = 1"
| "lex_cmp (x # xs) (y # ys) = (if x = y then lex_cmp xs ys else if x < y then -1 else 1)"

lemma memcmp_0 [simp]: "memcmp xs ys 0 = 0"
  by (cases xs; cases ys) auto

lemma memcmp_Nil [simp]: "memcmp [] ys n = 0" "memcmp xs [] n = 0"
  by (cases n; simp)+

lemma compare_lex: "compare (Slice xs) (Slice ys) = lex_cmp xs ys"
  by (induction xs ys rule: lex_cmp.induct) (auto simp: compare_def slice_size_def Let_def)

lemma memcmp_eq_0: "n \<le> length xs \<Longrightarrow> n \<le> length ys \<Longrightarrow> memcmp xs ys n = 0 \<longleftrightarrow> take n xs = take n ys"
  by (induction xs ys n rule: memcmp.induct) auto

lemma slice_eq_iff: "slice_eq a b \<longleftrightarrow> a = b"
  by (cases a; cases b) (auto simp: slice_eq_def slice_size_def memcmp_eq_0)

lemma starts_with_iff: "starts_with s x \<longleftrightarrow> (\<exists>r. data s = data x @ r)"
proof -
  have "starts_with s x \<longleftrightarrow> length (data x) \<le> length (data s) \<and> take (length (data x)) (data s) = data x"
    by (auto simp: starts_with_def slice_size_def data_def memcmp_eq_0)
  also have "\<dots> \<longleftrightarrow> (\<exists>r. data s = data x @ r)"
    by (metis append_eq_conv_conj append_take_drop_id length_append le_add1)
  finally show ?thesis .
qed

lemma lex_cmp_range: "lex_cmp xs ys \<in> {-1, 0, 1}"
  by (induction xs ys rule: lex_cmp.induct) auto

lemma lex_cmp_eq_0: "lex_cmp xs ys = 0 \<longleftrightarrow> xs = ys"
  by (induction xs ys rule: lex_cmp.induct) auto

lemma lex_cmp_swap: "lex_cmp ys xs = - lex_cmp xs ys"
  by (induction xs ys rule: lex_cmp.induct) auto

lemma lex_cmp_trans: "lex_cmp xs ys \<le> 0 \<Longrightarrow> lex_cmp ys zs \<le> 0 \<Longrightarrow> lex_cmp xs zs \<le> 0"
proof (induction xs ys arbitrary: zs rule: lex_cmp.induct)
  case (2 y ys)
  then show ?case by (cases zs) auto
next
  case (4 x xs y ys)
  then show ?case by (cases zs) (auto split: if_splits)
qed simp_all

instantiation slice :: linorder
begin

definition less_eq_slice :: "slice \<Rightarrow> slice \<Rightarrow> bool" where
  "less_eq_slice a b \<longleftrightarrow> compare a b \<le> 0"

definition less_slice :: "slice \<Rightarrow> slice \<Rightarrow> bool" where
  "less_slice a b \<longleftrightarrow> compare a b < 0"

instance
proof
  fix a b c :: slice
  have swap: "compare b a = - compare a b"
    by (cases a; cases b) (metis compare_lex lex_cmp_swap)
  have zero: "compare a b = 0 \<longleftrightarrow> a = b"
    by (cases a; cases b) (simp add: compare_lex lex_cmp_eq_0)
  show "a < b \<longleftrightarrow> a \<le> b \<and> \<not> b \<le> a"
    using swap by (auto simp: less_eq_slice_def less_slice_def)
  show "a \<le> a"
    by (cases a) (simp add: less_eq_slice_def compare_lex lex_cmp_eq_0 [THEN iffD2])
  show "a \<le> b \<Longrightarrow> b \<le> c \<Longrightarrow> a \<le> c"
    by (cases a; cases b; cases c) (auto simp: less_eq_slice_def compare_lex intro: lex_cmp_trans)
  show "a \<le> b \<Longrightarrow> b \<le> a \<Longrightarrow> a = b"
    using swap zero by (auto simp: less_eq_slice_def)
  show "a \<le> b \<or> b \<le> a"
    using swap by (auto simp: less_eq_slice_def)
qed

end

section \<open>The slice set\<close>

text \<open>
  \<^verbatim>\<open>SliceSet\<close> is a \<^verbatim>\<open>std::set\<close> ordered by \<^verbatim>\<open>BySmallestKey\<close>: a sequence strictly increasing
  under \<^verbatim>\<open>compare\<close>, where inserting an equivalent element does nothing. \<^verbatim>\<open>std::upper_bound\<close>
  returns the position of the first element greater than the probe.
\<close>

definition BySmallestKey :: "slice \<Rightarrow> slice \<Rightarrow> bool" where
  "BySmallestKey s1 s2 \<longleftrightarrow> compare s1 s2 < 0"

text \<open>The line the comparison prints through \<^verbatim>\<open>DEBUG\<close>, which expands to nothing unless \<^verbatim>\<open>ENABLE_DEBUG\<close> is defined;
  \<^verbatim>\<open>%s\<close> ends at a null byte.\<close>

definition DEBUG :: "bool \<Rightarrow> bytes \<Rightarrow> bytes" where
  "DEBUG enabled text = (if enabled then lit ''[DEBUG] '' @ text else [])"

definition c_str :: "bytes \<Rightarrow> bytes" where
  "c_str s = takeWhile (\<lambda>b. b \<noteq> 0) s"

definition BySmallestKey_debug :: "bool \<Rightarrow> slice \<Rightarrow> slice \<Rightarrow> bytes" where
  "BySmallestKey_debug enabled s1 s2 =
     DEBUG enabled (lit ''s1: '' @ c_str (to_string s1) @ lit '' s2: '' @ c_str (to_string s2) @ [10])"

fun set_insert :: "slice \<Rightarrow> slice list \<Rightarrow> slice list" where
  "set_insert s [] = [s]"
| "set_insert s (t # ts) =
     (if BySmallestKey s t then s # t # ts
      else if BySmallestKey t s then t # set_insert s ts
      else t # ts)"

definition upper_bound :: "slice list \<Rightarrow> slice \<Rightarrow> nat" where
  "upper_bound ss probe = length (takeWhile (\<lambda>s. \<not> BySmallestKey probe s) ss)"

definition TestAlgorithm :: "slice list \<times> nat" where
  "TestAlgorithm =
     (let ss = set_insert (slice_of_lit ''bc'')
                 (set_insert (slice_of_lit ''a'') (set_insert (slice_of_lit ''abc1'') []))
      in (ss, upper_bound ss (slice_of_lit ''def'')))"

lemma BySmallestKey_less: "BySmallestKey a b \<longleftrightarrow> a < b"
  by (simp add: BySmallestKey_def less_slice_def)

lemma set_set_insert: "set (set_insert s ss) = insert s (set ss)"
  by (induction ss) (auto simp: BySmallestKey_less)

lemma sorted_set_insert: "sorted_wrt (<) ss \<Longrightarrow> sorted_wrt (<) (set_insert s ss)"
  by (induction ss) (auto simp: BySmallestKey_less set_set_insert)

lemma set_insert_all:
  "sorted_wrt (<) ss \<Longrightarrow>
     sorted_wrt (<) (fold set_insert xs ss) \<and> set (fold set_insert xs ss) = set xs \<union> set ss"
  by (induction xs arbitrary: ss) (auto simp: sorted_set_insert set_set_insert)

lemma upper_bound_count:
  "sorted_wrt (<) ss \<Longrightarrow> upper_bound ss p = card {s \<in> set ss. s \<le> p}"
proof (induction ss)
  case (Cons s ss)
  show ?case
  proof (cases "s \<le> p")
    case True
    then have "{x \<in> set (s # ss). x \<le> p} = insert s {x \<in> set ss. x \<le> p}" by auto
    moreover have "s \<notin> {x \<in> set ss. x \<le> p}" using Cons.prems by auto
    ultimately show ?thesis
      using Cons True by (simp add: upper_bound_def BySmallestKey_less)
  next
    case False
    then have "{x \<in> set (s # ss). x \<le> p} = {}" using Cons.prems by force
    then show ?thesis using False by (simp add: upper_bound_def BySmallestKey_less)
  qed
qed (simp add: upper_bound_def)

section \<open>Properties\<close>

text \<open>compare is the lexicographic order of the bytes read as unsigned; it agrees with the equality
  operator, is antisymmetric, and starts_with is the prefix relation.\<close>

theorem compare_is_lexicographic:
  "compare a b = lex_cmp (data a) (data b) \<and> compare b a = - compare a b \<and>
   (compare a b = 0 \<longleftrightarrow> slice_eq a b) \<and> (slice_neq a b \<longleftrightarrow> data a \<noteq> data b) \<and>
   (starts_with a b \<longleftrightarrow> (\<exists>r. data a = data b @ r))"
  using compare_lex [of "data a" "data b"] compare_lex [of "data b" "data a"]
    lex_cmp_swap [of "data b" "data a"] lex_cmp_eq_0 [of "data a" "data b"]
  by (cases a; cases b) (auto simp: data_def slice_eq_iff slice_neq_def starts_with_iff)

text \<open>A SliceSet built by inserting any slices holds exactly those slices, once each and in
  increasing order, and upper_bound counts the elements that are not greater than the probe.\<close>

theorem slice_set_is_ordered_set:
  "sorted_wrt (\<lambda>a b. compare a b < 0) (fold set_insert xs []) \<and> set (fold set_insert xs []) = set xs \<and>
   upper_bound (fold set_insert xs []) p = card {s \<in> set xs. compare s p \<le> 0}"
proof -
  have "sorted_wrt (<) (fold set_insert xs [])" "set (fold set_insert xs []) = set xs"
    using set_insert_all [of "[]" xs] by auto
  moreover have "(<) = (\<lambda>a b. compare a b < 0)" by (intro ext) (simp add: less_slice_def)
  ultimately show ?thesis
    using upper_bound_count [of "fold set_insert xs []" p] by (simp add: less_eq_slice_def)
qed

lemma TestAlgorithm_result:
  "TestAlgorithm = ([slice_of_lit ''a'', slice_of_lit ''abc1'', slice_of_lit ''bc''], 3)"
  by code_simp

lemma BySmallestKey_debug_prints:
  "BySmallestKey_debug True (slice_of_lit ''abc1'') (slice_of_lit ''a'') = lit ''[DEBUG] s1: abc1 s2: a'' @ [10]"
  "BySmallestKey_debug False s1 s2 = []"
  by (code_simp, simp add: BySmallestKey_debug_def DEBUG_def)

end
