(* ===== verification/Coding.thy ===== *)
theory Coding
  imports Slices
begin

unbundle bit_operations_syntax

text \<open>
  \<^verbatim>\<open>common/coding.h\<close> and \<^verbatim>\<open>common/coding.cc\<close>: fixed-width little-endian integers, base-128
  varints and length-prefixed slices. \<^verbatim>\<open>std::string\<close> and character buffers are byte lists; a
  pointer range \<^verbatim>\<open>[p, limit)\<close> is the list of its bytes, the pointer a decoder returns is the list
  of the bytes from there to \<^verbatim>\<open>limit\<close>, and \<^verbatim>\<open>nullptr\<close> is \<open>None\<close>. The reference encoding \<open>leb128\<close>
  on the naturals is what the encoders and decoders are proved against.
\<close>

section \<open>Fixed-width integers\<close>

definition EncodeFixed32 :: "u32 \<Rightarrow> bytes" where
  "EncodeFixed32 value =
     [ucast value, ucast (drop_bit 8 value), ucast (drop_bit 16 value), ucast (drop_bit 24 value)]"

definition EncodeFixed64 :: "u64 \<Rightarrow> bytes" where
  "EncodeFixed64 value =
     [ucast value, ucast (drop_bit 8 value), ucast (drop_bit 16 value), ucast (drop_bit 24 value),
      ucast (drop_bit 32 value), ucast (drop_bit 40 value), ucast (drop_bit 48 value),
      ucast (drop_bit 56 value)]"

text \<open>The decoders read a fixed number of bytes without a bounds check; reading past the end is
  undefined and is \<open>None\<close> here.\<close>

definition DecodeFixed32 :: "bytes \<Rightarrow> u32 option" where
  "DecodeFixed32 buffer =
     (if length buffer < 4 then None
      else Some (ucast (buffer ! 0) OR push_bit 8 (ucast (buffer ! 1))
                 OR push_bit 16 (ucast (buffer ! 2)) OR push_bit 24 (ucast (buffer ! 3))))"

definition DecodeFixed64 :: "bytes \<Rightarrow> u64 option" where
  "DecodeFixed64 buffer =
     (if length buffer < 8 then None
      else Some (ucast (buffer ! 0) OR push_bit 8 (ucast (buffer ! 1))
                 OR push_bit 16 (ucast (buffer ! 2)) OR push_bit 24 (ucast (buffer ! 3))
                 OR push_bit 32 (ucast (buffer ! 4)) OR push_bit 40 (ucast (buffer ! 5))
                 OR push_bit 48 (ucast (buffer ! 6)) OR push_bit 56 (ucast (buffer ! 7))))"

definition PutFixed32 :: "bytes \<Rightarrow> u32 \<Rightarrow> bytes" where
  "PutFixed32 dst value = dst @ EncodeFixed32 value"

definition PutFixed64 :: "bytes \<Rightarrow> u64 \<Rightarrow> bytes" where
  "PutFixed64 dst value = dst @ EncodeFixed64 value"

section \<open>Varints: writing\<close>

definition EncodeVarint32 :: "u32 \<Rightarrow> bytes" where
  "EncodeVarint32 v =
     (if v < push_bit 7 1 then [ucast v]
      else if v < push_bit 14 1 then [ucast (v OR 128), ucast (drop_bit 7 v)]
      else if v < push_bit 21 1 then
        [ucast (v OR 128), ucast (drop_bit 7 v OR 128), ucast (drop_bit 14 v)]
      else if v < push_bit 28 1 then
        [ucast (v OR 128), ucast (drop_bit 7 v OR 128), ucast (drop_bit 14 v OR 128),
         ucast (drop_bit 21 v)]
      else
        [ucast (v OR 128), ucast (drop_bit 7 v OR 128), ucast (drop_bit 14 v OR 128),
         ucast (drop_bit 21 v OR 128), ucast (drop_bit 28 v)])"

function EncodeVarint64 :: "u64 \<Rightarrow> bytes" where
  "EncodeVarint64 value =
     (if 128 \<le> value then ucast (value OR 128) # EncodeVarint64 (drop_bit 7 value)
      else [ucast value])"
  by pat_completeness auto
termination
  by (relation "measure unat") (auto intro: unat_shift7_less)

declare EncodeVarint64.simps [simp del]

definition PutVarint32 :: "bytes \<Rightarrow> u32 \<Rightarrow> bytes" where
  "PutVarint32 dst value = dst @ EncodeVarint32 value"

definition PutVarint64 :: "bytes \<Rightarrow> u64 \<Rightarrow> bytes" where
  "PutVarint64 dst value = dst @ EncodeVarint64 value"

text \<open>The size is converted to \<^verbatim>\<open>uint32_t\<close> by the call to \<^verbatim>\<open>PutVarint32\<close>.\<close>

definition PutLengthPrefixedSlice :: "bytes \<Rightarrow> slice \<Rightarrow> bytes" where
  "PutLengthPrefixedSlice dst value =
     PutVarint32 dst (of_nat (slice_size value)) @ data value"

function VarintLength_loop :: "nat \<Rightarrow> u64 \<Rightarrow> nat" where
  "VarintLength_loop len v =
     (if 128 \<le> v then VarintLength_loop (Suc len) (drop_bit 7 v) else len)"
  by pat_completeness auto
termination
  by (relation "measure (\<lambda>(len, v). unat v)")
    (auto intro: unat_shift7_less)

declare VarintLength_loop.simps [simp del]

definition VarintLength :: "u64 \<Rightarrow> nat" where
  "VarintLength v = VarintLength_loop 1 v"

section \<open>Varints: reading\<close>

fun GetVarint32PtrFullback_loop :: "nat \<Rightarrow> u32 \<Rightarrow> bytes \<Rightarrow> (u32 \<times> bytes) option" where
  "GetVarint32PtrFullback_loop shift result [] = None"
| "GetVarint32PtrFullback_loop shift result (b # p) =
     (if shift \<le> 28 then
        let byte = (ucast b :: u32) in
        if byte AND 128 \<noteq> 0
        then GetVarint32PtrFullback_loop (shift + 7) (result OR push_bit shift (byte AND 127)) p
        else Some (result OR push_bit shift byte, p)
      else None)"

definition GetVarint32PtrFullback :: "bytes \<Rightarrow> (u32 \<times> bytes) option" where
  "GetVarint32PtrFullback p = GetVarint32PtrFullback_loop 0 0 p"

definition GetVarint32Ptr :: "bytes \<Rightarrow> (u32 \<times> bytes) option" where
  "GetVarint32Ptr p =
     (case p of
        [] \<Rightarrow> GetVarint32PtrFullback p
      | b # p' \<Rightarrow>
          let result = (ucast b :: u32) in
          if result AND 128 = 0 then Some (result, p') else GetVarint32PtrFullback p)"

text \<open>
  \<^verbatim>\<open>GetVarint32\<close> takes a slice and advances it on success; on failure the slice and the output
  are untouched.
\<close>

definition GetVarint32 :: "slice \<Rightarrow> (u32 \<times> slice) option" where
  "GetVarint32 input =
     (case GetVarint32PtrFullback (data input) of
        None \<Rightarrow> None
      | Some (value, q) \<Rightarrow> Some (value, Slice q))"

text \<open>\<^verbatim>\<open>shift <= 63 & p < limit\<close> parses as \<^verbatim>\<open>(shift <= 63) & (p < limit)\<close>.\<close>

fun GetVarint64Ptr_loop :: "nat \<Rightarrow> u64 \<Rightarrow> bytes \<Rightarrow> (u64 \<times> bytes) option" where
  "GetVarint64Ptr_loop shift result [] = None"
| "GetVarint64Ptr_loop shift result (b # p) =
     (if shift \<le> 63 then
        let byte = (ucast b :: u64) in
        if byte AND 128 \<noteq> 0
        then GetVarint64Ptr_loop (shift + 7) (result OR push_bit shift (byte AND 127)) p
        else Some (result OR push_bit shift byte, p)
      else None)"

definition GetVarint64Ptr :: "bytes \<Rightarrow> (u64 \<times> bytes) option" where
  "GetVarint64Ptr p = GetVarint64Ptr_loop 0 0 p"

definition GetVarint64 :: "slice \<Rightarrow> (u64 \<times> slice) option" where
  "GetVarint64 input =
     (case GetVarint64Ptr (data input) of
        None \<Rightarrow> None
      | Some (value, q) \<Rightarrow> Some (value, Slice q))"

text \<open>
  The result and the input slice after the call. When the length was read but the slice is
  shorter, the call fails with the length already consumed.
\<close>

definition GetLengthPrefixedSlice :: "slice \<Rightarrow> slice option \<times> slice" where
  "GetLengthPrefixedSlice input =
     (case GetVarint32 input of
        None \<Rightarrow> (None, input)
      | Some (len, input') \<Rightarrow>
          if unat len \<le> slice_size input' then
            (Some (Slice (take (unat len) (data input'))), Slice (drop (unat len) (data input')))
          else (None, input'))"

section \<open>The reference encoding\<close>

text \<open>
  Base-128 little-endian numerals over the naturals, a set high bit meaning that more follows.
  \<open>leb128_decode m\<close> reads at most \<open>m\<close> bytes.
\<close>

fun leb128 :: "nat \<Rightarrow> bytes" where
  "leb128 n = (if n < 128 then [of_nat n] else of_nat (128 + n mod 128) # leb128 (n div 128))"

declare leb128.simps [simp del]

fun leb128_decode :: "nat \<Rightarrow> bytes \<Rightarrow> (nat \<times> bytes) option" where
  "leb128_decode 0 bs = None"
| "leb128_decode m [] = None"
| "leb128_decode (Suc m) (b # bs) =
     (if 128 \<le> b then
        map_option (\<lambda>(n, r). (unat b mod 128 + 128 * n, r)) (leb128_decode m bs)
      else Some (unat b, bs))"

lemma unat_cont_byte: "x < 128 \<Longrightarrow> unat (of_nat (128 + x) :: byte) = 128 + x"
  by (simp add: of_nat_inverse)

lemma leb128_decode_leb128:
  "length (leb128 n) \<le> m \<Longrightarrow> leb128_decode m (leb128 n @ rest) = Some (n, rest)"
proof (induction n arbitrary: m rule: leb128.induct)
  case (1 n)
  show ?case
  proof (cases "n < 128")
    case True
    then obtain m' where "m = Suc m'" using 1 by (cases m) (auto simp: leb128.simps [of n])
    then show ?thesis using True by (simp add: leb128.simps [of n] word_le_nat_alt of_nat_inverse)
  next
    case False
    then obtain m' where m: "m = Suc m'" using 1 by (cases m) (auto simp: leb128.simps [of n])
    let ?b = "of_nat (128 + n mod 128) :: byte"
    have b: "unat ?b = 128 + n mod 128" by (rule unat_cont_byte) simp
    have "leb128_decode m' (leb128 (n div 128) @ rest) = Some (n div 128, rest)"
      using 1 False m by (auto simp: leb128.simps [of n])
    moreover have "128 \<le> ?b" by (simp only: word_le_nat_alt b) simp
    moreover have "unat ?b mod 128 + 128 * (n div 128) = n" by (simp only: b) simp
    ultimately show ?thesis using False m by (simp add: leb128.simps [of n])
  qed
qed

lemma leb128_decode_truncated:
  "k < length (leb128 n) \<Longrightarrow> leb128_decode m (take k (leb128 n)) = None"
proof (induction n arbitrary: m k rule: leb128.induct)
  case (1 n)
  show ?case
  proof (cases "n < 128 \<or> k = 0 \<or> m = 0")
    case True
    with 1 show ?thesis by (cases m) (auto simp: leb128.simps [of n])
  next
    case False
    then obtain m' k' where m: "m = Suc m'" "k = Suc k'" by (cases m; cases k) auto
    let ?b = "of_nat (128 + n mod 128) :: byte"
    have b: "unat ?b = 128 + n mod 128" by (rule unat_cont_byte) simp
    have "leb128_decode m' (take k' (leb128 (n div 128))) = None"
      using 1 False m by (auto simp: leb128.simps [of n])
    moreover have "128 \<le> ?b" by (simp only: word_le_nat_alt b) simp
    ultimately show ?thesis using False m by (simp add: leb128.simps [of n])
  qed
qed

lemma length_leb128_le: "n < 128 ^ Suc k \<Longrightarrow> length (leb128 n) \<le> Suc k"
proof (induction k arbitrary: n)
  case 0
  then show ?case by (simp add: leb128.simps)
next
  case (Suc k)
  then have "n div 128 < 128 ^ Suc k" by (simp add: less_mult_imp_div_less mult.commute)
  from Suc.IH [OF this] show ?case by (subst leb128.simps) simp
qed

lemma length_leb128_u32: "length (leb128 (unat (v :: u32))) \<le> 5"
  using length_leb128_le [of "unat v" 4] unat_less_len [of v] by simp

lemma length_leb128_u64: "length (leb128 (unat (v :: u64))) \<le> 10"
  using length_leb128_le [of "unat v" 9] unat_less_len [of v] by simp

lemma leb128_decode_overlong:
  "m \<le> length bs \<Longrightarrow> \<forall>b\<in>set (take m bs). 128 \<le> b \<Longrightarrow> leb128_decode m bs = None"
  by (induction m bs rule: leb128_decode.induct) auto

section \<open>The decoders read the reference encoding\<close>

lemma cont_bit: "(b AND 128 \<noteq> 0) \<longleftrightarrow> 128 \<le> (b :: byte)"
proof -
  have "b AND 128 \<noteq> 0 \<longleftrightarrow> bit b 7"
    using and_exp_eq_0_iff_not_bit [of b 7] by simp
  also have "\<dots> \<longleftrightarrow> bit (unat b) 7" by (simp add: bit_unsigned_iff)
  also have "\<dots> \<longleftrightarrow> odd (unat b div 128)" by (simp add: bit_iff_odd)
  also have "\<dots> \<longleftrightarrow> 128 \<le> unat b"
  proof -
    from unat_byte_less [of b] have "unat b div 128 = (if 128 \<le> unat b then 1 else 0)" by auto
    then show ?thesis by simp
  qed
  finally show ?thesis by (simp add: word_le_nat_alt)
qed

lemma ucast_and_128:
  assumes "8 \<le> LENGTH('a::len)"
  shows "((ucast (b :: byte) :: 'a word) AND 128 = 0) \<longleftrightarrow> \<not> 128 \<le> b"
proof -
  have "(ucast b :: 'a word) AND 2 ^ 7 = 0 \<longleftrightarrow> \<not> bit (ucast b :: 'a word) 7"
    by (rule and_exp_eq_0_iff_not_bit)
  also have "bit (ucast b :: 'a word) 7 \<longleftrightarrow> bit b 7"
    using assms by (simp add: bit_ucast_iff)
  also have "bit b 7 \<longleftrightarrow> 128 \<le> b"
    using cont_bit [of b] and_exp_eq_0_iff_not_bit [of b 7] by simp
  finally show ?thesis by simp
qed

lemma unat_ucast_and_127:
  assumes "8 \<le> LENGTH('a::len)"
  shows "unat ((ucast (b :: byte) :: 'a word) AND 127) = unat b mod 128"
  using unat_and_mask_mod [of "ucast b :: 'a word" 7] unat_ucast_byte [OF assms, of b]
  by (simp add: mask_eq_exp_minus_1)

lemma acc_step_less:
  assumes "acc < 2 ^ (7 * i)" "x < (128::nat)"
  shows "acc + 2 ^ (7 * i) * x < 2 ^ (7 * Suc i)"
proof -
  have "2 ^ (7 * i) * x \<le> 2 ^ (7 * i) * 127" using assms(2) by (intro mult_le_mono2) simp
  then have "acc + 2 ^ (7 * i) * x < 2 ^ (7 * i) + 2 ^ (7 * i) * 127" using assms(1) by linarith
  then show ?thesis by (simp add: power_add)
qed

lemma GetVarint32_loop_spec:
  assumes "acc < 2 ^ (7 * i)" "i \<le> 5"
  shows "GetVarint32PtrFullback_loop (7 * i) (of_nat acc) p =
           map_option (\<lambda>(n, r). (of_nat (acc + 2 ^ (7 * i) * n), r)) (leb128_decode (5 - i) p)"
  using assms
proof (induction p arbitrary: i acc)
  case Nil
  then show ?case by (cases "5 - i") auto
next
  case (Cons b p)
  show ?case
  proof (cases "i \<le> 4")
    case False
    with Cons.prems show ?thesis by simp
  next
    case True
    then obtain m where m: "5 - i = Suc m" "5 - Suc i = m" using that [of "4 - i"] by auto
    let ?w = "ucast b :: u32"
    show ?thesis
    proof (cases "128 \<le> b")
      case c: True
      let ?acc = "acc + 2 ^ (7 * i) * (unat b mod 128)"
      have step: "of_nat acc OR push_bit (7 * i) (?w AND 127) = (of_nat ?acc :: u32)"
        by (subst or_of_nat_disjoint [OF Cons.prems(1)]) (simp add: unat_ucast_and_127)
      have lt: "?acc < 2 ^ (7 * Suc i)"
        using acc_step_less [OF Cons.prems(1), of "unat b mod 128"] by simp
      have "GetVarint32PtrFullback_loop (7 * Suc i) (of_nat ?acc) p =
              map_option (\<lambda>(n, r). (of_nat (?acc + 2 ^ (7 * Suc i) * n), r)) (leb128_decode m p)"
        using Cons.IH [OF lt] True m(2) by simp
      then show ?thesis
        using c True m step
        by (auto simp: ucast_and_128 power_add algebra_simps option.map_comp comp_def
            split: prod.splits intro!: map_option_cong)
    next
      case c: False
      have "of_nat acc OR push_bit (7 * i) ?w = (of_nat (acc + 2 ^ (7 * i) * unat b) :: u32)"
        by (subst or_of_nat_disjoint [OF Cons.prems(1)]) (simp add: unat_ucast_byte)
      then show ?thesis using c True m by (simp add: ucast_and_128)
    qed
  qed
qed

text \<open>The two decoding loops differ in the width of the accumulator and in the bound on the shift.\<close>

lemma GetVarint64_loop_spec:
  assumes "acc < 2 ^ (7 * i)" "i \<le> 10"
  shows "GetVarint64Ptr_loop (7 * i) (of_nat acc) p =
           map_option (\<lambda>(n, r). (of_nat (acc + 2 ^ (7 * i) * n), r)) (leb128_decode (10 - i) p)"
  using assms
proof (induction p arbitrary: i acc)
  case Nil
  then show ?case by (cases "10 - i") auto
next
  case (Cons b p)
  show ?case
  proof (cases "i \<le> 9")
    case False
    with Cons.prems show ?thesis by simp
  next
    case True
    then obtain m where m: "10 - i = Suc m" "10 - Suc i = m" using that [of "9 - i"] by auto
    let ?w = "ucast b :: u64"
    show ?thesis
    proof (cases "128 \<le> b")
      case c: True
      let ?acc = "acc + 2 ^ (7 * i) * (unat b mod 128)"
      have step: "of_nat acc OR push_bit (7 * i) (?w AND 127) = (of_nat ?acc :: u64)"
        by (subst or_of_nat_disjoint [OF Cons.prems(1)]) (simp add: unat_ucast_and_127)
      have lt: "?acc < 2 ^ (7 * Suc i)"
        using acc_step_less [OF Cons.prems(1), of "unat b mod 128"] by simp
      have "GetVarint64Ptr_loop (7 * Suc i) (of_nat ?acc) p =
              map_option (\<lambda>(n, r). (of_nat (?acc + 2 ^ (7 * Suc i) * n), r)) (leb128_decode m p)"
        using Cons.IH [OF lt] True m(2) by simp
      then show ?thesis
        using c True m step
        by (auto simp: ucast_and_128 power_add algebra_simps option.map_comp comp_def
            split: prod.splits intro!: map_option_cong)
    next
      case c: False
      have "of_nat acc OR push_bit (7 * i) ?w = (of_nat (acc + 2 ^ (7 * i) * unat b) :: u64)"
        by (subst or_of_nat_disjoint [OF Cons.prems(1)]) (simp add: unat_ucast_byte)
      then show ?thesis using c True m by (simp add: ucast_and_128)
    qed
  qed
qed

lemma GetVarint32PtrFullback_leb128 [codec_simps]:
  "GetVarint32PtrFullback p = map_option (\<lambda>(n, r). (of_nat n, r)) (leb128_decode 5 p)"
  using GetVarint32_loop_spec [of 0 0 p] by (simp add: GetVarint32PtrFullback_def)

lemma GetVarint64Ptr_leb128 [codec_simps]:
  "GetVarint64Ptr p = map_option (\<lambda>(n, r). (of_nat n, r)) (leb128_decode 10 p)"
  using GetVarint64_loop_spec [of 0 0 p] by (simp add: GetVarint64Ptr_def)

lemma GetVarint32Ptr_fast_path: "GetVarint32Ptr p = GetVarint32PtrFullback p"
proof (cases p)
  case (Cons b p')
  then show ?thesis
    by (auto simp: GetVarint32Ptr_def GetVarint32PtrFullback_def ucast_and_128 Let_def)
qed (simp add: GetVarint32Ptr_def)

section \<open>The encoders write the reference encoding\<close>

lemma ucast_byte_of_nat: "(ucast (v :: 'a::len word) :: byte) = of_nat (unat v)"
  by simp

lemma take_bit_or_exp:
  fixes v :: "'a::len word"
  assumes "LENGTH('b::len) = Suc k" "Suc k \<le> LENGTH('a)"
  shows "take_bit k (ucast v :: 'b word) OR 2 ^ k = ucast (v OR 2 ^ k)"
  using assms by (intro bit_word_eqI) (auto simp: bit_simps less_Suc_eq)

lemma low_byte_or_128:
  fixes v :: "'a::len word"
  assumes "8 \<le> LENGTH('a)"
  shows "(ucast (v OR 128) :: byte) = of_nat (128 + unat v mod 128)"
proof -
  have "(ucast (v OR 2 ^ 7) :: byte) = take_bit 7 (ucast v) OR 2 ^ 7"
    using assms by (subst take_bit_or_exp) simp_all
  also have "take_bit 7 (ucast v :: byte) = of_nat (take_bit 7 (unat v))"
    by (rule bit_word_eqI) (use assms in \<open>auto simp: bit_simps\<close>)
  also have "of_nat (take_bit 7 (unat v)) OR 2 ^ 7 = (of_nat (take_bit 7 (unat v) + 2 ^ 7 * unat (1 :: byte)) :: byte)"
    using or_of_nat_disjoint [OF take_bit_nat_less_exp, of 7 "unat v" "1 :: byte"] by simp
  finally show ?thesis by (simp add: take_bit_eq_mod add.commute)
qed

lemma EncodeVarint64_leb128 [codec_simps]: "EncodeVarint64 v = leb128 (unat v)"
proof (induction v rule: EncodeVarint64.induct)
  case (1 v)
  show ?case
  proof (cases "128 \<le> v")
    case True
    then have "EncodeVarint64 (drop_bit 7 v) = leb128 (unat v div 2 ^ 7)"
      using 1 by (simp only: unat_drop_bit_div)
    then show ?thesis
      using True
      by (simp add: EncodeVarint64.simps [of v] leb128.simps [of "unat v"] word_le_nat_alt
          low_byte_or_128)
  next
    case False
    then show ?thesis
      by (simp add: EncodeVarint64.simps [of v] leb128.simps [of "unat v"] word_le_nat_alt)
  qed
qed

lemma EncodeVarint32_leb128 [codec_simps]: "EncodeVarint32 v = leb128 (unat v)"
proof -
  let ?n = "unat v"
  define B where "B k = (of_nat (?n div 2 ^ k) :: byte)" for k
  define C where "C k = (of_nat (128 + ?n div 2 ^ k mod 128) :: byte)" for k
  define D where "D k = leb128 (?n div 2 ^ k)" for k
  have d: "unat (drop_bit k v) = ?n div 2 ^ k" for k by (rule unat_drop_bit_div)
  have hi: "ucast (drop_bit k v OR 128) = C k" for k
    unfolding C_def by (subst low_byte_or_128) (simp, simp only: d)
  have lo: "ucast (drop_bit k v) = B k" for k
    unfolding B_def by (simp only: ucast_byte_of_nat d)
  have first: "ucast (v OR 128) = C 0" "ucast v = B 0"
    using hi [of 0] lo [of 0] by simp_all
  have conds: "v < push_bit 7 1 \<longleftrightarrow> ?n < 2 ^ 7" "v < push_bit 14 1 \<longleftrightarrow> ?n < 2 ^ 14"
    "v < push_bit 21 1 \<longleftrightarrow> ?n < 2 ^ 21" "v < push_bit 28 1 \<longleftrightarrow> ?n < 2 ^ 28"
    by (simp_all add: word_less_nat_alt)
  have leb: "D k = (if ?n < 2 ^ (k + 7) then [B k] else C k # D (k + 7))" for k
    unfolding B_def C_def D_def
    by (subst leb128.simps)
      (auto simp: power_add div_mult2_eq div_less_iff_less_mult mult.commute)
  have "?n < 2 ^ 35" using unat_less_len [of v] by simp
  then have "D 28 = [B 28]" by (subst leb) simp
  moreover have "D 0 = (if ?n < 2 ^ 7 then [B 0] else C 0 # D 7)"
    "D 7 = (if ?n < 2 ^ 14 then [B 7] else C 7 # D 14)"
    "D 14 = (if ?n < 2 ^ 21 then [B 14] else C 14 # D 21)"
    "D 21 = (if ?n < 2 ^ 28 then [B 21] else C 21 # D 28)"
    by (subst leb, simp)+
  moreover have "D 0 = leb128 ?n" by (simp add: D_def)
  ultimately show ?thesis
    unfolding EncodeVarint32_def conds hi lo first by simp
qed

lemma VarintLength_loop_leb128: "VarintLength_loop len v + 1 = len + length (leb128 (unat v))"
proof (induction len v rule: VarintLength_loop.induct)
  case (1 len v)
  have d: "unat (drop_bit 7 v) = unat v div 128"
    using unat_drop_bit_div [of 7 v] by simp
  show ?case
  proof (cases "128 \<le> v")
    case True
    then have "VarintLength_loop (Suc len) (drop_bit 7 v) + 1 = Suc len + length (leb128 (unat v div 128))"
      using 1 by (simp only: d)
    with True show ?thesis
      by (simp add: VarintLength_loop.simps [of len v] leb128.simps [of "unat v"] word_le_nat_alt)
  next
    case False
    then show ?thesis
      by (simp add: VarintLength_loop.simps [of len v] leb128.simps [of "unat v"] word_le_nat_alt)
  qed
qed

lemma VarintLength_eq: "VarintLength v = length (EncodeVarint64 v)"
  using VarintLength_loop_leb128 [of 1 v] by (simp add: VarintLength_def EncodeVarint64_leb128)

section \<open>Codecs\<close>

text \<open>\<open>DecodeFixed32\<close> and \<open>DecodeFixed64\<close> with the pointer advance their callers perform.\<close>

definition NextFixed32 :: "bytes \<Rightarrow> (u32 \<times> bytes) option" where
  "NextFixed32 p = map_option (\<lambda>v. (v, drop 4 p)) (DecodeFixed32 p)"

definition NextFixed64 :: "bytes \<Rightarrow> (u64 \<times> bytes) option" where
  "NextFixed64 p = map_option (\<lambda>v. (v, drop 8 p)) (DecodeFixed64 p)"

definition NextSlice :: "bytes \<Rightarrow> (slice \<times> bytes) option" where
  "NextSlice p =
     (case GetLengthPrefixedSlice (Slice p) of (None, _) \<Rightarrow> None | (Some s, rest) \<Rightarrow> Some (s, data rest))"

text \<open>One more byte of a word, read back at its position.\<close>

lemma take_bit_next_byte:
  fixes v :: "'a::len word"
  shows "take_bit n v OR push_bit n (ucast (ucast (drop_bit n v) :: byte)) = take_bit (n + 8) v"
proof (rule bit_word_eqI)
  fix i assume "i < LENGTH('a)"
  then show "bit (take_bit n v OR push_bit n (ucast (ucast (drop_bit n v) :: byte))) i
               \<longleftrightarrow> bit (take_bit (n + 8) v) i"
    by (cases "i < n") (auto simp: bit_simps)
qed

lemma take_bit_first_byte:
  fixes v :: "'a::len word"
  shows "ucast (ucast v :: byte) = take_bit 8 v"
  using take_bit_next_byte [of 0 v] by simp

lemma DecodeFixed32_EncodeFixed32: "DecodeFixed32 (EncodeFixed32 v @ rest) = Some v"
proof -
  let ?b = "\<lambda>k. push_bit k (ucast (ucast (drop_bit k v) :: byte)) :: u32"
  have "take_bit 8 v OR ?b 8 = take_bit 16 v" "take_bit 16 v OR ?b 16 = take_bit 24 v"
    "take_bit 24 v OR ?b 24 = v"
    using take_bit_next_byte [of 8 v] take_bit_next_byte [of 16 v] take_bit_next_byte [of 24 v]
    by (simp_all only: numeral_plus_numeral add_num_simps) (simp_all add: take_bit_word_eq_self)
  then have "ucast (ucast v :: byte) OR ?b 8 OR ?b 16 OR ?b 24 = v"
    by (simp only: take_bit_first_byte or.assoc [symmetric])
  then show ?thesis
    unfolding DecodeFixed32_def EncodeFixed32_def by (simp del: push_bit_eq_mult)
qed

lemma DecodeFixed64_EncodeFixed64: "DecodeFixed64 (EncodeFixed64 v @ rest) = Some v"
proof -
  let ?b = "\<lambda>k. push_bit k (ucast (ucast (drop_bit k v) :: byte)) :: u64"
  have "take_bit 8 v OR ?b 8 = take_bit 16 v" "take_bit 16 v OR ?b 16 = take_bit 24 v"
    "take_bit 24 v OR ?b 24 = take_bit 32 v" "take_bit 32 v OR ?b 32 = take_bit 40 v"
    "take_bit 40 v OR ?b 40 = take_bit 48 v" "take_bit 48 v OR ?b 48 = take_bit 56 v"
    "take_bit 56 v OR ?b 56 = v"
    using take_bit_next_byte [of 8 v] take_bit_next_byte [of 16 v] take_bit_next_byte [of 24 v]
      take_bit_next_byte [of 32 v] take_bit_next_byte [of 40 v] take_bit_next_byte [of 48 v]
      take_bit_next_byte [of 56 v]
    by (simp_all only: numeral_plus_numeral add_num_simps) (simp_all add: take_bit_word_eq_self)
  then have "ucast (ucast v :: byte) OR ?b 8 OR ?b 16 OR ?b 24 OR ?b 32 OR ?b 40 OR ?b 48 OR ?b 56 = v"
    by (simp only: take_bit_first_byte or.assoc [symmetric])
  then show ?thesis
    unfolding DecodeFixed64_def EncodeFixed64_def by (simp del: push_bit_eq_mult)
qed

lemma length_EncodeFixed [simp]: "length (EncodeFixed32 v) = 4" "length (EncodeFixed64 w) = 8"
  by (simp_all add: EncodeFixed32_def EncodeFixed64_def)

lemma GetVarint32_Encode: "GetVarint32 (Slice (EncodeVarint32 v @ rest)) = Some (v, Slice rest)"
  by (simp add: GetVarint32_def data_def codec_simps leb128_decode_leb128 length_leb128_u32)

lemma GetVarint64_Encode: "GetVarint64 (Slice (EncodeVarint64 v @ rest)) = Some (v, Slice rest)"
  by (simp add: GetVarint64_def data_def codec_simps leb128_decode_leb128 length_leb128_u64)

text \<open>A reader of slices reads a sequence when the same reader on the bytes does.\<close>

lemma decode_seq_slice:
  assumes "\<And>bs. dec (Slice bs) = map_option (\<lambda>(x, q). (x, Slice q)) (dec_bytes bs)"
  shows "decode_seq dec n (Slice bs) = map_option (\<lambda>(xs, q). (xs, Slice q)) (decode_seq dec_bytes n bs)"
proof (induction n arbitrary: bs)
  case (Suc n)
  then show ?case
    by (cases "dec_bytes bs") (auto simp: assms split: option.splits)
qed simp

lemma GetVarint32_bytes: "GetVarint32 (Slice bs) = map_option (\<lambda>(v, q). (v, Slice q)) (GetVarint32Ptr bs)"
  by (auto simp: GetVarint32_def data_def GetVarint32Ptr_fast_path split: option.splits)

lemma GetVarint64_bytes: "GetVarint64 (Slice bs) = map_option (\<lambda>(v, q). (v, Slice q)) (GetVarint64Ptr bs)"
  by (auto simp: GetVarint64_def data_def split: option.splits)

lemma GetLengthPrefixedSlice_Put:
  assumes "slice_size s < 2 ^ 32"
  shows "GetLengthPrefixedSlice (Slice (PutLengthPrefixedSlice [] s @ rest)) = (Some s, Slice rest)"
proof -
  have "unat (of_nat (slice_size s) :: u32) = slice_size s"
    using assms by (simp add: of_nat_inverse)
  then show ?thesis
    by (cases s) (simp add: GetLengthPrefixedSlice_def PutLengthPrefixedSlice_def PutVarint32_def
        GetVarint32_Encode data_def slice_size_def)
qed

interpretation varint32: codec EncodeVarint32 GetVarint32Ptr "\<lambda>_. True"
  by unfold_locales
    (simp add: GetVarint32Ptr_fast_path codec_simps leb128_decode_leb128 length_leb128_u32)

interpretation varint64: codec EncodeVarint64 GetVarint64Ptr "\<lambda>_. True"
  by unfold_locales (simp add: codec_simps leb128_decode_leb128 length_leb128_u64)

interpretation fixed32: codec EncodeFixed32 NextFixed32 "\<lambda>_. True"
  by unfold_locales (simp add: NextFixed32_def DecodeFixed32_EncodeFixed32)

interpretation fixed64: codec EncodeFixed64 NextFixed64 "\<lambda>_. True"
  by unfold_locales (simp add: NextFixed64_def DecodeFixed64_EncodeFixed64)

interpretation lenprefixed: codec "PutLengthPrefixedSlice []" NextSlice "\<lambda>s. slice_size s < 2 ^ 32"
  by unfold_locales (simp add: NextSlice_def GetLengthPrefixedSlice_Put data_def)

lemma foldl_append_concat:
  assumes "\<And>dst x. put dst x = dst @ enc x"
  shows "foldl put dst xs = dst @ concat (map enc xs)"
  by (induction xs arbitrary: dst) (simp_all add: assms)

section \<open>Properties\<close>

text \<open>C5: On every input the varint readers compute the reference decoder: at most 5 (10) bytes are
  read, the value is truncated to the width of the result, an unterminated or truncated varint is
  refused, and the one-byte fast path of \<^verbatim>\<open>GetVarint32Ptr\<close> agrees with the fallback.\<close>

theorem varint_readers_refine_leb128:
  "GetVarint32Ptr p = map_option (\<lambda>(n, r). (of_nat n, r)) (leb128_decode 5 p) \<and>
   GetVarint32PtrFullback p = GetVarint32Ptr p \<and>
   GetVarint64Ptr p = map_option (\<lambda>(n, r). (of_nat n, r)) (leb128_decode 10 p)"
  by (simp add: GetVarint32Ptr_fast_path codec_simps)

text \<open>C8: The unrolled 32-bit writer and the 64-bit loop write the same reference encoding, and
  \<^verbatim>\<open>VarintLength\<close> is the number of bytes written.\<close>

theorem varint_writers_refine_leb128:
  "EncodeVarint32 v = leb128 (unat v) \<and> EncodeVarint64 w = leb128 (unat w) \<and>
   EncodeVarint32 v = EncodeVarint64 (ucast v) \<and> VarintLength w = length (EncodeVarint64 w)"
proof -
  have "unat (ucast v :: u64) = unat v"
    using unat_less_len [of v] by (simp add: unsigned_ucast_eq take_bit_nat_eq_self)
  then show ?thesis by (simp add: codec_simps VarintLength_eq)
qed

text \<open>C3: A buffer filled by any sequence of \<^verbatim>\<open>PutVarint32\<close> (\<^verbatim>\<open>PutVarint64\<close>) calls is read back as
  the same sequence of values, and what follows it is left for the next reader: by \<^verbatim>\<open>GetVarint32\<close>
  (\<^verbatim>\<open>GetVarint64\<close>) on a slice, which every call advances, and by \<^verbatim>\<open>GetVarint32Ptr\<close>
  (\<^verbatim>\<open>GetVarint64Ptr\<close>) on the bytes up to a limit.\<close>

theorem varint_stream_roundtrip:
  "decode_seq GetVarint32 (length vs) (Slice (foldl PutVarint32 [] vs @ rest)) = Some (vs, Slice rest) \<and>
   decode_seq GetVarint64 (length ws) (Slice (foldl PutVarint64 [] ws @ rest)) = Some (ws, Slice rest) \<and>
   decode_seq GetVarint32Ptr (length vs) (foldl PutVarint32 [] vs @ rest) = Some (vs, rest) \<and>
   decode_seq GetVarint64Ptr (length ws) (foldl PutVarint64 [] ws @ rest) = Some (ws, rest)"
  using varint32.decode_seq_concat [of vs rest] varint64.decode_seq_concat [of ws rest]
  by (simp add: foldl_append_concat [of PutVarint32 EncodeVarint32] PutVarint32_def
      foldl_append_concat [of PutVarint64 EncodeVarint64] PutVarint64_def
      decode_seq_slice [of GetVarint32 GetVarint32Ptr, OF GetVarint32_bytes]
      decode_seq_slice [of GetVarint64 GetVarint64Ptr, OF GetVarint64_bytes])

text \<open>C34: A proper prefix of an encoding is refused, and so is any input whose first 5 (10) bytes all
  have the continuation bit: \<^verbatim>\<open>GetVarint32\<close> and \<^verbatim>\<open>GetVarint64\<close> return false on such a slice, the pointer
  readers return null, and a slice whose length is such a varint is refused and not advanced.\<close>

theorem varint_rejects_truncated_and_overlong:
  assumes "k < length (EncodeVarint32 v)" and "j < length (EncodeVarint64 w)"
    and "5 \<le> length p" and "\<forall>b\<in>set (take 5 p). 128 \<le> b"
    and "10 \<le> length q" and "\<forall>b\<in>set (take 10 q). 128 \<le> b"
  shows "GetVarint32 (Slice (take k (EncodeVarint32 v))) = None \<and> GetVarint32 (Slice p) = None \<and>
         GetVarint64 (Slice (take j (EncodeVarint64 w))) = None \<and> GetVarint64 (Slice q) = None \<and>
         GetVarint32Ptr (take k (EncodeVarint32 v)) = None \<and> GetVarint32Ptr p = None \<and>
         GetVarint64Ptr (take j (EncodeVarint64 w)) = None \<and> GetVarint64Ptr q = None \<and>
         GetLengthPrefixedSlice (Slice (take k (EncodeVarint32 v))) = (None, Slice (take k (EncodeVarint32 v))) \<and>
         GetLengthPrefixedSlice (Slice p) = (None, Slice p)"
  using assms
  by (simp add: GetLengthPrefixedSlice_def GetVarint32_bytes GetVarint64_bytes GetVarint32Ptr_fast_path codec_simps
      leb128_decode_truncated leb128_decode_overlong)

theorem varint_rejects_witness:
  "GetVarint32 (Slice (take 4 (EncodeVarint32 2147483748))) = None \<and>
   GetVarint64 (Slice (take 9 (EncodeVarint64 9223372036854775908))) = None \<and>
   GetVarint32 (Slice [129, 130, 131, 132, 133, 17]) = None \<and>
   GetVarint64 (Slice [129, 130, 131, 132, 133, 129, 130, 131, 132, 133, 17]) = None"
proof -
  let ?p = "[129, 130, 131, 132, 133, 17] :: bytes"
  let ?q = "[129, 130, 131, 132, 133, 129, 130, 131, 132, 133, 17] :: bytes"
  have k: "4 < length (EncodeVarint32 2147483748)" by (simp add: EncodeVarint32_def)
  have j: "9 < length (EncodeVarint64 9223372036854775908)" by code_simp
  have p: "5 \<le> length ?p" "\<forall>b\<in>set (take 5 ?p). 128 \<le> b" by simp_all
  have q: "10 \<le> length ?q" "\<forall>b\<in>set (take 10 ?q). 128 \<le> b" by simp_all
  from varint_rejects_truncated_and_overlong [OF k j p q] show ?thesis by blast
qed

text \<open>The fixed-width writers are inverted by the readers, in any sequence and whatever follows.\<close>

theorem fixed_stream_roundtrip:
  "decode_seq NextFixed32 (length vs) (foldl PutFixed32 [] vs @ rest) = Some (vs, rest) \<and>
   decode_seq NextFixed64 (length ws) (foldl PutFixed64 [] ws @ rest) = Some (ws, rest)"
  using fixed32.decode_seq_concat [of vs rest] fixed64.decode_seq_concat [of ws rest]
  by (simp add: foldl_append_concat [of PutFixed32 EncodeFixed32] PutFixed32_def
      foldl_append_concat [of PutFixed64 EncodeFixed64] PutFixed64_def)

text \<open>A buffer of length-prefixed slices, each shorter than 4 GiB, is read back slice by slice.\<close>

theorem slice_stream_roundtrip:
  assumes "\<forall>s\<in>set ss. slice_size s < 2 ^ 32"
  shows "decode_seq NextSlice (length ss) (foldl PutLengthPrefixedSlice [] ss @ rest) = Some (ss, rest)"
  using lenprefixed.decode_seq_concat [OF assms]
  by (simp add: foldl_append_concat [of PutLengthPrefixedSlice "PutLengthPrefixedSlice []"]
      PutLengthPrefixedSlice_def PutVarint32_def)

theorem slice_stream_roundtrip_witness:
  "decode_seq NextSlice 3
     (foldl PutLengthPrefixedSlice [] [Slice [], slice_of_lit ''foo'', slice_of_lit ''bar''] @ [7]) =
   Some ([Slice [], slice_of_lit ''foo'', slice_of_lit ''bar''], [7])"
proof -
  let ?ss = "[Slice [], slice_of_lit ''foo'', slice_of_lit ''bar'']"
  have "length ?ss = 3" by simp
  moreover have "\<forall>s\<in>set ?ss. slice_size s < 2 ^ 32" by (simp add: slice_size_def slice_of_lit_def)
  ultimately show ?thesis using slice_stream_roundtrip [of ?ss "[7]"] by metis
qed

end
