(* ===== verification/Statuses.thy ===== *)
theory Statuses
  imports Coding
begin

text \<open>
  \<^verbatim>\<open>common/status.h\<close> and \<^verbatim>\<open>common/status.cc\<close>. The first part models the contents of \<^verbatim>\<open>state_\<close>:
  \<open>None\<close> for a null pointer, otherwise the bytes of the array (message length, code, message).
  The second part models the pointers: a heap of arrays and the \<^verbatim>\<open>Status\<close> objects that own them,
  with copy and move construction, assignment and destruction.
\<close>

section \<open>The contents of a status\<close>

type_synonym status = "bytes option"

definition kOk :: int where "kOk = 0"
definition kNotFound :: int where "kNotFound = 1"
definition kCorruption :: int where "kCorruption = 2"
definition kNotSupported :: int where "kNotSupported = 3"
definition kInvalidArgument :: int where "kInvalidArgument = 4"
definition kIOError :: int where "kIOError = 5"

lemmas code_defs = kOk_def kNotFound_def kCorruption_def kNotSupported_def kInvalidArgument_def kIOError_def

definition OK :: status where
  "OK = None"

text \<open>
  The constructor. \<open>len1\<close>, \<open>len2\<close>, \<open>size\<close> and the argument of \<^verbatim>\<open>new char[]\<close> are 32-bit; a copy
  that would write past the array is \<open>None\<close>, as is the failed assertion. The length is stored in
  the byte order of a little-endian machine.
\<close>

definition Status_new :: "int \<Rightarrow> slice \<Rightarrow> slice \<Rightarrow> status option" where
  "Status_new code msg1 msg2 =
     (if code = kOk then None
      else
        let len1 = slice_size msg1 mod 2 ^ 32;
            len2 = slice_size msg2 mod 2 ^ 32;
            size = (len1 + (if len2 \<noteq> 0 then len2 + 2 else 0)) mod 2 ^ 32;
            alloc = (size + 5) mod 2 ^ 32
        in if alloc < 5 + len1 \<or> len2 \<noteq> 0 \<and> alloc < 5 + len1 + 2 + slice_size msg2 then None
           else Some (Some (EncodeFixed32 (of_nat size) @ [of_int code] @ take len1 (data msg1) @
                            (if len2 \<noteq> 0 then lit '': '' @ data msg2 else []))))"

definition NotFound :: "slice \<Rightarrow> slice \<Rightarrow> status option" where
  "NotFound msg1 msg2 = Status_new kNotFound msg1 msg2"

definition Corruption :: "slice \<Rightarrow> slice \<Rightarrow> status option" where
  "Corruption msg1 msg2 = Status_new kCorruption msg1 msg2"

definition NotSupported :: "slice \<Rightarrow> slice \<Rightarrow> status option" where
  "NotSupported msg1 msg2 = Status_new kNotSupported msg1 msg2"

definition InvalidArgument :: "slice \<Rightarrow> slice \<Rightarrow> status option" where
  "InvalidArgument msg1 msg2 = Status_new kInvalidArgument msg1 msg2"

definition IOError :: "slice \<Rightarrow> slice \<Rightarrow> status option" where
  "IOError msg1 msg2 = Status_new kIOError msg1 msg2"

definition ok :: "status \<Rightarrow> bool" where
  "ok s \<longleftrightarrow> s = None"

definition code :: "status \<Rightarrow> int" where
  "code s = (case s of None \<Rightarrow> kOk | Some state \<Rightarrow> sint (state ! 4))"

definition IsNotFound :: "status \<Rightarrow> bool" where
  "IsNotFound s \<longleftrightarrow> code s = kNotFound"

definition IsCorruption :: "status \<Rightarrow> bool" where
  "IsCorruption s \<longleftrightarrow> code s = kCorruption"

definition IsNotSupported :: "status \<Rightarrow> bool" where
  "IsNotSupported s \<longleftrightarrow> code s = kNotSupported"

definition IsInvalidArgument :: "status \<Rightarrow> bool" where
  "IsInvalidArgument s \<longleftrightarrow> code s = kInvalidArgument"

definition IsIOError :: "status \<Rightarrow> bool" where
  "IsIOError s \<longleftrightarrow> code s = kIOError"

text \<open>\<^verbatim>\<open>%d\<close> of \<^verbatim>\<open>snprintf\<close>.\<close>

fun digits_nat :: "nat \<Rightarrow> string" where
  "digits_nat n =
     (if n < 10 then [char_of (48 + n)] else digits_nat (n div 10) @ [char_of (48 + n mod 10)])"

declare digits_nat.simps [simp del]

definition digits_int :: "int \<Rightarrow> string" where
  "digits_int i = (if i < 0 then ''-'' @ digits_nat (nat (- i)) else digits_nat (nat i))"

definition type_text :: "int \<Rightarrow> string" where
  "type_text c =
     (if c = kOk then ''OK''
      else if c = kNotFound then ''NotFound: ''
      else if c = kCorruption then ''Corruption: ''
      else if c = kNotSupported then ''NotSupported: ''
      else if c = kInvalidArgument then ''InvalidArgument: ''
      else if c = kIOError then ''IOError: ''
      else ''Unknow code('' @ digits_int c @ '')'')"

text \<open>The stored length, and the text; reading past the array is \<open>None\<close>.\<close>

definition msg_len :: "bytes \<Rightarrow> nat" where
  "msg_len state = (case DecodeFixed32 state of None \<Rightarrow> 0 | Some n \<Rightarrow> unat n)"

definition ToString :: "status \<Rightarrow> bytes option" where
  "ToString s =
     (case s of
        None \<Rightarrow> Some (lit ''OK'')
      | Some state \<Rightarrow>
          if length state < 5 + msg_len state then None
          else Some (lit (type_text (code s)) @ take (msg_len state) (drop 5 state)))"

text \<open>\<^verbatim>\<open>size + 5\<close> is a 32-bit sum.\<close>

definition CopyState :: "bytes \<Rightarrow> bytes option" where
  "CopyState state =
     (let n = (msg_len state + 5) mod 2 ^ 32
      in if length state < n then None else Some (take n state))"

text \<open>The layout the class comment promises.\<close>

definition wf_state :: "bytes \<Rightarrow> bool" where
  "wf_state state \<longleftrightarrow> 5 \<le> length state \<and> length state = msg_len state + 5 \<and> length state < 2 ^ 32"

definition status_text :: "slice \<Rightarrow> slice \<Rightarrow> bytes" where
  "status_text msg1 msg2 = data msg1 @ (if slice_empty msg2 then [] else lit '': '' @ data msg2)"

section \<open>Facts about the contents\<close>

lemma msg_len_append:
  "n < 2 ^ 32 \<Longrightarrow> msg_len (EncodeFixed32 (of_nat n) @ rest) = n"
  by (simp add: msg_len_def DecodeFixed32_EncodeFixed32 of_nat_inverse)

lemma slice_size_data [simp]: "slice_size s = length (data s)"
  by (simp add: slice_size_def data_def)

lemma Status_new_Some:
  assumes "c \<noteq> kOk" "slice_size msg1 + slice_size msg2 + 7 < 2 ^ 32"
  shows "Status_new c msg1 msg2 =
     Some (Some (EncodeFixed32 (of_nat (length (status_text msg1 msg2))) @ [of_int c] @ status_text msg1 msg2))"
proof -
  have "length (data msg1) mod 2 ^ 32 = length (data msg1)" "length (data msg2) mod 2 ^ 32 = length (data msg2)"
    using assms(2) by simp_all
  then show ?thesis using assms
    by (simp add: Status_new_def Let_def status_text_def slice_empty_def)
qed

lemma alloc_exact:
  fixes l1 l2 s2 :: nat
  assumes "sz = (l1 + (if l2 \<noteq> 0 then l2 + 2 else 0)) mod M" "alloc = (sz + 5) mod M"
    "5 + l1 \<le> alloc" "l2 \<noteq> 0 \<Longrightarrow> 7 + l1 + s2 \<le> alloc" "l2 \<le> s2"
  shows "sz = l1 + (if l2 \<noteq> 0 then s2 + 2 else 0)"
proof -
  have "sz \<le> l1 + (if l2 \<noteq> 0 then l2 + 2 else 0)" "alloc \<le> sz + 5"
    using assms(1,2) by (simp_all add: mod_less_eq_dividend)
  with assms(3-) show ?thesis by (cases "l2 = 0") auto
qed

lemma wf_Status_new:
  assumes "Status_new c msg1 msg2 = Some s"
  shows "\<exists>state. s = Some state \<and> wf_state state"
proof -
  define len1 where "len1 = slice_size msg1 mod 2 ^ 32"
  define len2 where "len2 = slice_size msg2 mod 2 ^ 32"
  define sz where "sz = (len1 + (if len2 \<noteq> 0 then len2 + 2 else 0)) mod 2 ^ 32"
  define alloc where "alloc = (sz + 5) mod 2 ^ 32"
  define tail where "tail = take len1 (data msg1) @ (if len2 \<noteq> 0 then lit '': '' @ data msg2 else [])"
  have "(if c = kOk then None
         else if alloc < 5 + len1 \<or> len2 \<noteq> 0 \<and> alloc < 5 + len1 + 2 + slice_size msg2 then None
         else Some (Some (EncodeFixed32 (of_nat sz) @ [of_int c] @ tail))) = Some s"
    using assms by (simp only: Status_new_def Let_def len1_def len2_def sz_def alloc_def tail_def)
  then have st: "s = Some (EncodeFixed32 (of_nat sz) @ [of_int c] @ tail)"
    and fits: "5 + len1 \<le> alloc" "len2 \<noteq> 0 \<Longrightarrow> 7 + len1 + slice_size msg2 \<le> alloc"
    by (auto split: if_splits)
  have "len2 \<le> slice_size msg2" "len1 \<le> length (data msg1)"
    by (simp_all add: len1_def len2_def)
  moreover from this have "sz = len1 + (if len2 \<noteq> 0 then slice_size msg2 + 2 else 0)"
    using alloc_exact [OF sz_def alloc_def fits] by simp
  ultimately have len: "length tail = sz" by (simp add: tail_def)
  have "sz < 2 ^ 32" by (simp add: sz_def)
  then have "msg_len (EncodeFixed32 (of_nat sz) @ [of_int c] @ tail) = sz"
    by (rule msg_len_append)
  moreover have "sz + 5 < 2 ^ 32"
  proof (rule ccontr)
    assume "\<not> sz + 5 < 2 ^ 32"
    then have "alloc = sz + 5 - 2 ^ 32" unfolding alloc_def using \<open>sz < 2 ^ 32\<close> by (subst mod_if) simp
    then have "alloc < 5" using \<open>sz < 2 ^ 32\<close> by linarith
    then show False using fits(1) by simp
  qed
  ultimately show ?thesis using len by (simp add: st wf_state_def)
qed

lemma sint_of_int_byte: "-128 \<le> c \<Longrightarrow> c < 128 \<Longrightarrow> sint (of_int c :: byte) = c"
  by (simp add: signed_of_int signed_take_bit_int_eq_self_iff)

lemma CopyState_wf: "wf_state state \<Longrightarrow> CopyState state = Some state"
  by (simp add: CopyState_def wf_state_def Let_def)

lemma code_Status_new:
  "Status_new c msg1 msg2 = Some s \<Longrightarrow> -128 \<le> c \<Longrightarrow> c < 128 \<Longrightarrow> code s = c"
  by (auto simp: Status_new_def Let_def code_def nth_append sint_of_int_byte split: if_splits)

lemma ToString_Status_new:
  assumes "c \<noteq> kOk" "-128 \<le> c" "c < 128" "slice_size msg1 + slice_size msg2 + 7 < 2 ^ 32"
  shows "\<exists>s. Status_new c msg1 msg2 = Some s \<and> code s = c \<and>
           ToString s = Some (lit (type_text c) @ status_text msg1 msg2)"
proof -
  let ?m = "length (status_text msg1 msg2)"
  let ?st = "EncodeFixed32 (of_nat ?m) @ [of_int c] @ status_text msg1 msg2"
  have new: "Status_new c msg1 msg2 = Some (Some ?st)"
    by (rule Status_new_Some [OF assms(1,4)])
  have code: "code (Some ?st) = c" using code_Status_new [OF new assms(2,3)] .
  have "?m < 2 ^ 32" using assms(4) by (simp add: status_text_def)
  then have "msg_len ?st = ?m" by (rule msg_len_append)
  then have "ToString (Some ?st) = Some (lit (type_text c) @ status_text msg1 msg2)"
    by (simp add: ToString_def code [simplified])
  then show ?thesis using new code by blast
qed

section \<open>Status objects and the arrays they own\<close>

text \<open>
  The heap of \<^verbatim>\<open>new char[]\<close> arrays, and the live \<^verbatim>\<open>Status\<close> objects with their \<^verbatim>\<open>state_\<close>
  pointers. Freeing or reading an array that is not allocated is \<open>None\<close>, as is using an object
  that is not alive.
\<close>

record world =
  blocks :: "nat \<rightharpoonup> bytes"
  brk :: nat
  objs :: "nat \<rightharpoonup> nat option"

datatype st_op =
    Default nat
  | Construct nat int slice slice
  | CopyConstruct nat nat
  | MoveConstruct nat nat
  | CopyAssign nat nat
  | MoveAssign nat nat
  | Destroy nat

definition new_block :: "bytes \<Rightarrow> world \<Rightarrow> nat \<times> world" where
  "new_block st w = (brk w, w\<lparr>blocks := (blocks w)(brk w \<mapsto> st), brk := Suc (brk w)\<rparr>)"

definition delete_state :: "nat option \<Rightarrow> world \<Rightarrow> world option" where
  "delete_state p w =
     (case p of
        None \<Rightarrow> Some w
      | Some a \<Rightarrow> if blocks w a = None then None else Some (w\<lparr>blocks := (blocks w)(a := None)\<rparr>))"

text \<open>\<^verbatim>\<open>(rhs.state_ == nullptr) ? nullptr : CopyState(rhs.state_)\<close>\<close>

definition copy_state :: "nat option \<Rightarrow> world \<Rightarrow> (nat option \<times> world) option" where
  "copy_state p w =
     (case p of
        None \<Rightarrow> Some (None, w)
      | Some a \<Rightarrow>
          (case Option.bind (blocks w a) CopyState of
             None \<Rightarrow> None
           | Some st \<Rightarrow> (let (b, w') = new_block st w in Some (Some b, w'))))"

definition set_obj :: "nat \<Rightarrow> nat option \<Rightarrow> world \<Rightarrow> world" where
  "set_obj x p w = w\<lparr>objs := (objs w)(x \<mapsto> p)\<rparr>"

definition Status_copy_ctor :: "nat \<Rightarrow> nat option \<Rightarrow> world \<Rightarrow> world option" where
  "Status_copy_ctor x rhs w = map_option (\<lambda>(p, w'). set_obj x p w') (copy_state rhs w)"

definition Status_copy_assign :: "nat \<Rightarrow> nat option \<Rightarrow> nat option \<Rightarrow> world \<Rightarrow> world option" where
  "Status_copy_assign x lhs rhs w =
     (if lhs \<noteq> rhs
      then Option.bind (delete_state lhs w) (\<lambda>w'. map_option (\<lambda>(p, w''). set_obj x p w'') (copy_state rhs w'))
      else Some w)"

definition Status_move_ctor :: "nat \<Rightarrow> nat \<Rightarrow> nat option \<Rightarrow> world \<Rightarrow> world" where
  "Status_move_ctor x y rhs w = set_obj y None (set_obj x rhs w)"

definition Status_move_assign :: "nat \<Rightarrow> nat \<Rightarrow> nat option \<Rightarrow> nat option \<Rightarrow> world \<Rightarrow> world" where
  "Status_move_assign x y lhs rhs w = set_obj y lhs (set_obj x rhs w)"

definition Status_dtor :: "nat \<Rightarrow> nat option \<Rightarrow> world \<Rightarrow> world option" where
  "Status_dtor x p w = map_option (\<lambda>w'. w'\<lparr>objs := (objs w')(x := None)\<rparr>) (delete_state p w)"

fun st_step :: "world \<Rightarrow> st_op \<Rightarrow> world option" where
  "st_step w (Default x) = (if objs w x = None then Some (set_obj x None w) else None)"
| "st_step w (Construct x c m1 m2) =
     (case (objs w x, Status_new c m1 m2) of
        (None, Some (Some st)) \<Rightarrow> (let (a, w') = new_block st w in Some (set_obj x (Some a) w'))
      | _ \<Rightarrow> None)"
| "st_step w (CopyConstruct x y) =
     (case (objs w x, objs w y) of (None, Some q) \<Rightarrow> Status_copy_ctor x q w | _ \<Rightarrow> None)"
| "st_step w (MoveConstruct x y) =
     (case (objs w x, objs w y) of (None, Some q) \<Rightarrow> Some (Status_move_ctor x y q w) | _ \<Rightarrow> None)"
| "st_step w (CopyAssign x y) =
     (case (objs w x, objs w y) of (Some p, Some q) \<Rightarrow> Status_copy_assign x p q w | _ \<Rightarrow> None)"
| "st_step w (MoveAssign x y) =
     (case (objs w x, objs w y) of (Some p, Some q) \<Rightarrow> Some (Status_move_assign x y p q w) | _ \<Rightarrow> None)"
| "st_step w (Destroy x) =
     (case objs w x of Some p \<Rightarrow> Status_dtor x p w | None \<Rightarrow> None)"

text \<open>What the class promises: objects are values.\<close>

fun spec_step :: "(nat \<rightharpoonup> status) \<Rightarrow> st_op \<Rightarrow> (nat \<rightharpoonup> status) option" where
  "spec_step m (Default x) = (if m x = None then Some (m(x \<mapsto> OK)) else None)"
| "spec_step m (Construct x c m1 m2) =
     (case (m x, Status_new c m1 m2) of (None, Some s) \<Rightarrow> Some (m(x \<mapsto> s)) | _ \<Rightarrow> None)"
| "spec_step m (CopyConstruct x y) =
     (case (m x, m y) of (None, Some v) \<Rightarrow> Some (m(x \<mapsto> v)) | _ \<Rightarrow> None)"
| "spec_step m (MoveConstruct x y) =
     (case (m x, m y) of (None, Some v) \<Rightarrow> Some (m(x \<mapsto> v, y \<mapsto> OK)) | _ \<Rightarrow> None)"
| "spec_step m (CopyAssign x y) =
     (case (m x, m y) of (Some _, Some v) \<Rightarrow> Some (m(x \<mapsto> v)) | _ \<Rightarrow> None)"
| "spec_step m (MoveAssign x y) =
     (case (m x, m y) of (Some u, Some v) \<Rightarrow> Some (m(x \<mapsto> v, y \<mapsto> u)) | _ \<Rightarrow> None)"
| "spec_step m (Destroy x) = (case m x of Some _ \<Rightarrow> Some (m(x := None)) | None \<Rightarrow> None)"

definition pointee :: "world \<Rightarrow> nat option \<Rightarrow> status" where
  "pointee w p = (case p of None \<Rightarrow> None | Some a \<Rightarrow> blocks w a)"

definition world_values :: "world \<Rightarrow> nat \<rightharpoonup> status" where
  "world_values w x = map_option (pointee w) (objs w x)"

definition world_inv :: "world \<Rightarrow> bool" where
  "world_inv w \<longleftrightarrow>
     (\<forall>a st. blocks w a = Some st \<longrightarrow> a < brk w \<and> wf_state st \<and> (\<exists>x. objs w x = Some (Some a))) \<and>
     (\<forall>x a. objs w x = Some (Some a) \<longrightarrow> blocks w a \<noteq> None) \<and>
     (\<forall>x y a. objs w x = Some (Some a) \<longrightarrow> objs w y = Some (Some a) \<longrightarrow> x = y)"

lemma world_invI:
  assumes "\<And>a st. blocks w a = Some st \<Longrightarrow> a < brk w"
    and "\<And>a st. blocks w a = Some st \<Longrightarrow> wf_state st"
    and "\<And>a st. blocks w a = Some st \<Longrightarrow> \<exists>x. objs w x = Some (Some a)"
    and "\<And>x a. objs w x = Some (Some a) \<Longrightarrow> blocks w a \<noteq> None"
    and "\<And>x y a. objs w x = Some (Some a) \<Longrightarrow> objs w y = Some (Some a) \<Longrightarrow> x = y"
  shows "world_inv w"
  using assms unfolding world_inv_def by blast

lemma world_invD:
  assumes "world_inv w"
  shows world_alloc: "blocks w a = Some st \<Longrightarrow> a < brk w \<and> wf_state st"
    and world_noleak: "blocks w a = Some st \<Longrightarrow> \<exists>x. objs w x = Some (Some a)"
    and world_owned: "objs w x = Some (Some a) \<Longrightarrow> \<exists>st. blocks w a = Some st \<and> wf_state st"
    and world_unique: "objs w x = Some (Some a) \<Longrightarrow> objs w y = Some (Some a) \<Longrightarrow> x = y"
  using assms unfolding world_inv_def by blast+

lemma world_fresh: "world_inv w \<Longrightarrow> blocks w (brk w) = None"
  using world_alloc [of w "brk w"] by (cases "blocks w (brk w)") auto

lemma pointee_objs [simp]: "pointee (w\<lparr>objs := f\<rparr>) = pointee w"
  by (simp add: pointee_def fun_eq_iff cong: option.case_cong)

lemmas st_op_defs = new_block_def delete_state_def copy_state_def set_obj_def Status_copy_ctor_def
  Status_copy_assign_def Status_move_ctor_def Status_move_assign_def Status_dtor_def

lemma world_values_upd: "world_values (set_obj x p w) = (world_values w)(x \<mapsto> pointee w p)"
  by (auto simp: world_values_def set_obj_def fun_eq_iff)

lemma construct_block:
  assumes inv: "world_inv w" and "objs w x = None" "wf_state st" "new_block st w = (a, w')"
  shows "world_inv (set_obj x (Some a) w') \<and>
         world_values (set_obj x (Some a) w') = (world_values w)(x \<mapsto> Some st)"
proof
  have a: "a = brk w" "w' = w\<lparr>blocks := (blocks w)(brk w \<mapsto> st), brk := Suc (brk w)\<rparr>"
    using assms(4) by (auto simp: new_block_def)
  have fresh: "objs w y \<noteq> Some (Some (brk w))" for y
    using world_owned [OF inv, of y "brk w"] world_fresh [OF inv] by auto
  show "world_inv (set_obj x (Some a) w')"
  proof (rule world_invI)
    fix b t assume "blocks (set_obj x (Some a) w') b = Some t"
    then have cases: "b = brk w \<and> t = st \<or> blocks w b = Some t"
      by (auto simp: set_obj_def a split: if_splits)
    then show "b < brk (set_obj x (Some a) w')" "wf_state t"
      using world_alloc [OF inv] assms(3) by (auto simp: set_obj_def a less_Suc_eq)
    show "\<exists>y. objs (set_obj x (Some a) w') y = Some (Some b)"
      using cases world_noleak [OF inv] assms(2) by (auto simp: set_obj_def a) (metis option.distinct(1))
  next
    fix y b assume "objs (set_obj x (Some a) w') y = Some (Some b)"
    then show "blocks (set_obj x (Some a) w') b \<noteq> None"
      using world_owned [OF inv, of y b] by (auto simp: set_obj_def a split: if_splits)
  next
    fix y z b
    assume "objs (set_obj x (Some a) w') y = Some (Some b)" "objs (set_obj x (Some a) w') z = Some (Some b)"
    then show "y = z"
      using fresh world_unique [OF inv, of y b z] by (auto simp: set_obj_def a split: if_splits)
  qed
  have "map_option (pointee w') (objs w y) = map_option (pointee w) (objs w y)" for y
    using fresh [of y] by (cases "objs w y") (auto simp: pointee_def a split: option.splits)
  then show "world_values (set_obj x (Some a) w') = (world_values w)(x \<mapsto> Some st)"
    by (simp add: world_values_upd fun_eq_iff world_values_def) (simp add: a pointee_def)
qed

lemma destroy_obj:
  assumes inv: "world_inv w" and x: "objs w x = Some p"
  shows "\<exists>w'. Status_dtor x p w = Some w' \<and> world_inv w' \<and> objs w' = (objs w)(x := None) \<and>
           world_values w' = (world_values w)(x := None)"
proof (cases p)
  case None
  let ?w = "w\<lparr>objs := (objs w)(x := None)\<rparr>"
  have "world_inv ?w"
  proof (rule world_invI)
    fix a st assume "blocks ?w a = Some st"
    then show "a < brk ?w" "wf_state st" "\<exists>y. objs ?w y = Some (Some a)"
      using world_alloc [OF inv, of a st] world_noleak [OF inv, of a st] x None
      by (simp_all, metis option.distinct(1) option.inject)
  qed (use world_owned [OF inv] world_unique [OF inv] in \<open>fastforce split: if_splits\<close>)+
  then show ?thesis using None
    by (auto simp: Status_dtor_def delete_state_def world_values_def fun_eq_iff)
next
  case (Some a)
  let ?w = "w\<lparr>blocks := (blocks w)(a := None), objs := (objs w)(x := None)\<rparr>"
  obtain st where st: "blocks w a = Some st" using world_owned [OF inv] x Some by blast
  have uniq: "y = x" if "objs w y = Some (Some a)" for y
    using world_unique [OF inv] that x Some by blast
  have inv': "world_inv ?w"
  proof (rule world_invI)
    fix b t assume "blocks ?w b = Some t"
    then show "b < brk ?w" "wf_state t" "\<exists>y. objs ?w y = Some (Some b)"
      using world_alloc [OF inv, of b t] world_noleak [OF inv, of b t] x Some
      by (simp_all split: if_splits, metis option.inject)
  next
    fix y b assume "objs ?w y = Some (Some b)"
    then show "blocks ?w b \<noteq> None"
      using world_owned [OF inv, of y b] uniq [of y] by (auto split: if_splits)
  next
    fix y z b assume "objs ?w y = Some (Some b)" "objs ?w z = Some (Some b)"
    then show "y = z" using world_unique [OF inv, of y b z] by (auto split: if_splits)
  qed
  have "map_option (pointee ?w) (objs w y) = map_option (pointee w) (objs w y)" if "y \<noteq> x" for y
    using uniq [of y] that by (cases "objs w y") (auto simp: pointee_def split: option.splits)
  then have "world_values ?w = (world_values w)(x := None)"
    by (simp add: world_values_def fun_eq_iff)
  then show ?thesis using st Some inv' by (simp add: Status_dtor_def delete_state_def)
qed

lemma copy_obj:
  assumes inv: "world_inv w" and x: "objs w x = None" and q: "q = None \<or> (\<exists>y. objs w y = Some q)"
  shows "\<exists>w'. Status_copy_ctor x q w = Some w' \<and> world_inv w' \<and>
           world_values w' = (world_values w)(x \<mapsto> pointee w q)"
proof (cases q)
  case None
  have "world_inv (set_obj x None w)"
  proof (rule world_invI)
    fix a st assume "blocks (set_obj x None w) a = Some st"
    then show "a < brk (set_obj x None w)" "wf_state st" "\<exists>y. objs (set_obj x None w) y = Some (Some a)"
      using world_alloc [OF inv, of a st] world_noleak [OF inv, of a st] x
      by (simp_all add: set_obj_def, metis option.distinct(1))
  qed (use world_owned [OF inv] world_unique [OF inv] in \<open>fastforce simp: set_obj_def split: if_splits\<close>)+
  then show ?thesis using None
    by (simp add: Status_copy_ctor_def copy_state_def world_values_upd)
next
  case (Some a)
  then obtain st where st: "blocks w a = Some st" "wf_state st" using world_owned [OF inv] q by blast
  obtain b w' where nb: "new_block st w = (b, w')" by (cases "new_block st w")
  have "Status_copy_ctor x q w = Some (set_obj x (Some b) w')"
    using Some st nb by (simp add: Status_copy_ctor_def copy_state_def CopyState_wf)
  moreover have "pointee w q = Some st" using Some st by (simp add: pointee_def)
  ultimately show ?thesis using construct_block [OF inv x st(2) nb] by simp
qed

text \<open>Copy assignment is destruction followed by copy construction, except on equal pointers.\<close>

lemma copy_state_objs:
  "copy_state q (w\<lparr>objs := f\<rparr>) = map_option (\<lambda>(p, w'). (p, w'\<lparr>objs := f\<rparr>)) (copy_state q w)"
  by (auto simp: copy_state_def new_block_def split: option.splits)

lemma copy_state_keeps_objs: "copy_state q w = Some (p, w') \<Longrightarrow> objs w' = objs w"
  by (auto simp: copy_state_def new_block_def split: option.splits)

lemma delete_state_keeps_objs: "delete_state q w = Some w' \<Longrightarrow> objs w' = objs w"
  by (auto simp: delete_state_def split: option.splits if_splits)

lemma copy_assign_dtor_ctor:
  assumes "p \<noteq> q"
  shows "Status_copy_assign x p q w = Option.bind (Status_dtor x p w) (Status_copy_ctor x q)"
proof (cases "delete_state p w")
  case (Some w1)
  show ?thesis
  proof (cases "copy_state q w1")
    case (Some r)
    obtain b w2 where r: "r = (b, w2)" by (cases r)
    have "set_obj x b w2 = set_obj x b (w2\<lparr>objs := (objs w1)(x := None)\<rparr>)"
      using copy_state_keeps_objs [of q w1 b w2] Some r by (simp add: set_obj_def)
    then show ?thesis using assms \<open>delete_state p w = Some w1\<close> Some r
      by (simp add: Status_copy_assign_def Status_dtor_def Status_copy_ctor_def copy_state_objs)
  qed (use assms Some in \<open>simp add: Status_copy_assign_def Status_dtor_def Status_copy_ctor_def copy_state_objs\<close>)
qed (use assms in \<open>simp add: Status_copy_assign_def Status_dtor_def\<close>)

lemma assign_obj:
  assumes inv: "world_inv w" and x: "objs w x = Some p" and y: "objs w y = Some q"
  shows "\<exists>w'. Status_copy_assign x p q w = Some w' \<and> world_inv w' \<and>
           world_values w' = (world_values w)(x := world_values w y)"
proof (cases "p = q")
  case True
  then have "world_values w x = world_values w y" using x y by (simp add: world_values_def)
  then show ?thesis using True inv by (simp add: Status_copy_assign_def fun_upd_idem)
next
  case False
  then have "x \<noteq> y" using x y by auto
  obtain w1 where w1: "Status_dtor x p w = Some w1" "world_inv w1" "objs w1 = (objs w)(x := None)"
      "world_values w1 = (world_values w)(x := None)"
    using destroy_obj [OF inv x] by blast
  have y1: "objs w1 y = Some q" using w1(3) y \<open>x \<noteq> y\<close> by simp
  obtain w2 where w2: "Status_copy_ctor x q w1 = Some w2" "world_inv w2"
      "world_values w2 = (world_values w1)(x \<mapsto> pointee w1 q)"
    using copy_obj [OF w1(2), of x q] w1(3) y1 by auto
  have "Some (pointee w1 q) = world_values w y"
    using fun_cong [OF w1(4), of y] y1 \<open>x \<noteq> y\<close> by (simp add: world_values_def)
  then show ?thesis using False w1 w2 by (simp add: copy_assign_dtor_ctor)
qed

lemma permute_objs:
  assumes inv: "world_inv w" and objs: "objs w' = objs w \<circ> \<sigma>" and \<sigma>: "\<And>z. \<sigma> (\<sigma> z) = z"
    and same: "blocks w' = blocks w" "brk w' = brk w"
  shows "world_inv w'"
proof (rule world_invI)
  fix a st assume "blocks w' a = Some st"
  then show "a < brk w'" "wf_state st" "\<exists>y. objs w' y = Some (Some a)"
    using world_alloc [OF inv, of a st] world_noleak [OF inv, of a st] \<sigma>
    by (simp_all add: objs same, metis)
next
  fix y z a assume "objs w' y = Some (Some a)" "objs w' z = Some (Some a)"
  then have "\<sigma> y = \<sigma> z" using world_unique [OF inv, of "\<sigma> y" a "\<sigma> z"] by (simp add: objs)
  then show "y = z" using \<sigma> by metis
qed (use world_owned [OF inv] in \<open>fastforce simp: objs same\<close>)

lemma swap_objs:
  assumes "world_inv w" "objs w x = Some p" "objs w y = Some q"
  shows "world_inv (Status_move_assign x y p q w)"
    and "world_values (Status_move_assign x y p q w) =
           (world_values w)(x := world_values w y, y := world_values w x)"
proof -
  let ?w = "Status_move_assign x y p q w"
  let ?\<sigma> = "\<lambda>z. if z = x then y else if z = y then x else z"
  have objs: "objs ?w = objs w \<circ> ?\<sigma>"
    using assms by (auto simp: Status_move_assign_def set_obj_def fun_eq_iff)
  have same: "blocks ?w = blocks w" "brk ?w = brk w"
    by (simp_all add: Status_move_assign_def set_obj_def)
  show "world_inv ?w" by (rule permute_objs [OF assms(1) objs _ same]) simp
  have "pointee ?w = pointee w" by (simp add: pointee_def same fun_eq_iff cong: option.case_cong)
  then have "world_values ?w z = ((world_values w)(x := world_values w y, y := world_values w x)) z" for z
    by (simp add: world_values_def objs)
  then show "world_values ?w = (world_values w)(x := world_values w y, y := world_values w x)"
    by (rule ext)
qed

lemma move_obj:
  assumes inv: "world_inv w" and x: "objs w x = None" and y: "objs w y = Some q"
  shows "world_inv (Status_move_ctor x y q w)"
    and "world_values (Status_move_ctor x y q w) = (world_values w)(x := world_values w y, y \<mapsto> OK)"
proof -
  let ?w = "Status_move_ctor x y q w"
  have ne: "x \<noteq> y" using x y by auto
  obtain w1 where w1: "Status_copy_ctor x None w = Some w1" "world_inv w1"
      "world_values w1 = (world_values w)(x \<mapsto> None)"
    using copy_obj [OF inv x, of None] by (auto simp: pointee_def)
  then have w1_eq: "w1 = set_obj x None w"
    by (simp add: Status_copy_ctor_def copy_state_def)
  have eq: "?w = Status_move_assign x y None q w1"
    using ne by (simp add: w1_eq Status_move_ctor_def Status_move_assign_def set_obj_def fun_upd_twist)
  have o: "objs w1 x = Some None" "objs w1 y = Some q"
    using ne y by (simp_all add: w1_eq set_obj_def)
  show "world_inv ?w" unfolding eq by (rule swap_objs(1) [OF w1(2) o])
  show "world_values ?w = (world_values w)(x := world_values w y, y \<mapsto> OK)"
    unfolding eq swap_objs(2) [OF w1(2) o] w1(3) using ne by (auto simp: OK_def fun_eq_iff)
qed

section \<open>Operations on objects are operations on values\<close>

definition step_refines :: "world \<Rightarrow> st_op \<Rightarrow> bool" where
  "step_refines w op \<longleftrightarrow>
     map_option world_values (st_step w op) = spec_step (world_values w) op \<and> (\<forall>w'. st_step w op = Some w' \<longrightarrow> world_inv w')"

lemma world_values_obj: "objs w x = Some p \<Longrightarrow> world_values w x = Some (pointee w p)" "objs w x = None \<Longrightarrow> world_values w x = None"
  by (simp_all add: world_values_def)

lemma construct_refines:
  assumes "world_inv w"
  shows "step_refines w (Construct x c m1 m2)"
proof (cases "objs w x = None \<and> Status_new c m1 m2 \<noteq> None")
  case True
  then obtain st where st: "Status_new c m1 m2 = Some (Some st)" "wf_state st" using wf_Status_new by blast
  obtain a w' where nb: "new_block st w = (a, w')" by (cases "new_block st w")
  show ?thesis using construct_block [OF assms _ st(2) nb, of x] True st nb
    by (simp add: step_refines_def world_values_obj)
qed (auto simp: step_refines_def world_values_def split: option.splits)

lemma constructors_refine:
  assumes "world_inv w"
  shows "step_refines w (CopyConstruct x y)" "step_refines w (MoveConstruct x y)"
proof -
  have "step_refines w (CopyConstruct x y) \<and> step_refines w (MoveConstruct x y)"
  proof (cases "objs w x = None \<and> objs w y \<noteq> None")
    case True
    then obtain q where q: "objs w x = None" "objs w y = Some q" by blast
    note v = world_values_obj(1) [OF q(2)] world_values_obj(2) [OF q(1)]
    have "q = None \<or> (\<exists>y. objs w y = Some q)" using q by blast
    from copy_obj [OF assms q(1) this] show ?thesis
      using move_obj [OF assms q] q v by (auto simp: step_refines_def)
  qed (auto simp: step_refines_def world_values_def split: option.splits)
  then show "step_refines w (CopyConstruct x y)" "step_refines w (MoveConstruct x y)" by blast+
qed

lemma assignments_refine:
  assumes "world_inv w"
  shows "step_refines w (CopyAssign x y)" "step_refines w (MoveAssign x y)"
proof -
  have "step_refines w (CopyAssign x y) \<and> step_refines w (MoveAssign x y)"
  proof (cases "objs w x \<noteq> None \<and> objs w y \<noteq> None")
    case True
    then obtain p q where pq: "objs w x = Some p" "objs w y = Some q" by blast
    note v = world_values_obj(1) [OF pq(1)] world_values_obj(1) [OF pq(2)]
    show ?thesis using assign_obj [OF assms pq] swap_objs [OF assms pq] pq v by (auto simp: step_refines_def)
  qed (auto simp: step_refines_def world_values_def split: option.splits)
  then show "step_refines w (CopyAssign x y)" "step_refines w (MoveAssign x y)" by blast+
qed

lemma default_refines: "world_inv w \<Longrightarrow> step_refines w (Default x)"
  using copy_obj [of w x None]
  by (auto simp: step_refines_def world_values_def Status_copy_ctor_def copy_state_def pointee_def OK_def)

lemma destroy_refines:
  assumes "world_inv w"
  shows "step_refines w (Destroy x)"
proof (cases "objs w x")
  case (Some p)
  then show ?thesis using destroy_obj [OF assms Some] world_values_obj(1) [OF Some] by (auto simp: step_refines_def)
qed (simp add: step_refines_def world_values_def)

lemma every_step_refines: "world_inv w \<Longrightarrow> step_refines w op"
  using default_refines construct_refines constructors_refine assignments_refine destroy_refines by (cases op) auto

interpretation statuses: partial_refinement st_step spec_step world_values world_inv
  using every_step_refines by unfold_locales (simp_all add: step_refines_def)

text \<open>A program starts with no \<^verbatim>\<open>Status\<close> object and nothing allocated for one.\<close>

definition no_statuses :: world where
  "no_statuses = \<lparr>blocks = Map.empty, brk = 0, objs = Map.empty\<rparr>"

lemma no_statuses_inv: "world_inv no_statuses"
  by (simp add: world_inv_def no_statuses_def)

lemma no_statuses_values: "world_values no_statuses = Map.empty"
  by (simp add: world_values_def no_statuses_def fun_eq_iff)

text \<open>The arrays that live objects point to.\<close>

definition owned_blocks :: "world \<Rightarrow> nat set" where
  "owned_blocks w = {a. \<exists>x. objs w x = Some (Some a)}"

lemma owned_dom: "world_inv w \<Longrightarrow> dom (blocks w) = owned_blocks w"
  using world_noleak world_owned unfolding owned_blocks_def by fast

section \<open>Properties\<close>

text \<open>C21: A constructed status reports its code and prints its type text, the first message and, when
  the second is not empty, a colon and the second message.\<close>

theorem Status_new_ToString:
  assumes "c \<in> {kNotFound, kCorruption, kNotSupported, kInvalidArgument, kIOError}"
    and "slice_size msg1 + slice_size msg2 + 7 < 2 ^ 32"
  shows "\<exists>s. Status_new c msg1 msg2 = Some s \<and> \<not> ok s \<and> code s = c \<and>
           ToString s = Some (lit (type_text c) @ data msg1 @
             (if slice_empty msg2 then [] else lit '': '' @ data msg2))"
proof -
  have c: "c \<noteq> kOk" "-128 \<le> c" "c < 128" using assms(1) by (auto simp: code_defs)
  obtain s where s: "Status_new c msg1 msg2 = Some s" "code s = c"
      "ToString s = Some (lit (type_text c) @ status_text msg1 msg2)"
    using ToString_Status_new [OF c assms(2)] by blast
  moreover have "\<not> ok s" using wf_Status_new [OF s(1)] by (auto simp: ok_def)
  ultimately show ?thesis by (auto simp: status_text_def)
qed

theorem Status_new_ToString_witness:
  "\<exists>s. IOError (slice_of_lit ''f'') (slice_of_lit ''bad'') = Some s \<and> \<not> ok s \<and> code s = kIOError \<and>
     ToString s = Some (lit ''IOError: f: bad'')"
  using Status_new_ToString [of kIOError "slice_of_lit ''f''" "slice_of_lit ''bad''"]
  by (simp add: IOError_def slice_of_lit_def data_def type_text_def code_defs lit_def slice_empty_def)

text \<open>C23: \<^verbatim>\<open>Status\<close> objects are values. From a program without any, a sequence of constructions,
  copies, moves, assignments and destructions of live objects runs to its end, with no invalid delete
  and no use of a deleted array, exactly when the same operations are defined on values, and it leaves
  these values. After any such sequence the arrays that are allocated are those that live objects point
  to, no two objects share one, and when all objects are destroyed nothing is left.\<close>

theorem status_objects_are_values:
  "map_option world_values (run_all st_step no_statuses ops) = run_all spec_step Map.empty ops \<and>
   (\<forall>w. run_all st_step no_statuses ops = Some w \<longrightarrow>
      dom (blocks w) = owned_blocks w \<and>
      (\<forall>x y a. objs w x = Some (Some a) \<longrightarrow> objs w y = Some (Some a) \<longrightarrow> x = y) \<and>
      (objs w = Map.empty \<longrightarrow> blocks w = Map.empty))"
proof (intro conjI allI impI)
  show "map_option world_values (run_all st_step no_statuses ops) = run_all spec_step Map.empty ops"
    using statuses.run_all_refines [OF no_statuses_inv] by (simp add: no_statuses_values)
next
  fix w assume "run_all st_step no_statuses ops = Some w"
  then have inv: "world_inv w" by (rule statuses.run_all_inv [OF no_statuses_inv])
  show dom: "dom (blocks w) = owned_blocks w" by (rule owned_dom [OF inv])
  show "x = y" if "objs w x = Some (Some a)" "objs w y = Some (Some a)" for x y a
    using world_unique [OF inv that] .
  show "blocks w = Map.empty" if "objs w = Map.empty"
    using dom that by (simp add: owned_blocks_def)
qed

text \<open>An I/O error is constructed, assigned over an OK status, and moved on; all objects are destroyed.\<close>

theorem status_objects_witness:
  "\<exists>w. run_all st_step no_statuses
       [Construct 0 kIOError (Slice []) (Slice []), Default 1, CopyAssign 1 0, MoveConstruct 2 1,
        Destroy 0, Destroy 1, Destroy 2] = Some w \<and> blocks w = Map.empty"
proof -
  let ?ops = "[Construct 0 kIOError (Slice []) (Slice []), Default 1, CopyAssign 1 0, MoveConstruct 2 1,
    Destroy 0, Destroy 1, Destroy 2]"
  have "Status_new kIOError (Slice []) (Slice []) \<noteq> None"
    using Status_new_Some [of kIOError "Slice []" "Slice []"] by (simp add: code_defs slice_size_def data_def)
  then have spec: "run_all spec_step Map.empty ?ops = Some Map.empty"
    by (auto simp: fun_eq_iff)
  note t = status_objects_are_values [of ?ops]
  obtain w where w: "run_all st_step no_statuses ?ops = Some w" "world_values w = Map.empty"
    using t unfolding spec by (auto simp: map_option_eq_Some simp del: run_all.simps)
  have "objs w = Map.empty"
    using w(2) by (simp add: world_values_def fun_eq_iff)
  then show ?thesis using t w(1) by blast
qed

end
