(* ===== verification/Write_Batch.thy ===== *)
theory Write_Batch
  imports Coding
begin

unbundle bit_operations_syntax

text \<open>
  \<^verbatim>\<open>example-ping-pong-batch/write_batch.h\<close> and \<^verbatim>\<open>write_batch.cc\<close>: the LevelDB-style batch, a
  string holding a sequence number, a count and the records. Reading or writing past the string
  and signed overflow of the count are undefined and are \<open>None\<close>. The abstract batch is a sequence
  number and a list of operations; \<open>represents\<close> is the layout the file's comment documents.
\<close>

section \<open>The batch\<close>

datatype ValueType = kTypeDeletion | kTypeValue

fun value_type_byte :: "ValueType \<Rightarrow> byte" where
  "value_type_byte kTypeDeletion = 0"
| "value_type_byte kTypeValue = 1"

record WriteBatch =
  rep :: bytes

definition kHeader :: nat where
  "kHeader = 12"

definition Clear :: "WriteBatch \<Rightarrow> WriteBatch" where
  "Clear b = b\<lparr>rep := replicate kHeader 0\<rparr>"

definition WriteBatch_new :: WriteBatch where
  "WriteBatch_new = Clear \<lparr>rep = []\<rparr>"

definition ApproximateSize :: "WriteBatch \<Rightarrow> nat" where
  "ApproximateSize b = length (rep b)"

text \<open>\<^verbatim>\<open>Count\<close> converts the stored \<^verbatim>\<open>uint32_t\<close> to \<^verbatim>\<open>int\<close>.\<close>

definition Count :: "WriteBatch \<Rightarrow> int option" where
  "Count b = map_option sint (DecodeFixed32 (drop 8 (rep b)))"

definition SetCount :: "int \<Rightarrow> WriteBatch \<Rightarrow> WriteBatch option" where
  "SetCount n b =
     (if length (rep b) < 12 then None
      else Some (b\<lparr>rep := take 8 (rep b) @ EncodeFixed32 (of_int n) @ drop 12 (rep b)\<rparr>))"

definition Sequence :: "WriteBatch \<Rightarrow> u64 option" where
  "Sequence b = DecodeFixed64 (rep b)"

definition SetSequence :: "u64 \<Rightarrow> WriteBatch \<Rightarrow> WriteBatch option" where
  "SetSequence seq b =
     (if length (rep b) < 8 then None
      else Some (b\<lparr>rep := EncodeFixed64 seq @ drop 8 (rep b)\<rparr>))"

definition Contents :: "WriteBatch \<Rightarrow> slice" where
  "Contents b = Slice (rep b)"

definition ByteSize :: "WriteBatch \<Rightarrow> nat" where
  "ByteSize b = length (rep b)"

definition SetContents :: "slice \<Rightarrow> WriteBatch \<Rightarrow> WriteBatch" where
  "SetContents contents b = b\<lparr>rep := data contents\<rparr>"

definition int_add :: "int \<Rightarrow> int \<Rightarrow> int option" where
  "int_add a b = (if - (2 ^ 31) \<le> a + b \<and> a + b < 2 ^ 31 then Some (a + b) else None)"

definition add_count :: "int option \<Rightarrow> WriteBatch \<Rightarrow> WriteBatch option" where
  "add_count m b =
     Option.bind (Count b) (\<lambda>c. Option.bind m (\<lambda>d. Option.bind (int_add c d) (\<lambda>n. SetCount n b)))"

definition Put :: "slice \<Rightarrow> slice \<Rightarrow> WriteBatch \<Rightarrow> WriteBatch option" where
  "Put key value b =
     map_option (\<lambda>b'. b'\<lparr>rep := PutLengthPrefixedSlice
                       (PutLengthPrefixedSlice (rep b' @ [value_type_byte kTypeValue]) key) value\<rparr>)
       (add_count (Some 1) b)"

definition Delete :: "slice \<Rightarrow> WriteBatch \<Rightarrow> WriteBatch option" where
  "Delete key b =
     map_option (\<lambda>b'. b'\<lparr>rep := PutLengthPrefixedSlice (rep b' @ [value_type_byte kTypeDeletion]) key\<rparr>)
       (add_count (Some 1) b)"

text \<open>\<^verbatim>\<open>src->rep.size() - kHeader\<close> wraps on a source shorter than a header: \<open>None\<close>.\<close>

definition Append :: "WriteBatch \<Rightarrow> WriteBatch \<Rightarrow> WriteBatch option" where
  "Append dst src =
     (if length (rep src) < kHeader then None
      else map_option (\<lambda>d. d\<lparr>rep := rep d @ drop kHeader (rep src)\<rparr>) (add_count (Count src) dst))"

section \<open>The documented layout\<close>

datatype batch_op = OpPut slice slice | OpDelete slice

fun encode_op :: "batch_op \<Rightarrow> bytes" where
  "encode_op (OpPut k v) = 1 # PutLengthPrefixedSlice [] k @ PutLengthPrefixedSlice [] v"
| "encode_op (OpDelete k) = 0 # PutLengthPrefixedSlice [] k"

fun next_op :: "bytes \<Rightarrow> (batch_op \<times> bytes) option" where
  "next_op [] = None"
| "next_op (tag # p) =
     (if tag = 1 then
        (case NextSlice p of
           None \<Rightarrow> None
         | Some (k, p') \<Rightarrow>
             (case NextSlice p' of None \<Rightarrow> None | Some (v, p'') \<Rightarrow> Some (OpPut k v, p'')))
      else if tag = 0 then map_option (\<lambda>(k, p'). (OpDelete k, p')) (NextSlice p)
      else None)"

fun op_ok :: "batch_op \<Rightarrow> bool" where
  "op_ok (OpPut k v) \<longleftrightarrow> slice_size k < 2 ^ 32 \<and> slice_size v < 2 ^ 32"
| "op_ok (OpDelete k) \<longleftrightarrow> slice_size k < 2 ^ 32"

definition represents :: "WriteBatch \<Rightarrow> u64 \<Rightarrow> batch_op list \<Rightarrow> bool" where
  "represents b seq ops \<longleftrightarrow>
     length ops < 2 ^ 31 \<and>
     rep b = EncodeFixed64 seq @ EncodeFixed32 (of_nat (length ops)) @ concat (map encode_op ops)"

text \<open>Reading a batch back, record by record.\<close>

definition batch_ops :: "WriteBatch \<Rightarrow> batch_op list option" where
  "batch_ops b =
     (case Count b of
        None \<Rightarrow> None
      | Some n \<Rightarrow>
          (case decode_seq next_op (nat n) (drop kHeader (rep b)) of
             Some (ops, []) \<Rightarrow> Some ops
           | _ \<Rightarrow> None))"

lemma PutLengthPrefixedSlice_append: "PutLengthPrefixedSlice dst s = dst @ PutLengthPrefixedSlice [] s"
  by (simp add: PutLengthPrefixedSlice_def PutVarint32_def)

interpretation batch_record: codec encode_op next_op op_ok
proof
  fix x rest assume "op_ok x"
  then show "next_op (encode_op x @ rest) = Some (x, rest)"
    by (cases x) (simp_all add: lenprefixed.dec_enc)
qed

lemma sint_of_nat_u32: "n < 2 ^ 31 \<Longrightarrow> sint (of_nat n :: u32) = int n"
  by (simp add: signed_of_nat signed_take_bit_int_eq_self_iff)

lemma represents_length: "represents b seq ops \<Longrightarrow> 12 \<le> length (rep b)"
  by (simp add: represents_def)

lemma represents_Count: "represents b seq ops \<Longrightarrow> Count b = Some (int (length ops))"
  by (simp add: represents_def Count_def DecodeFixed32_EncodeFixed32 sint_of_nat_u32)

lemma represents_Sequence: "represents b seq ops \<Longrightarrow> Sequence b = Some seq"
  by (simp add: represents_def Sequence_def DecodeFixed64_EncodeFixed64)

lemma represents_data: "represents b seq ops \<Longrightarrow> drop kHeader (rep b) = concat (map encode_op ops)"
  by (simp add: represents_def kHeader_def)

lemma represents_batch_ops:
  assumes "represents b seq ops" "\<forall>x\<in>set ops. op_ok x"
  shows "batch_ops b = Some ops"
  using batch_record.decode_seq_concat [OF assms(2), of "[]"]
  by (simp add: batch_ops_def represents_Count [OF assms(1)] represents_data [OF assms(1)])

lemma add_count_represents:
  assumes "represents b seq ops" "length ops + n < 2 ^ 31"
  shows "add_count (Some (int n)) b =
    Some (b\<lparr>rep := EncodeFixed64 seq @ EncodeFixed32 (of_nat (length ops + n)) @ concat (map encode_op ops)\<rparr>)"
proof -
  have "int_add (int (length ops)) (int n) = Some (int (length ops + n))"
    using assms(2) by (simp add: int_add_def)
  moreover have "rep b = EncodeFixed64 seq @ EncodeFixed32 (of_nat (length ops)) @ concat (map encode_op ops)"
    using assms(1) by (simp add: represents_def)
  ultimately show ?thesis
    by (simp add: add_count_def represents_Count [OF assms(1)] SetCount_def)
qed

lemma WriteBatch_new_represents: "represents WriteBatch_new 0 []"
proof -
  have "replicate 12 (0 :: byte) = [0, 0, 0, 0, 0, 0, 0, 0, 0, 0, 0, 0]"
    by (simp add: eval_nat_numeral)
  then show ?thesis
    by (simp add: represents_def WriteBatch_new_def Clear_def kHeader_def EncodeFixed64_def EncodeFixed32_def)
qed

lemma Put_represents:
  assumes "represents b seq ops" "length ops + 1 < 2 ^ 31"
  shows "\<exists>b'. Put k v b = Some b' \<and> represents b' seq (ops @ [OpPut k v])"
  using add_count_represents [OF assms(1), of 1] assms(2)
  by (simp add: Put_def represents_def PutLengthPrefixedSlice_append [of "_ @ _"])

lemma Delete_represents:
  assumes "represents b seq ops" "length ops + 1 < 2 ^ 31"
  shows "\<exists>b'. Delete k b = Some b' \<and> represents b' seq (ops @ [OpDelete k])"
  using add_count_represents [OF assms(1), of 1] assms(2)
  by (simp add: Delete_def represents_def PutLengthPrefixedSlice_append [of "_ @ _"])

lemma Append_represents:
  assumes "represents dst seq ops" "represents src seq' ops'" "length ops + length ops' < 2 ^ 31"
  shows "\<exists>b'. Append dst src = Some b' \<and> represents b' seq (ops @ ops')"
  using add_count_represents [OF assms(1,3)] represents_length [OF assms(2)] assms(3)
  by (simp add: Append_def represents_Count [OF assms(2)] represents_data [OF assms(2), unfolded kHeader_def]
      represents_def kHeader_def)

lemma SetSequence_represents:
  assumes "represents b seq ops"
  shows "\<exists>b'. SetSequence seq' b = Some b' \<and> represents b' seq' ops"
  using assms by (simp add: SetSequence_def represents_def)

section \<open>Building a batch\<close>

text \<open>The calls a client makes on one batch, and the batches they produce.\<close>

fun apply_op :: "batch_op \<Rightarrow> WriteBatch \<Rightarrow> WriteBatch option" where
  "apply_op (OpPut k v) b = Put k v b"
| "apply_op (OpDelete k) b = Delete k b"

fun apply_ops :: "batch_op list \<Rightarrow> WriteBatch \<Rightarrow> WriteBatch option" where
  "apply_ops [] b = Some b"
| "apply_ops (x # xs) b = Option.bind (apply_op x b) (apply_ops xs)"

lemma apply_op_represents:
  assumes "represents b seq ops" "length ops + 1 < 2 ^ 31"
  shows "\<exists>b'. apply_op x b = Some b' \<and> represents b' seq (ops @ [x])"
  using Put_represents [OF assms] Delete_represents [OF assms] by (cases x) auto

lemma apply_ops_represents:
  assumes "represents b seq ops" "length ops + length xs < 2 ^ 31"
  shows "\<exists>b'. apply_ops xs b = Some b' \<and> represents b' seq (ops @ xs)"
  using assms
proof (induction xs arbitrary: b ops)
  case (Cons x xs)
  obtain b1 where b1: "apply_op x b = Some b1" "represents b1 seq (ops @ [x])"
    using apply_op_represents [OF Cons.prems(1), of x] Cons.prems(2) by auto
  then show ?case using Cons.IH [OF b1(2)] Cons.prems(2) by simp
qed simp

section \<open>Properties\<close>

text \<open>C14: The batch built by any sequence of fewer than 2^31 Put and Delete calls has the documented
  layout: its count is the number of calls, and reading its records returns exactly the calls, in
  order.\<close>

theorem write_batch_records_calls:
  assumes "length xs < 2 ^ 31" and "\<forall>x\<in>set xs. op_ok x"
  shows "\<exists>b. apply_ops xs WriteBatch_new = Some b \<and> represents b 0 xs \<and>
           Count b = Some (int (length xs)) \<and> batch_ops b = Some xs"
  using apply_ops_represents [OF WriteBatch_new_represents, of xs] assms
  by (auto simp: represents_Count represents_batch_ops)

theorem write_batch_records_calls_witness:
  "\<exists>b. apply_ops [OpPut (slice_of_lit ''k0'') (slice_of_lit ''hello''), OpDelete (slice_of_lit ''k0'')]
         WriteBatch_new = Some b \<and> Count b = Some 2"
proof -
  let ?xs = "[OpPut (slice_of_lit ''k0'') (slice_of_lit ''hello''), OpDelete (slice_of_lit ''k0'')]"
  have "length ?xs < 2 ^ 31" "\<forall>x\<in>set ?xs. op_ok x" by (simp_all add: slice_of_lit_def slice_size_def)
  from write_batch_records_calls [OF this] show ?thesis by auto
qed

text \<open>Appending a batch to another concatenates their operations, adds their counts and keeps the
  destination's sequence number.\<close>

theorem append_concatenates:
  assumes "represents dst seq ops" and "represents src seq' ops'"
    and "length ops + length ops' < 2 ^ 31"
  shows "\<exists>b. Append dst src = Some b \<and> represents b seq (ops @ ops') \<and>
           Count b = Some (int (length ops) + int (length ops')) \<and> Sequence b = Some seq"
  using Append_represents [OF assms] by (auto simp: represents_Count represents_Sequence)

theorem append_concatenates_witness:
  "\<exists>b. Append WriteBatch_new WriteBatch_new = Some b \<and> Count b = Some 0"
  using append_concatenates [OF WriteBatch_new_represents WriteBatch_new_represents] by auto

end
