(* ===== verification/Group_Commit.thy ===== *)
theory Group_Commit
  imports Write_Batch Statuses
begin

text \<open>
  \<^verbatim>\<open>example-ping-pong-batch/main.cc\<close> (\<^verbatim>\<open>DBImpl::Write\<close>, \<^verbatim>\<open>BuildBatchGroup\<close>) over the mutex and
  condition variables of \<^verbatim>\<open>common/mutexlock.h\<close> and \<^verbatim>\<open>common/port_stdcxx.h\<close>: group commit by the
  writer at the head of a queue. A step relation interleaves the writers; each rule is the code
  between two synchronisation points. Writers are numbered, each calls \<^verbatim>\<open>Write\<close> once with a batch of
  its own.

  Two fields are ghost state, which no guard reads: \<open>wal\<close> collects the batches the leaders write
  (the source only prints and sleeps there), \<open>popped\<close> the writers taken off the queue.
\<close>

section \<open>State\<close>

text \<open>
  Where a writer is: not called yet; at the test of the \<^verbatim>\<open>while\<close> loop with the mutex held; inside
  \<^verbatim>\<open>CondVar::Wait\<close>; writing with the mutex released, \<^verbatim>\<open>last_writer\<close> remembered; before
  \<^verbatim>\<open>mu_.Lock()\<close> after the write; returned.
\<close>

datatype pc = Idle | AtLoop | Blocked | Writing nat | Relock nat | Returned status

record db =
  mu :: "nat option"
  writers :: "nat list"
  wpc :: "nat \<Rightarrow> pc"
  w_batch :: "nat \<Rightarrow> WriteBatch"
  w_done :: "nat \<Rightarrow> bool"
  w_status :: "nat \<Rightarrow> status"
  signalled :: "nat \<Rightarrow> bool"
  wal :: "WriteBatch list"
  popped :: "nat list"

section \<open>Mutex and condition variable\<close>

definition Lock :: "nat \<Rightarrow> db \<Rightarrow> db" where
  "Lock t d = d\<lparr>mu := Some t\<rparr>"

definition Unlock :: "db \<Rightarrow> db" where
  "Unlock d = d\<lparr>mu := None\<rparr>"

text \<open>\<^verbatim>\<open>Wait\<close> releases the mutex and blocks in one action; a signal reaches a blocked waiter only.\<close>

definition Wait :: "nat \<Rightarrow> db \<Rightarrow> db" where
  "Wait t d = (Unlock d)\<lparr>wpc := (wpc d)(t := Blocked), signalled := (signalled d)(t := False)\<rparr>"

definition Signal :: "nat \<Rightarrow> db \<Rightarrow> db" where
  "Signal t d = (if wpc d t = Blocked then d\<lparr>signalled := (signalled d)(t := True)\<rparr> else d)"

section \<open>BuildBatchGroup\<close>

definition kMaxBatchSize :: int where
  "kMaxBatchSize = 2"

fun build_loop :: "(nat \<Rightarrow> WriteBatch) \<Rightarrow> WriteBatch \<Rightarrow> nat \<Rightarrow> nat list \<Rightarrow> (WriteBatch \<times> nat) option" where
  "build_loop bs result last_writer [] = Some (result, last_writer)"
| "build_loop bs result last_writer (w # iter) =
     (case Count result of
        None \<Rightarrow> None
      | Some c \<Rightarrow>
          if c \<ge> kMaxBatchSize then Some (result, last_writer)
          else
            (case Append result (bs w) of
               None \<Rightarrow> None
             | Some result' \<Rightarrow> build_loop bs result' w iter))"

text \<open>
  \<^verbatim>\<open>result\<close> points to the first writer's batch, so the appends change that batch. The result is the
  state and \<^verbatim>\<open>last_writer\<close>; an empty queue is the failed assertion.
\<close>

definition BuildBatchGroup :: "db \<Rightarrow> (db \<times> nat) option" where
  "BuildBatchGroup d =
     (case writers d of
        [] \<Rightarrow> None
      | first # rest \<Rightarrow>
          map_option (\<lambda>(result, last_writer).
              (d\<lparr>w_batch := (w_batch d)(first := result)\<rparr>, last_writer))
            (build_loop (w_batch d) (w_batch d first) first rest))"

section \<open>Write\<close>

fun notify_loop :: "nat \<Rightarrow> nat \<Rightarrow> status \<Rightarrow> nat list \<Rightarrow> db \<Rightarrow> db option" where
  "notify_loop w last_writer status [] d = None"
| "notify_loop w last_writer status (ready # rest) d =
     (let d1 = d\<lparr>writers := rest, popped := popped d @ [ready]\<rparr>;
          d2 = (if ready \<noteq> w
                then Signal ready (d1\<lparr>w_done := (w_done d1)(ready := True),
                                      w_status := (w_status d1)(ready := status)\<rparr>)
                else d1)
      in if ready = last_writer then Some d2 else notify_loop w last_writer status rest d2)"

definition signal_front :: "db \<Rightarrow> db" where
  "signal_front d = (case writers d of [] \<Rightarrow> d | front # _ \<Rightarrow> Signal front d)"

inductive db_step :: "db \<Rightarrow> db \<Rightarrow> bool" where
  enter:
    "wpc d t = Idle \<Longrightarrow> mu d = None \<Longrightarrow>
     db_step d ((Lock t d)\<lparr>writers := writers d @ [t], wpc := (wpc d)(t := AtLoop),
                            w_done := (w_done d)(t := False), w_status := (w_status d)(t := OK)\<rparr>)"
| wait:
    "wpc d t = AtLoop \<Longrightarrow> mu d = Some t \<Longrightarrow> \<not> w_done d t \<Longrightarrow> hd (writers d) \<noteq> t \<Longrightarrow>
     db_step d (Wait t d)"
| wake:
    "wpc d t = Blocked \<Longrightarrow> signalled d t \<Longrightarrow> mu d = None \<Longrightarrow>
     db_step d ((Lock t d)\<lparr>wpc := (wpc d)(t := AtLoop)\<rparr>)"
| spurious_wake:
    "wpc d t = Blocked \<Longrightarrow> \<not> signalled d t \<Longrightarrow> mu d = None \<Longrightarrow>
     db_step d ((Lock t d)\<lparr>wpc := (wpc d)(t := AtLoop)\<rparr>)"
| return_done:
    "wpc d t = AtLoop \<Longrightarrow> mu d = Some t \<Longrightarrow> w_done d t \<Longrightarrow>
     db_step d ((Unlock d)\<lparr>wpc := (wpc d)(t := Returned (w_status d t))\<rparr>)"
| lead:
    "wpc d t = AtLoop \<Longrightarrow> mu d = Some t \<Longrightarrow> \<not> w_done d t \<Longrightarrow> writers d \<noteq> [] \<Longrightarrow> hd (writers d) = t \<Longrightarrow>
     BuildBatchGroup d = Some (d', last_writer) \<Longrightarrow>
     db_step d ((Unlock d')\<lparr>wpc := (wpc d')(t := Writing last_writer)\<rparr>)"
| write_io:
    "wpc d t = Writing last_writer \<Longrightarrow>
     db_step d (d\<lparr>wal := wal d @ [w_batch d t], wpc := (wpc d)(t := Relock last_writer)\<rparr>)"
| notify:
    "wpc d t = Relock last_writer \<Longrightarrow> mu d = None \<Longrightarrow>
     notify_loop t last_writer OK (writers d) (Lock t d) = Some d' \<Longrightarrow>
     db_step d ((Unlock (signal_front d'))\<lparr>wpc := (wpc d')(t := Returned OK)\<rparr>)"

text \<open>The start: no call made yet; writer \<open>t\<close>'s batch holds the operations \<open>ops t\<close>.\<close>

definition db_init :: "(nat \<Rightarrow> batch_op list) \<Rightarrow> db \<Rightarrow> bool" where
  "db_init ops d \<longleftrightarrow>
     mu d = None \<and> writers d = [] \<and> wal d = [] \<and> popped d = [] \<and>
     (\<forall>t. wpc d t = Idle \<and> (\<exists>seq. represents (w_batch d t) seq (ops t)))"

definition arrivals :: "db \<Rightarrow> nat list" where
  "arrivals d = popped d @ writers d"

section \<open>The group\<close>

lemma build_loop_represents:
  assumes "represents result seq xs"
    and "\<And>w. w \<in> set ws \<Longrightarrow> \<exists>seq. represents (bs w) seq (ops w)"
    and "\<And>w. w \<in> set ws \<Longrightarrow> length (ops w) < 2 ^ 30"
  shows "\<exists>k r. k \<le> length ws \<and> build_loop bs result lw ws = Some (r, last (lw # take k ws)) \<and>
           represents r seq (xs @ concat (map ops (take k ws))) \<and>
           (k < length ws \<longrightarrow> 2 \<le> length (xs @ concat (map ops (take k ws)))) \<and>
           (\<forall>j<k. length (xs @ concat (map ops (take j ws))) < 2)"
  using assms
proof (induction ws arbitrary: result xs lw)
  case Nil
  then show ?case by auto
next
  case (Cons w ws)
  note cnt = represents_Count [OF Cons.prems(1)]
  show ?case
  proof (cases "2 \<le> length xs")
    case True
    then show ?thesis using Cons.prems(1) cnt by (intro exI [of _ 0]) (auto simp: kMaxBatchSize_def)
  next
    case False
    obtain sq where sq: "represents (bs w) sq (ops w)" using Cons.prems(2) by auto
    have "length xs + length (ops w) < 2 ^ 31" using False Cons.prems(3) [of w] by simp
    then obtain r where r: "Append result (bs w) = Some r" "represents r seq (xs @ ops w)"
      using Append_represents [OF Cons.prems(1) sq] by blast
    have "\<exists>k r'. k \<le> length ws \<and> build_loop bs r w ws = Some (r', last (w # take k ws)) \<and>
        represents r' seq ((xs @ ops w) @ concat (map ops (take k ws))) \<and>
        (k < length ws \<longrightarrow> 2 \<le> length ((xs @ ops w) @ concat (map ops (take k ws)))) \<and>
        (\<forall>j<k. length ((xs @ ops w) @ concat (map ops (take j ws))) < 2)"
      by (rule Cons.IH [OF r(2)]) (use Cons.prems(2,3) in auto)
    then obtain k r' where IH: "k \<le> length ws" "build_loop bs r w ws = Some (r', last (w # take k ws))"
        "represents r' seq ((xs @ ops w) @ concat (map ops (take k ws)))"
        "k < length ws \<longrightarrow> 2 \<le> length ((xs @ ops w) @ concat (map ops (take k ws)))"
        "\<forall>j<k. length ((xs @ ops w) @ concat (map ops (take j ws))) < 2"
      by blast
    have "length (xs @ concat (map ops (take j (w # ws)))) < 2" if "j < Suc k" for j
      using that False IH(5) by (cases j) auto
    then show ?thesis
      using IH cnt False r by (intro exI [of _ "Suc k"] exI [of _ r']) (auto simp: kMaxBatchSize_def)
  qed
qed

definition group :: "nat \<Rightarrow> nat list \<Rightarrow> nat list" where
  "group l ws = takeWhile (\<lambda>w. w \<noteq> l) ws @ [l]"

lemma group_prefix: "l \<in> set ws \<Longrightarrow> \<exists>rest. ws = group l ws @ rest"
proof -
  assume l: "l \<in> set ws"
  let ?d = "dropWhile (\<lambda>w. w \<noteq> l) ws"
  have "?d \<noteq> []" using l by (simp add: dropWhile_eq_Nil_conv)
  then have "?d = l # tl ?d" using hd_dropWhile [of "\<lambda>w. w \<noteq> l" ws] by (cases ?d) auto
  then have "ws = group l ws @ tl ?d"
    by (metis append.assoc append_Cons append_Nil group_def takeWhile_dropWhile_id)
  then show ?thesis by blast
qed

lemma group_append: "l \<in> set ws \<Longrightarrow> group l (ws @ us) = group l ws"
  by (auto simp: group_def takeWhile_append)

lemma group_last_take:
  assumes "distinct (t # ws)" "k \<le> length ws"
  shows "group (last (t # take k ws)) (t # ws) = t # take k ws"
proof -
  let ?g = "t # take k ws"
  have split: "t # ws = butlast ?g @ last ?g # drop k ws"
    by (metis append_butlast_last_id append_take_drop_id append.assoc append_Cons append_Nil list.distinct(1))
  then have "last ?g \<notin> set (butlast ?g)"
    using assms(1) by (metis disjoint_iff distinct_append list.set_intros(1))
  then have "takeWhile (\<lambda>w. w \<noteq> last ?g) (t # ws) = butlast ?g"
    unfolding split by (subst takeWhile_append2) auto
  then show ?thesis by (simp only: group_def append_butlast_last_id list.distinct not_False_eq_True)
qed

lemma notify_loop_eq:
  assumes "distinct g" "g \<noteq> []" "last g = l"
  shows "notify_loop t l st (g @ ws) d =
    Some (d\<lparr>writers := ws, popped := popped d @ g,
            w_done := (\<lambda>r. r \<in> set g \<and> r \<noteq> t \<or> w_done d r),
            w_status := (\<lambda>r. if r \<in> set g \<and> r \<noteq> t then st else w_status d r),
            signalled := (\<lambda>r. r \<in> set g \<and> r \<noteq> t \<and> wpc d r = Blocked \<or> signalled d r)\<rparr>)"
  using assms
proof (induction g arbitrary: d)
  case (Cons r g)
  define d2 where "d2 = (let d1 = d\<lparr>writers := g @ ws, popped := popped d @ [r]\<rparr>
     in if r \<noteq> t then Signal r (d1\<lparr>w_done := (w_done d1)(r := True), w_status := (w_status d1)(r := st)\<rparr>)
        else d1)"
  have step: "notify_loop t l st ((r # g) @ ws) d =
      (if r = l then Some d2 else notify_loop t l st (g @ ws) d2)"
    by (simp add: d2_def Let_def)
  have d2: "d2 = d\<lparr>writers := g @ ws, popped := popped d @ [r],
            w_done := (\<lambda>x. x = r \<and> x \<noteq> t \<or> w_done d x),
            w_status := (\<lambda>x. if x = r \<and> x \<noteq> t then st else w_status d x),
            signalled := (\<lambda>x. x = r \<and> x \<noteq> t \<and> wpc d x = Blocked \<or> signalled d x)\<rparr>"
    by (auto simp: d2_def Let_def Signal_def fun_eq_iff intro!: db.equality)
  show ?case
  proof (cases "g = []")
    case True
    then show ?thesis unfolding step using Cons.prems by (simp add: d2 cong: conj_cong)
  next
    case False
    then have "r \<noteq> l" using Cons.prems last_in_set [of g] by auto
    then show ?thesis
      unfolding step using Cons.IH [of d2] Cons.prems False
      by (auto simp: d2 fun_eq_iff intro!: db.equality)
  qed
qed simp

section \<open>The invariant\<close>

definition active :: "db \<Rightarrow> nat \<Rightarrow> nat \<Rightarrow> bool" where
  "active d t l \<longleftrightarrow> wpc d t = Writing l \<or> wpc d t = Relock l"

text \<open>The writers whose operations are in the log: those popped and, between the write and the
  notification, the leader's group.\<close>

definition committed :: "db \<Rightarrow> nat list" where
  "committed d = popped d @
     (case writers d of
        [] \<Rightarrow> []
      | f # _ \<Rightarrow> (case wpc d f of Relock l \<Rightarrow> group l (writers d) | _ \<Rightarrow> []))"

definition logged :: "db \<Rightarrow> batch_op list \<Rightarrow> bool" where
  "logged d xs \<longleftrightarrow>
     (\<exists>opss. list_all2 (\<lambda>b ys. \<exists>seq. represents b seq ys) (wal d) opss \<and> concat opss = xs)"

definition db_inv :: "(nat \<Rightarrow> batch_op list) \<Rightarrow> db \<Rightarrow> bool" where
  "db_inv ops d \<longleftrightarrow>
     distinct (arrivals d) \<and>
     (\<forall>t. t \<notin> set (arrivals d) \<longleftrightarrow> wpc d t = Idle) \<and>
     (\<forall>t\<in>set (writers d). \<not> w_done d t \<and> (wpc d t = AtLoop \<or> wpc d t = Blocked \<or> (\<exists>l. active d t l))) \<and>
     (\<forall>t\<in>set (popped d). w_done d t \<and> w_status d t = OK \<and> (wpc d t = AtLoop \<or> wpc d t = Blocked) \<or>
                          wpc d t = Returned OK) \<and>
     (\<forall>t. wpc d t = AtLoop \<longleftrightarrow> mu d = Some t) \<and>
     (\<forall>t l. active d t l \<longrightarrow> (\<exists>rest seq. writers d = t # rest \<and> l \<in> set (writers d) \<and>
              represents (w_batch d t) seq (concat (map ops (group l (writers d)))))) \<and>
     (\<forall>t. t \<notin> set (popped d) \<longrightarrow> (\<forall>l. \<not> active d t l) \<longrightarrow> (\<exists>seq. represents (w_batch d t) seq (ops t))) \<and>
     logged d (concat (map ops (committed d))) \<and>
     (\<forall>t. wpc d t = Blocked \<longrightarrow> \<not> signalled d t \<longrightarrow> t \<in> set (writers d) \<and> hd (writers d) \<noteq> t)"

lemma db_invI:
  assumes "distinct (arrivals d)"
    and "\<And>t. t \<notin> set (arrivals d) \<longleftrightarrow> wpc d t = Idle"
    and "\<And>t. t \<in> set (writers d) \<Longrightarrow>
           \<not> w_done d t \<and> (wpc d t = AtLoop \<or> wpc d t = Blocked \<or> (\<exists>l. active d t l))"
    and "\<And>t. t \<in> set (popped d) \<Longrightarrow>
           w_done d t \<and> w_status d t = OK \<and> (wpc d t = AtLoop \<or> wpc d t = Blocked) \<or> wpc d t = Returned OK"
    and "\<And>t. wpc d t = AtLoop \<longleftrightarrow> mu d = Some t"
    and "\<And>t l. active d t l \<Longrightarrow> \<exists>rest seq. writers d = t # rest \<and> l \<in> set (writers d) \<and>
              represents (w_batch d t) seq (concat (map ops (group l (writers d))))"
    and "\<And>t. t \<notin> set (popped d) \<Longrightarrow> (\<And>l. \<not> active d t l) \<Longrightarrow> \<exists>seq. represents (w_batch d t) seq (ops t)"
    and "logged d (concat (map ops (committed d)))"
    and "\<And>t. wpc d t = Blocked \<Longrightarrow> \<not> signalled d t \<Longrightarrow> t \<in> set (writers d) \<and> hd (writers d) \<noteq> t"
  shows "db_inv ops d"
  unfolding db_inv_def using assms by simp

lemma db_invD:
  assumes "db_inv ops d"
  shows inv_distinct: "distinct (arrivals d)"
    and inv_idle: "t \<notin> set (arrivals d) \<longleftrightarrow> wpc d t = Idle"
    and inv_queued: "t \<in> set (writers d) \<Longrightarrow>
           \<not> w_done d t \<and> (wpc d t = AtLoop \<or> wpc d t = Blocked \<or> (\<exists>l. active d t l))"
    and inv_popped: "t \<in> set (popped d) \<Longrightarrow>
           w_done d t \<and> w_status d t = OK \<and> (wpc d t = AtLoop \<or> wpc d t = Blocked) \<or> wpc d t = Returned OK"
    and inv_mu: "wpc d t = AtLoop \<longleftrightarrow> mu d = Some t"
    and inv_active: "active d t l \<Longrightarrow> \<exists>rest seq. writers d = t # rest \<and> l \<in> set (writers d) \<and>
              represents (w_batch d t) seq (concat (map ops (group l (writers d))))"
    and inv_batch: "t \<notin> set (popped d) \<Longrightarrow> (\<And>l. \<not> active d t l) \<Longrightarrow> \<exists>seq. represents (w_batch d t) seq (ops t)"
    and inv_logged: "logged d (concat (map ops (committed d)))"
    and inv_wake: "wpc d t = Blocked \<Longrightarrow> \<not> signalled d t \<Longrightarrow> t \<in> set (writers d) \<and> hd (writers d) \<noteq> t"
  using assms unfolding db_inv_def by blast+

lemma db_init_inv: "db_init ops d \<Longrightarrow> db_inv ops d"
  by (rule db_invI) (auto simp: db_init_def arrivals_def active_def committed_def logged_def)

section \<open>Preservation\<close>

lemmas lock_defs = Lock_def Unlock_def Wait_def arrivals_def

lemma active_pc: "active d t l \<Longrightarrow> wpc d t \<noteq> AtLoop \<and> wpc d t \<noteq> Blocked \<and> wpc d t \<noteq> Idle"
  by (auto simp: active_def)

text \<open>The steps that change no queue, batch or log: blocking, waking up, returning.\<close>

lemma control_step_inv:
  assumes inv: "db_inv ops d"
    and same: "writers d' = writers d" "popped d' = popped d" "w_batch d' = w_batch d" "wal d' = wal d"
      "w_done d' = w_done d" "w_status d' = w_status d"
    and pc: "wpc d' = (wpc d)(t := p)"
    and old: "wpc d t = AtLoop \<or> wpc d t = Blocked"
    and new: "p = AtLoop \<or> p = Blocked \<or> p = Returned OK \<and> t \<in> set (popped d)"
    and mu: "\<And>x. wpc d' x = AtLoop \<longleftrightarrow> mu d' = Some x"
    and wake: "\<And>x. wpc d' x = Blocked \<Longrightarrow> \<not> signalled d' x \<Longrightarrow> x \<in> set (writers d) \<and> hd (writers d) \<noteq> x"
  shows "db_inv ops d'"
proof (rule db_invI)
  have act: "active d' x l \<longleftrightarrow> active d x l" for x l
    using old new by (auto simp: active_def pc)
  have disj: "x \<in> set (popped d) \<Longrightarrow> x \<notin> set (writers d)" for x
    using inv_distinct [OF inv] by (auto simp: arrivals_def)
  show "distinct (arrivals d')" using inv_distinct [OF inv] by (simp add: arrivals_def same)
  show "x \<notin> set (arrivals d') \<longleftrightarrow> wpc d' x = Idle" for x
    using inv_idle [OF inv, of x] old new by (auto simp: arrivals_def same pc)
  show "\<not> w_done d' x \<and> (wpc d' x = AtLoop \<or> wpc d' x = Blocked \<or> (\<exists>l. active d' x l))"
    if "x \<in> set (writers d')" for x
    using inv_queued [OF inv, of x] that new disj [of t] unfolding act
    by (cases "x = t") (auto simp: same pc)
  show "w_done d' x \<and> w_status d' x = OK \<and> (wpc d' x = AtLoop \<or> wpc d' x = Blocked) \<or> wpc d' x = Returned OK"
    if "x \<in> set (popped d')" for x
    using inv_popped [OF inv, of x] that old new by (auto simp: same pc)
  show "\<exists>rest seq. writers d' = x # rest \<and> l \<in> set (writers d') \<and>
          represents (w_batch d' x) seq (concat (map ops (group l (writers d'))))"
    if "active d' x l" for x l
    using inv_active [OF inv, of x l] that by (simp add: act same)
  show "\<exists>seq. represents (w_batch d' x) seq (ops x)"
    if "x \<notin> set (popped d')" "\<And>l. \<not> active d' x l" for x
    using inv_batch [OF inv, of x] that by (simp add: act same)
  have "committed d' = committed d"
    using old new by (auto simp: committed_def same pc split: list.splits pc.splits)
  then show "logged d' (concat (map ops (committed d')))"
    using inv_logged [OF inv] by (simp add: logged_def same)
qed (use mu wake in \<open>simp_all add: same\<close>)

lemma enter_inv:
  assumes inv: "db_inv ops d" and t: "wpc d t = Idle" and mu: "mu d = None"
  shows "db_inv ops ((Lock t d)\<lparr>writers := writers d @ [t], wpc := (wpc d)(t := AtLoop),
                            w_done := (w_done d)(t := False), w_status := (w_status d)(t := OK)\<rparr>)"
    (is "db_inv ops ?d")
proof (rule db_invI)
  have new: "t \<notin> set (popped d)" "t \<notin> set (writers d)"
    using inv_idle [OF inv, of t] t by (auto simp: arrivals_def)
  have act: "active ?d x l \<longleftrightarrow> active d x l" for x l using t by (auto simp: active_def)
  show "distinct (arrivals ?d)" using inv_distinct [OF inv] new by (simp add: lock_defs)
  show "x \<notin> set (arrivals ?d) \<longleftrightarrow> wpc ?d x = Idle" for x
    using inv_idle [OF inv, of x] by (auto simp: lock_defs)
  show "\<not> w_done ?d x \<and> (wpc ?d x = AtLoop \<or> wpc ?d x = Blocked \<or> (\<exists>l. active ?d x l))"
    if "x \<in> set (writers ?d)" for x
    using inv_queued [OF inv, of x] that unfolding act by (auto simp: Lock_def)
  show "w_done ?d x \<and> w_status ?d x = OK \<and> (wpc ?d x = AtLoop \<or> wpc ?d x = Blocked) \<or> wpc ?d x = Returned OK"
    if "x \<in> set (popped ?d)" for x
    using inv_popped [OF inv, of x] that new by (auto simp: Lock_def)
  show "wpc ?d x = AtLoop \<longleftrightarrow> mu ?d = Some x" for x
    using inv_mu [OF inv, of x] mu by (auto simp: Lock_def)
  show "\<exists>rest seq. writers ?d = x # rest \<and> l \<in> set (writers ?d) \<and>
          represents (w_batch ?d x) seq (concat (map ops (group l (writers ?d))))"
    if "active ?d x l" for x l
    using inv_active [OF inv, of x l] that [unfolded act] by (auto simp: Lock_def group_append)
  show "\<exists>seq. represents (w_batch ?d x) seq (ops x)"
    if "x \<notin> set (popped ?d)" "\<And>l. \<not> active ?d x l" for x
    using inv_batch [OF inv, of x] that unfolding act by (simp add: Lock_def)
  have "committed ?d = committed d"
  proof (cases "writers d")
    case (Cons f ws)
    then have "f \<noteq> t" using new by auto
    moreover have "l \<in> set (writers d)" if "wpc d f = Relock l" for l
      using inv_active [OF inv, of f l] that by (auto simp: active_def)
    ultimately show ?thesis
      using Cons group_append [of _ "writers d" "[t]"] by (auto simp: committed_def Lock_def split: pc.splits)
  qed (simp add: committed_def Lock_def)
  then show "logged ?d (concat (map ops (committed ?d)))"
    using inv_logged [OF inv] by (simp add: logged_def Lock_def)
  show "x \<in> set (writers ?d) \<and> hd (writers ?d) \<noteq> x" if "wpc ?d x = Blocked" "\<not> signalled ?d x" for x
    using inv_wake [OF inv, of x] that by (cases "writers d") (auto simp: Lock_def split: if_splits)
qed

text \<open>The leader builds its group: the batch of the head of the queue becomes the group's.\<close>

lemma lead_inv:
  assumes inv: "db_inv ops d" and small: "\<And>t. length (ops t) < 2 ^ 30"
    and t: "wpc d t = AtLoop" "mu d = Some t" "writers d \<noteq> []" "hd (writers d) = t"
    and bg: "BuildBatchGroup d = Some (d1, lw)"
  shows "db_inv ops ((Unlock d1)\<lparr>wpc := (wpc d1)(t := Writing lw)\<rparr>)" (is "db_inv ops ?d")
proof (rule db_invI)
  obtain ws where ws: "writers d = t # ws" using t(3,4) by (cases "writers d") auto
  have dist: "distinct (t # ws)" "t \<notin> set (popped d)" "set (t # ws) \<inter> set (popped d) = {}"
    using inv_distinct [OF inv] by (auto simp: arrivals_def ws)
  have inactive: "\<not> active d x l" for x l
    using inv_active [OF inv, of x l] t(1) active_pc [of d x l] by (auto simp: ws)
  have rep: "\<exists>seq. represents (w_batch d x) seq (ops x)" if "x \<in> set (t # ws)" for x
    using inv_batch [OF inv, of x] inactive that dist(3) by blast
  then obtain seq where "represents (w_batch d t) seq (ops t)" by auto
  from build_loop_represents [OF this, where bs = "w_batch d" and ws = ws and ops = ops and lw = t]
  obtain k r where k: "k \<le> length ws" "build_loop (w_batch d) (w_batch d t) t ws = Some (r, last (t # take k ws))"
      "represents r seq (ops t @ concat (map ops (take k ws)))"
    using rep small by auto
  have d1: "d1 = d\<lparr>w_batch := (w_batch d)(t := r)\<rparr>" "lw = last (t # take k ws)"
    using bg k(2) by (auto simp: BuildBatchGroup_def ws)
  have grp: "group lw (t # ws) = t # take k ws"
    unfolding d1 by (rule group_last_take [OF dist(1) k(1)])
  have lw: "lw \<in> set (t # ws)"
    unfolding d1 by (metis in_set_takeD last_ConsL last_ConsR last_in_set list.set_intros)
  have act: "active ?d x l \<longleftrightarrow> x = t \<and> l = lw" for x l
    using inactive [of x l] by (auto simp: active_def Unlock_def d1(1))
  show "distinct (arrivals ?d)" using inv_distinct [OF inv] by (simp add: lock_defs d1(1))
  show "x \<notin> set (arrivals ?d) \<longleftrightarrow> wpc ?d x = Idle" for x
    using inv_idle [OF inv, of x] by (auto simp: lock_defs d1(1) ws)
  show "\<not> w_done ?d x \<and> (wpc ?d x = AtLoop \<or> wpc ?d x = Blocked \<or> (\<exists>l. active ?d x l))"
    if "x \<in> set (writers ?d)" for x
    using inv_queued [OF inv, of x] inactive that unfolding act by (auto simp: Unlock_def d1(1))
  show "w_done ?d x \<and> w_status ?d x = OK \<and> (wpc ?d x = AtLoop \<or> wpc ?d x = Blocked) \<or> wpc ?d x = Returned OK"
    if "x \<in> set (popped ?d)" for x
    using inv_popped [OF inv, of x] that dist(2) by (auto simp: Unlock_def d1(1))
  show "wpc ?d x = AtLoop \<longleftrightarrow> mu ?d = Some x" for x
    using inv_mu [OF inv, of x] t(2) by (auto simp: Unlock_def d1(1))
  show "\<exists>rest seq. writers ?d = x # rest \<and> l \<in> set (writers ?d) \<and>
          represents (w_batch ?d x) seq (concat (map ops (group l (writers ?d))))"
    if "active ?d x l" for x l
    using that lw k(3) unfolding act by (auto simp: Unlock_def d1(1) ws grp)
  show "\<exists>seq. represents (w_batch ?d x) seq (ops x)"
    if "x \<notin> set (popped ?d)" "\<And>l. \<not> active ?d x l" for x
    using inv_batch [OF inv, of x] inactive that unfolding act by (auto simp: Unlock_def d1(1))
  have "committed ?d = committed d"
    using t(1) by (simp add: committed_def Unlock_def d1(1) ws)
  then show "logged ?d (concat (map ops (committed ?d)))"
    using inv_logged [OF inv] by (simp add: logged_def Unlock_def d1(1))
  show "x \<in> set (writers ?d) \<and> hd (writers ?d) \<noteq> x" if "wpc ?d x = Blocked" "\<not> signalled ?d x" for x
    using inv_wake [OF inv, of x] that by (auto simp: Unlock_def d1(1) split: if_splits)
qed

lemma write_io_inv:
  assumes inv: "db_inv ops d" and t: "wpc d t = Writing lw"
  shows "db_inv ops (d\<lparr>wal := wal d @ [w_batch d t], wpc := (wpc d)(t := Relock lw)\<rparr>)" (is "db_inv ops ?d")
proof (rule db_invI)
  have t_act: "active d t lw" using t by (simp add: active_def)
  obtain ws seq where ws: "writers d = t # ws" "lw \<in> set (t # ws)"
      "represents (w_batch d t) seq (concat (map ops (group lw (t # ws))))"
    using inv_active [OF inv t_act] by auto
  have act: "active ?d x l \<longleftrightarrow> active d x l" for x l using t by (auto simp: active_def)
  have dist: "t \<notin> set (popped d)" using inv_distinct [OF inv] by (auto simp: arrivals_def ws)
  show "distinct (arrivals ?d)" using inv_distinct [OF inv] by (simp add: lock_defs)
  show "x \<notin> set (arrivals ?d) \<longleftrightarrow> wpc ?d x = Idle" for x
    using inv_idle [OF inv, of x] t by (auto simp: lock_defs)
  show "\<not> w_done ?d x \<and> (wpc ?d x = AtLoop \<or> wpc ?d x = Blocked \<or> (\<exists>l. active ?d x l))"
    if "x \<in> set (writers ?d)" for x
    using inv_queued [OF inv, of x] that t t_act unfolding act by auto
  show "w_done ?d x \<and> w_status ?d x = OK \<and> (wpc ?d x = AtLoop \<or> wpc ?d x = Blocked) \<or> wpc ?d x = Returned OK"
    if "x \<in> set (popped ?d)" for x
    using inv_popped [OF inv, of x] that dist by auto
  show "wpc ?d x = AtLoop \<longleftrightarrow> mu ?d = Some x" for x
    using inv_mu [OF inv, of x] t by auto
  show "\<exists>rest seq. writers ?d = x # rest \<and> l \<in> set (writers ?d) \<and>
          represents (w_batch ?d x) seq (concat (map ops (group l (writers ?d))))"
    if "active ?d x l" for x l
    using inv_active [OF inv, of x l] that unfolding act by simp
  show "\<exists>seq. represents (w_batch ?d x) seq (ops x)"
    if "x \<notin> set (popped ?d)" "\<And>l. \<not> active ?d x l" for x
    using inv_batch [OF inv, of x] that unfolding act by simp
  have "committed ?d = committed d @ group lw (writers d)" using t by (simp add: committed_def ws)
  moreover obtain opss where "list_all2 (\<lambda>b ys. \<exists>seq. represents b seq ys) (wal d) opss"
      "concat opss = concat (map ops (committed d))"
    using inv_logged [OF inv] by (auto simp: logged_def)
  ultimately show "logged ?d (concat (map ops (committed ?d)))"
    using ws(3) unfolding logged_def
    by (intro exI [of _ "opss @ [concat (map ops (group lw (writers d)))]"])
      (auto simp: ws(1) intro!: list_all2_appendI)
  show "x \<in> set (writers ?d) \<and> hd (writers ?d) \<noteq> x" if "wpc ?d x = Blocked" "\<not> signalled ?d x" for x
    using inv_wake [OF inv, of x] that by (auto split: if_splits)
qed

lemma notify_result:
  assumes inv: "db_inv ops d" and t: "wpc d t = Relock lw" and g: "g = group lw (writers d)"
  shows "\<exists>rest. writers d = g @ rest \<and> hd g = t \<and>
    notify_loop t lw st (writers d) (Lock t d) =
      Some ((Lock t d)\<lparr>writers := rest, popped := popped d @ g,
            w_done := (\<lambda>r. r \<in> set g \<and> r \<noteq> t \<or> w_done d r),
            w_status := (\<lambda>r. if r \<in> set g \<and> r \<noteq> t then st else w_status d r),
            signalled := (\<lambda>r. r \<in> set g \<and> r \<noteq> t \<and> wpc d r = Blocked \<or> signalled d r)\<rparr>)"
proof -
  obtain ws where ws: "writers d = t # ws" "lw \<in> set (writers d)"
    using inv_active [OF inv, of t lw] t by (auto simp: active_def)
  obtain rest where rest: "writers d = g @ rest" using group_prefix [OF ws(2)] g by blast
  have ne: "g \<noteq> []" "last g = lw" by (simp_all add: g group_def)
  then have hd: "hd g = t" using rest ws(1) by (metis hd_append2 list.sel(1))
  have "distinct g" using inv_distinct [OF inv] by (simp add: arrivals_def rest)
  note nl = notify_loop_eq [OF this ne, of t st rest "Lock t d"]
  have same: "w_status (Lock t d) = w_status d" "w_done (Lock t d) = w_done d"
    "popped (Lock t d) = popped d" "wpc (Lock t d) = wpc d" "signalled (Lock t d) = signalled d"
    by (simp_all add: Lock_def)
  show ?thesis
    using nl unfolding same rest [symmetric] by (intro exI [of _ rest] conjI rest hd)
qed

lemma signal_front_eq:
  "signal_front d = d\<lparr>signalled := (\<lambda>x. signalled d x \<or> writers d \<noteq> [] \<and> x = hd (writers d) \<and> wpc d x = Blocked)\<rparr>"
  by (cases "writers d") (auto simp: signal_front_def Signal_def fun_eq_iff intro!: db.equality)

lemma no_relock: "(\<And>l. p \<noteq> Relock l) \<Longrightarrow> (case p of Relock l \<Rightarrow> group l ws | _ \<Rightarrow> []) = []"
  by (cases p) auto

text \<open>While the leader \<open>t\<close> holds the front of the queue it alone is active and the others wait.\<close>

lemma front_active:
  assumes inv: "db_inv ops d" and front: "writers d = g @ rest" "t \<in> set g" "hd g = t"
    and "active d x l"
  shows "x = t"
  using inv_active [OF inv assms(5)] front by (metis hd_append list.sel(1) empty_iff empty_set)

lemma others_blocked:
  assumes inv: "db_inv ops d" and mu: "mu d = None" and front: "writers d = g @ rest" "t \<in> set g" "hd g = t"
    and x: "x \<in> set (writers d)" "x \<noteq> t"
  shows "\<not> w_done d x \<and> wpc d x = Blocked"
  using inv_queued [OF inv x(1)] front_active [OF inv front, of x] x(2) inv_mu [OF inv, of x] mu by auto

lemma committed_front:
  assumes "wpc d t = Relock l" and front: "writers d = g @ rest" "t \<in> set g" "hd g = t"
  shows "committed d = popped d @ group l (writers d)"
proof -
  obtain ws where "writers d = t # ws" using front by (cases g) auto
  then show ?thesis using assms(1) by (simp add: committed_def)
qed

lemma committed_idle: "(\<And>x l. wpc d x \<noteq> Relock l) \<Longrightarrow> committed d = popped d"
  by (auto simp: committed_def no_relock split: list.split)

lemma notify_inv:
  assumes inv: "db_inv ops d" and t: "wpc d t = Relock lw" and mu: "mu d = None"
    and nl: "notify_loop t lw OK (writers d) (Lock t d) = Some d1"
  shows "db_inv ops ((Unlock (signal_front d1))\<lparr>wpc := (wpc d1)(t := Returned OK)\<rparr>)" (is "db_inv ops ?d")
proof (rule db_invI)
  define g where "g = group lw (writers d)"
  obtain rest where rest: "writers d = g @ rest" "hd g = t"
    and d1: "d1 = (Lock t d)\<lparr>writers := rest, popped := popped d @ g,
            w_done := (\<lambda>r. r \<in> set g \<and> r \<noteq> t \<or> w_done d r),
            w_status := (\<lambda>r. if r \<in> set g \<and> r \<noteq> t then OK else w_status d r),
            signalled := (\<lambda>r. r \<in> set g \<and> r \<noteq> t \<and> wpc d r = Blocked \<or> signalled d r)\<rparr>"
    using notify_result [OF inv t g_def, of OK] nl by auto
  have fields: "mu ?d = None" "writers ?d = rest" "popped ?d = popped d @ g" "wpc ?d = (wpc d)(t := Returned OK)"
    "w_batch ?d = w_batch d" "wal ?d = wal d" "w_done ?d = (\<lambda>r. r \<in> set g \<and> r \<noteq> t \<or> w_done d r)"
    "w_status ?d = (\<lambda>r. if r \<in> set g \<and> r \<noteq> t then OK else w_status d r)"
    "signalled ?d = (\<lambda>x. (x \<in> set g \<and> x \<noteq> t \<and> wpc d x = Blocked \<or> signalled d x) \<or>
                         rest \<noteq> [] \<and> x = hd rest \<and> wpc d x = Blocked)"
    by (simp_all add: signal_front_eq d1 Unlock_def Lock_def)
  have tg: "t \<in> set g" using rest(2) by (metis g_def group_def hd_in_set snoc_eq_iff_butlast)
  have dist: "set g \<inter> set (popped d) = {}" "set rest \<inter> set (popped d) = {}" "set g \<inter> set rest = {}"
    using inv_distinct [OF inv] by (auto simp: arrivals_def rest(1))
  note only_t = front_active [OF inv rest(1) tg rest(2)] and waiting = others_blocked [OF inv mu rest(1) tg rest(2)]
  have inactive: "\<not> active ?d x l" for x l using only_t [of x l] by (auto simp: active_def fields)
  show "distinct (arrivals ?d)" using inv_distinct [OF inv] by (simp add: arrivals_def fields rest(1))
  show "x \<notin> set (arrivals ?d) \<longleftrightarrow> wpc ?d x = Idle" for x
    using inv_idle [OF inv, of x] tg by (auto simp: arrivals_def fields rest(1))
  show "\<not> w_done ?d x \<and> (wpc ?d x = AtLoop \<or> wpc ?d x = Blocked \<or> (\<exists>l. active ?d x l))"
    if "x \<in> set (writers ?d)" for x
    using waiting [of x] that dist tg by (auto simp: fields rest(1))
  show "w_done ?d x \<and> w_status ?d x = OK \<and> (wpc ?d x = AtLoop \<or> wpc ?d x = Blocked) \<or> wpc ?d x = Returned OK"
    if "x \<in> set (popped ?d)" for x
    using inv_popped [OF inv, of x] waiting [of x] that dist tg by (auto simp: fields rest(1))
  show "wpc ?d x = AtLoop \<longleftrightarrow> mu ?d = Some x" for x
    using inv_mu [OF inv, of x] mu t by (auto simp: fields)
  show "\<exists>rest seq. writers ?d = x # rest \<and> l \<in> set (writers ?d) \<and>
          represents (w_batch ?d x) seq (concat (map ops (group l (writers ?d))))"
    if "active ?d x l" for x l
    using that inactive by blast
  show "\<exists>seq. represents (w_batch ?d x) seq (ops x)"
    if "x \<notin> set (popped ?d)" "\<And>l. \<not> active ?d x l" for x
    using inv_batch [OF inv, of x] only_t [of x] that(1) tg unfolding fields by auto
  have "committed d = popped d @ g" using committed_front [OF t rest(1) tg rest(2)] by (simp add: g_def)
  moreover have "committed ?d = popped d @ g"
    using committed_idle [of ?d] inactive by (simp add: active_def fields(3))
  ultimately show "logged ?d (concat (map ops (committed ?d)))"
    using inv_logged [OF inv] by (simp add: logged_def fields)
  show "x \<in> set (writers ?d) \<and> hd (writers ?d) \<noteq> x" if "wpc ?d x = Blocked" "\<not> signalled ?d x" for x
    using inv_wake [OF inv, of x] that tg by (auto simp: fields rest(1) split: if_splits)
qed

lemma db_step_inv:
  assumes "db_step d d'" "db_inv ops d" "\<And>t. length (ops t) < 2 ^ 30"
  shows "db_inv ops d'"
  using assms(1)
proof cases
  case (enter t)
  then show ?thesis using enter_inv [OF assms(2)] by simp
next
  case (wait t)
  have "t \<in> set (writers d)"
    using inv_idle [OF assms(2), of t] inv_popped [OF assms(2), of t] wait by (auto simp: arrivals_def)
  then show ?thesis
    using wait inv_mu [OF assms(2)] inv_wake [OF assms(2)]
    by (intro control_step_inv [OF assms(2), of _ t Blocked]) (auto simp: Wait_def Unlock_def split: if_splits)
next
  case (wake t)
  then show ?thesis
    using inv_mu [OF assms(2)] inv_wake [OF assms(2)]
    by (intro control_step_inv [OF assms(2), of _ t AtLoop]) (auto simp: Lock_def split: if_splits)
next
  case (spurious_wake t)
  then show ?thesis
    using inv_mu [OF assms(2)] inv_wake [OF assms(2)]
    by (intro control_step_inv [OF assms(2), of _ t AtLoop]) (auto simp: Lock_def split: if_splits)
next
  case (return_done t)
  have "t \<in> set (popped d)" "w_status d t = OK"
    using inv_idle [OF assms(2), of t] inv_queued [OF assms(2), of t] inv_popped [OF assms(2), of t] return_done
    by (auto simp: arrivals_def)
  then show ?thesis
    using return_done inv_mu [OF assms(2)] inv_wake [OF assms(2)]
    by (intro control_step_inv [OF assms(2), of _ t "Returned OK"]) (auto simp: Unlock_def split: if_splits)
next
  case (lead t d1 lw)
  then show ?thesis using lead_inv [OF assms(2,3)] by simp
next
  case (write_io t lw)
  then show ?thesis using write_io_inv [OF assms(2)] by simp
next
  case (notify t lw d1)
  then show ?thesis using notify_inv [OF assms(2)] by simp
qed

interpretation group_commit: inductive_invariant "db_init ops" db_step
    "\<lambda>d. (\<forall>t. length (ops t) < 2 ^ 30) \<longrightarrow> db_inv ops d" for ops
  by unfold_locales (auto intro: db_init_inv db_step_inv)

lemma reachable_db_inv:
  "reachable (db_init ops) db_step d \<Longrightarrow> (\<And>t. length (ops t) < 2 ^ 30) \<Longrightarrow> db_inv ops d"
  using group_commit.reachable_inv by blast

lemma active_unique: "db_inv ops d \<Longrightarrow> active d t l \<Longrightarrow> active d u m \<Longrightarrow> t = u"
  using inv_active [of ops d t l] inv_active [of ops d u m] by auto

lemma committed_prefix:
  assumes "db_inv ops d"
  shows "\<exists>n. committed d = take n (arrivals d)"
proof (cases "committed d = popped d")
  case True
  then show ?thesis by (intro exI [of _ "length (popped d)"]) (simp add: arrivals_def)
next
  case False
  then obtain f ws l where f: "writers d = f # ws" "wpc d f = Relock l"
      "committed d = popped d @ group l (writers d)"
    by (auto simp: committed_def split: list.splits pc.splits)
  have "l \<in> set (writers d)" using inv_active [OF assms, of f l] f(2) by (auto simp: active_def)
  then obtain rest where "writers d = group l (writers d) @ rest" using group_prefix by blast
  then have "arrivals d = committed d @ rest" unfolding arrivals_def f(3) by simp
  then show ?thesis by (metis append_eq_conv_conj)
qed

text \<open>A writer whose next step does not depend on a spurious wake-up.\<close>

definition can_run :: "db \<Rightarrow> nat \<Rightarrow> bool" where
  "can_run d t \<longleftrightarrow>
     wpc d t = AtLoop \<and> mu d = Some t \<or>
     wpc d t = Blocked \<and> signalled d t \<and> mu d = None \<or>
     (\<exists>l. wpc d t = Writing l) \<or> (\<exists>l. wpc d t = Relock l) \<and> mu d = None"

definition in_flight :: "db \<Rightarrow> nat \<Rightarrow> bool" where
  "in_flight d t \<longleftrightarrow> wpc d t \<noteq> Idle \<and> (\<forall>s. wpc d t \<noteq> Returned s)"

lemma lead_enabled:
  assumes inv: "db_inv ops d" and small: "\<And>t. length (ops t) < 2 ^ 30"
    and t: "wpc d t = AtLoop" "writers d = t # ws"
  shows "\<exists>k r seq. BuildBatchGroup d = Some (d\<lparr>w_batch := (w_batch d)(t := r)\<rparr>, last (t # take k ws)) \<and>
           k \<le> length ws \<and> represents r seq (concat (map ops (t # take k ws))) \<and>
           (k < length ws \<longrightarrow> 2 \<le> length (concat (map ops (t # take k ws)))) \<and>
           (\<forall>j<k. length (concat (map ops (t # take j ws))) < 2)"
proof -
  have inactive: "\<not> active d x l" for x l
    using inv_active [OF inv, of x l] t active_pc [of d x l] by auto
  have rep: "\<exists>seq. represents (w_batch d x) seq (ops x)" if "x \<in> set (t # ws)" for x
    using inv_batch [OF inv, of x] inactive that inv_distinct [OF inv] by (auto simp: arrivals_def t(2))
  then obtain seq where "represents (w_batch d t) seq (ops t)" by auto
  from build_loop_represents [OF this, where bs = "w_batch d" and ws = ws and ops = ops and lw = t]
  obtain k r where k: "k \<le> length ws" "build_loop (w_batch d) (w_batch d t) t ws = Some (r, last (t # take k ws))"
      "represents r seq (ops t @ concat (map ops (take k ws)))"
      "k < length ws \<longrightarrow> 2 \<le> length (ops t @ concat (map ops (take k ws)))"
      "\<forall>j<k. length (ops t @ concat (map ops (take j ws))) < 2"
    using rep small by auto
  show ?thesis
    by (rule exI [of _ k], rule exI [of _ r], rule exI [of _ seq]) (use k in \<open>simp add: BuildBatchGroup_def t(2)\<close>)
qed

lemma can_run_steps:
  assumes inv: "db_inv ops d" and small: "\<And>t. length (ops t) < 2 ^ 30" and run: "can_run d t"
  shows "\<exists>d'. db_step d d' \<and> wpc d' t \<noteq> wpc d t"
  using run unfolding can_run_def
proof (elim disjE conjE exE)
  assume a: "wpc d t = AtLoop" "mu d = Some t"
  show ?thesis
  proof (cases "w_done d t")
    case True
    then show ?thesis using return_done [of d t] a by (auto intro!: exI simp: Unlock_def)
  next
    case False
    then have q: "t \<in> set (writers d)"
      using inv_idle [OF inv, of t] inv_popped [OF inv, of t] a by (auto simp: arrivals_def)
    show ?thesis
    proof (cases "hd (writers d) = t")
      case True
      then obtain ws where ws: "writers d = t # ws" using q by (cases "writers d") auto
      obtain d1 lw where "BuildBatchGroup d = Some (d1, lw)"
        using lead_enabled [OF inv small a(1) ws] by blast
      from lead [OF a False _ True this] show ?thesis using a ws by (auto intro!: exI)
    next
      case other: False
      then show ?thesis using wait [OF a False] a by (auto intro!: exI simp: Wait_def)
    qed
  qed
next
  assume "wpc d t = Blocked" "signalled d t" "mu d = None"
  then show ?thesis using wake [of d t] by (auto intro!: exI simp: Lock_def)
next
  fix l assume "wpc d t = Writing l"
  then show ?thesis using write_io [of d t l] by (auto intro!: exI)
next
  fix l assume a: "wpc d t = Relock l" "mu d = None"
  obtain d1 where "notify_loop t l OK (writers d) (Lock t d) = Some d1"
    using notify_result [OF inv a(1) refl, of OK] by blast
  from notify [OF a this] show ?thesis using a by (auto intro!: exI)
qed

lemma some_can_run:
  assumes inv: "db_inv ops d" and t: "in_flight d t"
  shows "\<exists>u. can_run d u"
proof (cases "mu d")
  case (Some u)
  then show ?thesis using inv_mu [OF inv, of u] by (auto simp: can_run_def)
next
  case None
  then have free: "wpc d x \<noteq> AtLoop" for x using inv_mu [OF inv, of x] by simp
  consider "wpc d t = Blocked" | l where "active d t l"
    using t free [of t] by (cases "wpc d t") (auto simp: in_flight_def active_def)
  then show ?thesis
  proof cases
    case 1
    show ?thesis
    proof (cases "signalled d t")
      case False
      then have w: "t \<in> set (writers d)" "hd (writers d) \<noteq> t" using inv_wake [OF inv 1] by auto
      define f where "f = hd (writers d)"
      have f: "f \<in> set (writers d)" using w(1) by (cases "writers d") (auto simp: f_def)
      consider "wpc d f = Blocked" | l where "active d f l"
        using inv_queued [OF inv f] free by auto
      then show ?thesis
      proof cases
        case 1
        then have "signalled d f" using inv_wake [OF inv 1] by (auto simp: f_def)
        then show ?thesis using 1 None by (auto simp: can_run_def)
      qed (use None in \<open>auto simp: can_run_def active_def\<close>)
    qed (use 1 None in \<open>auto simp: can_run_def\<close>)
  qed (use None in \<open>auto simp: can_run_def active_def\<close>)
qed

lemma returned_committed:
  assumes inv: "db_inv ops d" and r: "wpc d t = Returned st"
  shows "st = OK \<and> t \<in> set (committed d)"
proof -
  have "t \<in> set (arrivals d)" using inv_idle [OF inv, of t] r by auto
  moreover have "t \<notin> set (writers d)" using inv_queued [OF inv, of t] r by (auto simp: active_def)
  ultimately have p: "t \<in> set (popped d)" by (simp add: arrivals_def)
  then show ?thesis using inv_popped [OF inv p] r by (simp add: committed_def)
qed

section \<open>Properties\<close>

text \<open>C12: Mutual exclusion of the leaders: in every reachable state at most one writer is past the
  queue (writing the log with the mutex released, or about to notify), it is the front of the queue,
  its group is a prefix of the queue, and its batch then holds the operations of the whole group.\<close>

theorem leader_is_unique_front:
  assumes "reachable (db_init ops) db_step d" and "\<And>t. length (ops t) < 2 ^ 30"
    and "active d t l"
  shows "(\<forall>u m. active d u m \<longrightarrow> u = t) \<and> writers d \<noteq> [] \<and> hd (writers d) = t \<and>
         (\<exists>rest seq. writers d = group l (writers d) @ rest \<and>
            represents (w_batch d t) seq (concat (map ops (group l (writers d)))))"
proof -
  note inv = reachable_db_inv [OF assms(1,2)]
  obtain rest seq where "writers d = t # rest" "l \<in> set (writers d)"
      "represents (w_batch d t) seq (concat (map ops (group l (writers d))))"
    using inv_active [OF inv assms(3)] by blast
  moreover obtain rest' where "writers d = group l (writers d) @ rest'"
    using group_prefix calculation(2) by blast
  moreover have "\<forall>u m. active d u m \<longrightarrow> u = t" using active_unique [OF inv _ assms(3)] by blast
  ultimately show ?thesis by (intro conjI) (auto intro: exI)
qed

text \<open>C2: Exactly once, in order: in every reachable state the batches in the log hold exactly the
  operations of the first n writers to arrive, in order of arrival, each once; and every call of
  Write that has returned has returned OK and belongs to those n.\<close>

theorem writes_are_logged_once_in_order:
  assumes "reachable (db_init ops) db_step d" and "\<And>t. length (ops t) < 2 ^ 30"
  shows "distinct (arrivals d) \<and>
    (\<exists>n. logged d (concat (map ops (take n (arrivals d)))) \<and>
         (\<forall>t st. wpc d t = Returned st \<longrightarrow> st = OK \<and> t \<in> set (take n (arrivals d))))"
proof -
  note inv = reachable_db_inv [OF assms]
  obtain n where n: "committed d = take n (arrivals d)" using committed_prefix [OF inv] by blast
  show ?thesis
    using inv_distinct [OF inv] inv_logged [OF inv] returned_committed [OF inv] by (auto simp: n)
qed

text \<open>No lost wake-up and no deadlock: while some call of Write has not returned, some writer can
  take a step of its own (acquire the free mutex after a signal, go on under the mutex it holds,
  write, or notify), no spurious wake-up being needed, and that step moves it on.\<close>

theorem write_never_deadlocks:
  assumes "reachable (db_init ops) db_step d" and "\<And>t. length (ops t) < 2 ^ 30"
    and "in_flight d t"
  shows "\<exists>u d'. can_run d u \<and> db_step d d' \<and> wpc d' u \<noteq> wpc d u"
proof -
  note inv = reachable_db_inv [OF assms(1,2)]
  obtain u where "can_run d u" using some_can_run [OF inv assms(3)] by blast
  then show ?thesis using can_run_steps [OF inv assms(2)] by blast
qed

text \<open>The group the leader collects is the shortest prefix of the queue that holds two operations
  or more (the whole queue when there are fewer), and building it overwrites the caller's own batch
  with the operations of the whole group.\<close>

theorem group_is_shortest_prefix:
  assumes "reachable (db_init ops) db_step d" and "\<And>t. length (ops t) < 2 ^ 30"
    and "wpc d t = AtLoop" and "writers d = t # ws"
  shows "\<exists>k b seq. BuildBatchGroup d = Some (d\<lparr>w_batch := (w_batch d)(t := b)\<rparr>, last (t # take k ws)) \<and>
           k \<le> length ws \<and> represents b seq (concat (map ops (t # take k ws))) \<and>
           (k < length ws \<longrightarrow> 2 \<le> length (concat (map ops (t # take k ws)))) \<and>
           (\<forall>j<k. length (concat (map ops (t # take j ws))) < 2)"
  by (rule lead_enabled [OF reachable_db_inv [OF assms(1,2)] assms(2,3,4)])

end
