(* ===== verification/Lru.thy ===== *)
theory Lru
  imports Prelude "HOL-Library.AList"
begin

text \<open>
  \<^verbatim>\<open>common/lru.h\<close>: a bounded cache made of a linked list in order of recency and a hash map from
  keys to list iterators. A list node is modelled by its identity paired with its item, an iterator
  by the identity; the hash map is an association list with distinct keys. Dereferencing an iterator
  of an erased node is undefined: \<open>None\<close>.
\<close>

section \<open>The cache\<close>

record ('k, 'v) LRUItem =
  item_key :: 'k
  item_value :: 'v

record ('k, 'v) LRU =
  lru_cap :: u64
  lru_list :: "(nat \<times> ('k, 'v) LRUItem) list"
  lru_kvs :: "('k \<times> nat) list"
  lru_next :: nat

definition LRU_new :: "u64 \<Rightarrow> ('k, 'v) LRU" where
  "LRU_new cap = \<lparr>lru_cap = cap, lru_list = [], lru_kvs = [], lru_next = 0\<rparr>"

text \<open>\<^verbatim>\<open>lru_.splice(lru_.begin(), lru_, it)\<close>: the node moves to the front, iterators stay valid.\<close>

definition splice_front :: "nat \<Rightarrow> (nat \<times> 'i) list \<Rightarrow> (nat \<times> 'i) list" where
  "splice_front n xs = filter (\<lambda>p. fst p = n) xs @ filter (\<lambda>p. fst p \<noteq> n) xs"

definition LRU_Get :: "'k \<Rightarrow> ('k, 'v) LRU \<Rightarrow> ('v option \<times> ('k, 'v) LRU) option" where
  "LRU_Get key c =
     (case map_of (lru_kvs c) key of
        None \<Rightarrow> Some (None, c)
      | Some item_iter \<Rightarrow>
          (case map_of (lru_list c) item_iter of
             None \<Rightarrow> None
           | Some item \<Rightarrow>
               Some (Some (item_value item), c\<lparr>lru_list := splice_front item_iter (lru_list c)\<rparr>)))"

definition LRU_Put :: "'k \<Rightarrow> 'v \<Rightarrow> ('k, 'v) LRU \<Rightarrow> ('k, 'v) LRU option" where
  "LRU_Put key val c =
     (case map_of (lru_kvs c) key of
        Some item_iter \<Rightarrow>
          (case map_of (lru_list c) item_iter of
             None \<Rightarrow> None
           | Some item \<Rightarrow>
               Some (c\<lparr>lru_list := splice_front item_iter
                  (AList.update item_iter (item\<lparr>item_value := val\<rparr>) (lru_list c))\<rparr>))
      | None \<Rightarrow>
          (let n = lru_next c;
               lru = (n, \<lparr>item_key = key, item_value = val\<rparr>) # lru_list c;
               kvs = (key, n) # lru_kvs c
           in if length kvs > unat (lru_cap c)
              then Some (c\<lparr>lru_list := butlast lru, lru_next := n + 1,
                           lru_kvs := AList.delete (item_key (snd (last lru))) kvs\<rparr>)
              else Some (c\<lparr>lru_list := lru, lru_next := n + 1, lru_kvs := kvs\<rparr>)))"

definition lru_size :: "('k, 'v) LRU \<Rightarrow> nat" where
  "lru_size c = length (lru_list c)"

datatype ('k, 'v) cache_op = CGet 'k | CPut 'k 'v

fun lru_step :: "('k, 'v) cache_op \<Rightarrow> ('k, 'v) LRU \<Rightarrow> ('v option \<times> ('k, 'v) LRU) option" where
  "lru_step (CGet k) c = LRU_Get k c"
| "lru_step (CPut k v) c = map_option (Pair None) (LRU_Put k v c)"

section \<open>Specification\<close>

text \<open>The contents in order of recency, and the operations on them.\<close>

definition touch :: "'k \<Rightarrow> 'v \<Rightarrow> ('k \<times> 'v) list \<Rightarrow> ('k \<times> 'v) list" where
  "touch k v xs = (k, v) # filter (\<lambda>p. fst p \<noteq> k) xs"

fun recency_step :: "nat \<Rightarrow> ('k, 'v) cache_op \<Rightarrow> ('k \<times> 'v) list \<Rightarrow> 'v option \<times> ('k \<times> 'v) list" where
  "recency_step cap (CGet k) xs =
     (case map_of xs k of None \<Rightarrow> (None, xs) | Some v \<Rightarrow> (Some v, touch k v xs))"
| "recency_step cap (CPut k v) xs = (None, take cap (touch k v xs))"

definition contents :: "('k, 'v) LRU \<Rightarrow> ('k \<times> 'v) list" where
  "contents c = map (\<lambda>(n, it). (item_key it, item_value it)) (lru_list c)"

abbreviation node_key :: "nat \<times> ('k, 'v) LRUItem \<Rightarrow> 'k" where
  "node_key p \<equiv> item_key (snd p)"

definition lru_inv :: "('k, 'v) LRU \<Rightarrow> bool" where
  "lru_inv c \<longleftrightarrow>
     distinct (map fst (lru_list c)) \<and> distinct (map node_key (lru_list c)) \<and>
     distinct (map fst (lru_kvs c)) \<and>
     set (lru_kvs c) = (\<lambda>p. (node_key p, fst p)) ` set (lru_list c) \<and>
     (\<forall>n\<in>fst ` set (lru_list c). n < lru_next c) \<and>
     length (lru_list c) \<le> unat (lru_cap c)"

lemma lru_invD:
  assumes "lru_inv c"
  shows lru_ids: "distinct (map fst (lru_list c))"
    and lru_keys: "distinct (map node_key (lru_list c))"
    and lru_kvs_keys: "distinct (map fst (lru_kvs c))"
    and lru_kvs_set: "set (lru_kvs c) = (\<lambda>p. (node_key p, fst p)) ` set (lru_list c)"
    and lru_fresh: "n \<in> fst ` set (lru_list c) \<Longrightarrow> n < lru_next c"
    and lru_bound: "length (lru_list c) \<le> unat (lru_cap c)"
  using assms unfolding lru_inv_def by blast+

lemma length_kvs:
  assumes "lru_inv c"
  shows "length (lru_kvs c) = length (lru_list c)"
proof -
  have inj: "inj_on (\<lambda>p. (node_key p, fst p)) (set (lru_list c))"
    using lru_keys [OF assms] by (auto simp: distinct_map inj_on_def)
  have "length (lru_kvs c) = card (set (lru_kvs c))"
    using lru_kvs_keys [OF assms] by (simp add: distinct_card distinct_map)
  also have "\<dots> = card (set (lru_list c))"
    unfolding lru_kvs_set [OF assms] by (rule card_image [OF inj])
  also have "\<dots> = length (lru_list c)"
    using lru_ids [OF assms] by (simp add: distinct_card distinct_map)
  finally show ?thesis .
qed

lemma map_of_contents:
  "distinct (map node_key xs) \<Longrightarrow> (n, it) \<in> set xs \<Longrightarrow>
     map_of (map (\<lambda>(n, it). (item_key it, item_value it)) xs) (item_key it) = Some (item_value it)"
  by (induction xs) (auto simp: rev_image_eqI)

lemma lookup_hit:
  assumes "lru_inv c" "map_of (lru_kvs c) k = Some n"
  shows "\<exists>it. map_of (lru_list c) n = Some it \<and> item_key it = k \<and>
           map_of (contents c) k = Some (item_value it) \<and>
           (\<forall>p\<in>set (lru_list c). fst p = n \<longleftrightarrow> node_key p = k)"
proof -
  have "(k, n) \<in> set (lru_kvs c)" using assms(2) by (rule map_of_SomeD)
  then obtain it where it: "(n, it) \<in> set (lru_list c)" "item_key it = k"
    using lru_kvs_set [OF assms(1)] by auto
  have "fst p = n \<longleftrightarrow> node_key p = k" if "p \<in> set (lru_list c)" for p
    using it that lru_ids [OF assms(1)] lru_keys [OF assms(1)]
    unfolding distinct_map inj_on_def by (metis fst_conv snd_conv)
  moreover have "map_of (contents c) k = Some (item_value it)"
    using map_of_contents [OF lru_keys [OF assms(1)] it(1)] it(2) by (simp add: contents_def)
  ultimately show ?thesis using it lru_ids [OF assms(1)] by (auto simp: map_of_eq_Some_iff)
qed

lemma lookup_miss:
  assumes "lru_inv c" "map_of (lru_kvs c) k = None"
  shows "\<forall>p\<in>set (lru_list c). node_key p \<noteq> k" and "map_of (contents c) k = None"
proof -
  show keys: "\<forall>p\<in>set (lru_list c). node_key p \<noteq> k"
    using assms(2) lru_kvs_set [OF assms(1)] by (force simp: map_of_eq_None_iff)
  then show "map_of (contents c) k = None"
    by (auto simp: contents_def map_of_eq_None_iff)
qed

lemma filter_single:
  "distinct (map fst xs) \<Longrightarrow> map_of xs n = Some it \<Longrightarrow> filter (\<lambda>p. fst p = n) xs = [(n, it)]"
  by (induction xs) (auto simp: filter_empty_conv rev_image_eqI split: if_splits)

lemma splice_front_eq:
  "distinct (map fst xs) \<Longrightarrow> map_of xs n = Some it \<Longrightarrow>
     splice_front n xs = (n, it) # filter (\<lambda>p. fst p \<noteq> n) xs"
  by (simp add: splice_front_def filter_single)

text \<open>Moving an item, with a new value or the old one, keeps the invariant.\<close>

lemma move_front:
  assumes inv: "lru_inv c" and hit: "map_of (lru_kvs c) k = Some n"
    and it: "map_of (lru_list c) n = Some it" and it': "item_key it' = k"
  defines "c' \<equiv> c\<lparr>lru_list := (n, it') # filter (\<lambda>p. fst p \<noteq> n) (lru_list c)\<rparr>"
  shows "lru_inv c'" and "contents c' = touch k (item_value it') (contents c)"
proof -
  have mem: "(n, it) \<in> set (lru_list c)" using it by (rule map_of_SomeD)
  have same: "\<forall>p\<in>set (lru_list c). fst p = n \<longleftrightarrow> node_key p = k" and k: "item_key it = k"
    using lookup_hit [OF inv hit] it by auto
  then have flt: "filter (\<lambda>p. fst p \<noteq> n) (lru_list c) = filter (\<lambda>p. node_key p \<noteq> k) (lru_list c)"
    by (intro filter_cong) auto
  show "contents c' = touch k (item_value it') (contents c)"
    by (simp add: c'_def contents_def touch_def flt it' filter_map comp_def case_prod_unfold)
  have "length (filter (\<lambda>p. fst p \<noteq> n) (lru_list c)) < length (lru_list c)"
    using mem by (intro length_filter_less [of "(n, it)"]) auto
  moreover have "insert (k, n) ((\<lambda>p. (node_key p, fst p)) ` {p \<in> set (lru_list c). fst p \<noteq> n}) =
      (\<lambda>p. (node_key p, fst p)) ` set (lru_list c)"
    using mem same k by (force simp: image_iff)
  ultimately show "lru_inv c'"
    using inv mem same k it' unfolding lru_inv_def c'_def
    by (auto simp: distinct_map_filter image_iff)
qed

lemma filter_update:
  "filter (\<lambda>p. fst p \<noteq> n) (AList.update n it xs) = filter (\<lambda>p. fst p \<noteq> n) xs"
  by (induction xs) auto

lemma LRU_Get_refines:
  assumes "lru_inv c"
  shows "\<exists>r c'. LRU_Get k c = Some (r, c') \<and> lru_inv c' \<and> lru_cap c' = lru_cap c \<and>
           recency_step cap (CGet k) (contents c) = (r, contents c')"
proof (cases "map_of (lru_kvs c) k")
  case None
  then show ?thesis using assms lookup_miss [OF assms None] by (simp add: LRU_Get_def)
next
  case (Some n)
  obtain it where it: "map_of (lru_list c) n = Some it" "item_key it = k"
      "map_of (contents c) k = Some (item_value it)"
    using lookup_hit [OF assms Some] by blast
  note sp = splice_front_eq [OF lru_ids [OF assms] it(1)]
  show ?thesis
    using move_front [OF assms Some it(1,2)] by (simp add: LRU_Get_def Some it(1,3) sp)
qed

lemma insert_front:
  fixes v :: 'v and c :: "('k, 'v) LRU"
  assumes inv: "lru_inv c" and miss: "map_of (lru_kvs c) k = None"
  defines "l \<equiv> (lru_next c, \<lparr>item_key = k, item_value = v\<rparr>) # lru_list c"
    and "m \<equiv> (k, lru_next c) # lru_kvs c"
  shows "distinct (map fst l)" "distinct (map node_key l)" "distinct (map fst m)"
    "set m = (\<lambda>p. (node_key p, fst p)) ` set l" "\<forall>n\<in>fst ` set l. n < lru_next c + 1"
proof -
  note new = lookup_miss [OF inv miss]
  show "distinct (map fst l)" using lru_ids [OF inv] lru_fresh [OF inv] by (auto simp: l_def)
  show "distinct (map node_key l)" using lru_keys [OF inv] new by (auto simp: l_def)
  show "distinct (map fst m)"
    using lru_kvs_keys [OF inv] miss by (auto simp: m_def map_of_eq_None_iff)
  show "set m = (\<lambda>p. (node_key p, fst p)) ` set l" by (simp add: l_def m_def lru_kvs_set [OF inv])
  show "\<forall>n\<in>fst ` set l. n < lru_next c + 1"
    using lru_fresh [OF inv] by (auto simp: l_def less_SucI rev_image_eqI)
qed

lemma evict_back:
  assumes "distinct (map fst l)" "distinct (map node_key l)" "distinct (map fst m)"
    "set m = (\<lambda>p. (node_key p, fst p)) ` set l" "l \<noteq> []"
  shows "distinct (map fst (butlast l))" "distinct (map node_key (butlast l))"
    "distinct (map fst (AList.delete (node_key (last l)) m))"
    "set (AList.delete (node_key (last l)) m) = (\<lambda>p. (node_key p, fst p)) ` set (butlast l)"
proof -
  obtain xs x where l: "l = xs @ [x]" using assms(5) by (cases l rule: rev_cases) auto
  show "distinct (map fst (butlast l))" "distinct (map node_key (butlast l))"
    using assms(1,2) by (simp_all add: l)
  show "distinct (map fst (AList.delete (node_key (last l)) m))"
    by (rule distinct_delete [OF assms(3)])
  have "set (AList.delete (node_key x) m) = {p \<in> set m. fst p \<noteq> node_key x}"
    by (auto simp: AList.delete_eq)
  also have "\<dots> = (\<lambda>p. (node_key p, fst p)) ` set xs"
    using assms(2) unfolding assms(4) l by (auto simp: image_iff)
  finally show "set (AList.delete (node_key (last l)) m) = (\<lambda>p. (node_key p, fst p)) ` set (butlast l)"
    by (simp add: l)
qed

lemma put_hit_refines:
  assumes inv: "lru_inv c" and Some: "map_of (lru_kvs c) k = Some n"
  shows "\<exists>c'. LRU_Put k v c = Some c' \<and> lru_inv c' \<and> lru_cap c' = lru_cap c \<and>
           contents c' = take (unat (lru_cap c)) (touch k v (contents c))"
proof -
  obtain it where it: "map_of (lru_list c) n = Some it" "item_key it = k"
    using lookup_hit [OF inv Some] by blast
  define it' where "it' = it\<lparr>item_value := v\<rparr>"
  have sp: "splice_front n (AList.update n it' (lru_list c)) =
      (n, it') # filter (\<lambda>p. fst p \<noteq> n) (lru_list c)"
    using lru_ids [OF inv] by (subst splice_front_eq) (auto simp: distinct_update update_conv' filter_update)
  have mv: "item_key it' = k" "item_value it' = v" using it(2) by (simp_all add: it'_def)
  note m = move_front [OF inv Some it(1) mv(1)]
  have "length (touch k v (contents c)) \<le> unat (lru_cap c)"
    using lru_bound [OF m(1)] unfolding m(2) [unfolded mv(2), symmetric] by (simp add: contents_def)
  then show ?thesis using m mv by (simp add: LRU_Put_def Some it(1) it'_def [symmetric] sp)
qed

lemma put_miss_refines:
  assumes inv: "lru_inv c" and None: "map_of (lru_kvs c) k = None"
  shows "\<exists>c'. LRU_Put k v c = Some c' \<and> lru_inv c' \<and> lru_cap c' = lru_cap c \<and>
           contents c' = take (unat (lru_cap c)) (touch k v (contents c))"
proof -
  define l where "l = (lru_next c, \<lparr>item_key = k, item_value = v\<rparr>) # lru_list c"
  define m where "m = (k, lru_next c) # lru_kvs c"
  note ins = insert_front(1) [OF inv None, where v = v, folded l_def] insert_front(2) [OF inv None, where v = v, folded l_def]
    insert_front(3) [OF inv None, folded m_def] insert_front(4) [OF inv None, where v = v, folded l_def m_def]
    insert_front(5) [OF inv None, where v = v, folded l_def]
  have l_ne: "l \<noteq> []" by (simp add: l_def)
  note ev = evict_back [OF ins(1-4) l_ne]
  have len: "length m = length l" by (simp add: l_def m_def length_kvs [OF inv])
  have "filter (\<lambda>p. fst p \<noteq> k) (contents c) = contents c"
    using lookup_miss [OF inv None] by (intro filter_True) (auto simp: contents_def)
  then have cont: "touch k v (contents c) = map (\<lambda>(n, it). (item_key it, item_value it)) l"
    by (simp add: touch_def l_def contents_def)
  show ?thesis
  proof (cases "length m > unat (lru_cap c)")
    case True
    then have full: "length l = Suc (unat (lru_cap c))"
      using lru_bound [OF inv] by (simp add: len) (simp add: l_def)
    have fresh: "\<forall>n\<in>fst ` set (butlast l). n < lru_next c + 1"
      using ins(5) by (auto dest: in_set_butlastD)
    let ?c = "c\<lparr>lru_list := butlast l, lru_next := lru_next c + 1, lru_kvs := AList.delete (node_key (last l)) m\<rparr>"
    have "LRU_Put k v c = Some ?c"
      using True by (simp add: LRU_Put_def None Let_def l_def m_def)
    moreover have "lru_inv ?c"
      unfolding lru_inv_def using ev fresh full by simp
    moreover have "contents ?c = take (unat (lru_cap c)) (touch k v (contents c))"
      unfolding cont using full by (simp add: contents_def butlast_conv_take take_map)
    ultimately show ?thesis by (intro exI [of _ ?c]) simp
  next
    case False
    let ?c = "c\<lparr>lru_list := l, lru_next := lru_next c + 1, lru_kvs := m\<rparr>"
    have "LRU_Put k v c = Some ?c"
      using False by (simp add: LRU_Put_def None Let_def l_def m_def)
    moreover have "lru_inv ?c"
      unfolding lru_inv_def using ins False len by simp
    moreover have "contents ?c = take (unat (lru_cap c)) (touch k v (contents c))"
      unfolding cont using False len by (simp add: contents_def)
    ultimately show ?thesis by (intro exI [of _ ?c]) simp
  qed
qed

lemma LRU_Put_refines:
  assumes "lru_inv c"
  shows "\<exists>c'. LRU_Put k v c = Some c' \<and> lru_inv c' \<and> lru_cap c' = lru_cap c \<and>
           contents c' = take (unat (lru_cap c)) (touch k v (contents c))"
  by (cases "map_of (lru_kvs c) k") (rule put_miss_refines [OF assms] put_hit_refines [OF assms], assumption)+

lemma LRU_new_inv: "lru_inv (LRU_new cap)" and contents_new: "contents (LRU_new cap) = []"
  by (simp_all add: lru_inv_def LRU_new_def contents_def)

interpretation lru: op_refinement lru_step "recency_step (unat cap)" contents
    "\<lambda>c. lru_inv c \<and> lru_cap c = cap" "\<lambda>op c. True" for cap
proof unfold_locales
  fix c :: "('k, 'v) LRU" and op :: "('k, 'v) cache_op"
  assume inv: "lru_inv c \<and> lru_cap c = cap"
  show "\<exists>r c'. lru_step op c = Some (r, c') \<and> (lru_inv c' \<and> lru_cap c' = cap) \<and>
      recency_step (unat cap) op (contents c) = (r, contents c')"
  proof (cases op)
    case (CGet k)
    then show ?thesis using LRU_Get_refines [of c k "unat cap"] inv by auto
  next
    case (CPut k v)
    obtain c' where "LRU_Put k v c = Some c'" "lru_inv c'" "lru_cap c' = lru_cap c"
        "contents c' = take (unat (lru_cap c)) (touch k v (contents c))"
      using LRU_Put_refines [of c k v] inv by blast
    then show ?thesis using CPut inv by auto
  qed
qed

section \<open>What the cache keeps\<close>

text \<open>The keys used by a run (stored, or found by a lookup), in order, and the last value stored for
  each key.\<close>

fun uses :: "('k, 'v) cache_op list \<Rightarrow> 'v option list \<Rightarrow> 'k list" where
  "uses (CPut k v # ops) (r # rs) = k # uses ops rs"
| "uses (CGet k # ops) (r # rs) = (case r of None \<Rightarrow> [] | Some _ \<Rightarrow> [k]) @ uses ops rs"
| "uses _ _ = []"

fun last_put :: "('k, 'v) cache_op list \<Rightarrow> 'k \<rightharpoonup> 'v" where
  "last_put [] = Map.empty"
| "last_put (CPut k v # ops) = [k \<mapsto> v] ++ last_put ops"
| "last_put (CGet k # ops) = last_put ops"

lemma last_put_append: "last_put (xs @ ys) = last_put xs ++ last_put ys"
  by (induction xs rule: last_put.induct) auto

lemma uses_append:
  "length ops = length rs \<Longrightarrow> uses (ops @ ops') (rs @ rs') = uses ops rs @ uses ops' rs'"
  by (induction ops rs rule: uses.induct) auto

definition recent :: "'k list \<Rightarrow> 'k list" where
  "recent ks = rev (remdups ks)"

lemma recent_snoc: "recent (ks @ [k]) = k # removeAll k (recent ks)"
proof -
  have "remdups (ks @ [k]) = removeAll k (remdups ks) @ [k]" by (induction ks) auto
  then show ?thesis by (simp add: recent_def removeAll_filter_not_eq rev_filter)
qed

lemma take_removeAll:
  "distinct xs \<Longrightarrow> take n (removeAll k (take (Suc n) xs)) = take n (removeAll k xs)"
proof (induction xs arbitrary: n)
  case (Cons x xs)
  show ?case
  proof (cases "x = k")
    case True
    then have "k \<notin> set (take n xs)" "k \<notin> set xs" using Cons.prems by (auto dest: in_set_takeD)
    then show ?thesis using True by simp
  next
    case False
    then show ?thesis using Cons by (cases n) simp_all
  qed
qed simp

lemma take_touch_keys:
  assumes "map fst xs = take cap (recent ks)"
  shows "map fst (take cap (touch k v xs)) = take cap (recent (ks @ [k]))"
proof (cases cap)
  case (Suc n)
  have "map fst (filter (\<lambda>p. fst p \<noteq> k) xs) = removeAll k (map fst xs)"
    by (induction xs) auto
  then have "map fst (take cap (touch k v xs)) = k # take n (removeAll k (take (Suc n) (recent ks)))"
    using assms by (simp add: touch_def Suc flip: take_map)
  then show ?thesis by (simp add: recent_snoc Suc take_removeAll) (simp add: recent_def take_removeAll)
qed simp

lemma recency_run:
  assumes "spec_run (recency_step cap) ops [] = (rs, xs)"
  shows "map fst xs = take cap (recent (uses ops rs)) \<and> (\<forall>(k, v)\<in>set xs. last_put ops k = Some v)"
  using assms
proof (induction ops arbitrary: rs xs rule: rev_induct)
  case Nil
  then show ?case by (simp add: recent_def)
next
  case (snoc op ops)
  obtain rs1 xs1 where pre: "spec_run (recency_step cap) ops [] = (rs1, xs1)" by fastforce
  obtain r where r: "recency_step cap op xs1 = (r, xs)" "rs = rs1 @ [r]"
    using snoc.prems by (auto simp: spec_run_append pre Let_def split: prod.splits)
  have len: "length ops = length rs1"
    using length_spec_run [of "recency_step cap" ops "[]"] by (simp add: pre)
  note IH = snoc.IH [OF pre]
  have keys: "map fst xs1 = take cap (recent (uses ops rs1))" using IH by blast
  have bound: "length xs1 \<le> cap" using arg_cong [OF keys, of length] by simp
  show ?case
  proof (cases op)
    case (CPut k v)
    then have xs: "xs = take cap (touch k v xs1)" using r by simp
    have "map fst xs = take cap (recent (uses (ops @ [op]) rs))"
      unfolding xs take_touch_keys [OF keys] r(2) by (simp add: uses_append [OF len] CPut)
    moreover have "\<forall>(k', v')\<in>set xs. last_put (ops @ [op]) k' = Some v'"
      using IH by (auto simp: xs touch_def CPut last_put_append dest!: in_set_takeD)
    ultimately show ?thesis by blast
  next
    case (CGet k)
    show ?thesis
    proof (cases "map_of xs1 k")
      case None
      then show ?thesis using IH r by (simp add: CGet uses_append [OF len] last_put_append)
    next
      case (Some v)
      then have xs: "xs = touch k v xs1" "r = Some v" using r CGet by auto
      have mem: "(k, v) \<in> set xs1" using Some by (rule map_of_SomeD)
      then have "length (filter (\<lambda>p. fst p \<noteq> k) xs1) < length xs1"
        by (intro length_filter_less [of "(k, v)"]) auto
      then have "take cap xs = xs" using bound by (simp add: xs touch_def)
      then have "map fst xs = take cap (recent (uses ops rs1 @ [k]))"
        using take_touch_keys [OF keys, of k v] xs(1) by simp
      moreover have "\<forall>(k', v')\<in>set xs. last_put (ops @ [op]) k' = Some v'"
        using IH mem by (auto simp: xs touch_def CGet last_put_append)
      ultimately show ?thesis by (simp add: CGet r(2) xs(2) uses_append [OF len])
    qed
  qed
qed

section \<open>Properties\<close>

text \<open>Every sequence of Get and Put calls on a new cache succeeds (no dangling iterator is ever
  dereferenced) and returns what the list of entries in order of recency returns, of which the
  cache holds at most cap.\<close>

theorem lru_refines_recency_list:
  "\<exists>rs c. run lru_step ops (LRU_new cap) = Some (rs, c) \<and>
     spec_run (recency_step (unat cap)) ops [] = (rs, contents c) \<and> lru_size c \<le> unat cap"
proof -
  have new: "lru_inv (LRU_new cap) \<and> lru_cap (LRU_new cap) = cap"
    using LRU_new_inv by (simp add: LRU_new_def)
  then obtain rs c where "run lru_step ops (LRU_new cap) = Some (rs, c)" "lru_inv c \<and> lru_cap c = cap"
      "spec_run (recency_step (unat cap)) ops (contents (LRU_new cap)) = (rs, contents c)"
    using lru.run_refines [OF new, of ops] by blast
  then show ?thesis using lru_bound [of c] by (auto simp: contents_new lru_size_def)
qed

text \<open>C17: After any sequence of calls the cache holds exactly the cap most recently used keys, most
  recent first, where a use is a Put or a Get that hits; each with the value last Put for it.\<close>

theorem lru_keeps_most_recent:
  "\<exists>rs c. run lru_step ops (LRU_new cap) = Some (rs, c) \<and>
     map fst (contents c) = take (unat cap) (rev (remdups (uses ops rs))) \<and>
     set (contents c) \<subseteq> {(k, v). last_put ops k = Some v}"
proof -
  have new: "lru_inv (LRU_new cap) \<and> lru_cap (LRU_new cap) = cap"
    using LRU_new_inv by (simp add: LRU_new_def)
  then obtain rs c where "run lru_step ops (LRU_new cap) = Some (rs, c)"
      "spec_run (recency_step (unat cap)) ops [] = (rs, contents c)"
    using lru.run_refines [OF new, of ops] contents_new by metis
  then show ?thesis using recency_run [of "unat cap" ops rs "contents c"] by (auto simp: recent_def)
qed

end
