(* ===== verification/Fair_Queue.thy ===== *)
theory Fair_Queue
  imports Prelude "HOL-Library.AList" "HOL-Library.Monad_Syntax"
begin

text \<open>
  \<^verbatim>\<open>example-fq/fair_queue.{h,cc}\<close>: requests queued per client, the clients served in turn. The
  client queues are heap objects: \<open>fq_heap\<close> maps the live addresses to their queues, \<^verbatim>\<open>clients_\<close> and
  \<^verbatim>\<open>queues_\<close> hold addresses. A failed \<^verbatim>\<open>ASSERT\<close> and the use of a dead address are \<open>None\<close>.

  Both \<^verbatim>\<open>Pop\<close>s keep a reference to the front of a deque across \<^verbatim>\<open>pop_front\<close> (\<^verbatim>\<open>fair_queue.cc:17\<close>,
  \<^verbatim>\<open>fair_queue.cc:51\<close>). Reading it is undefined. \<open>cq_Pop\<close> and \<open>fq_Pop\<close> read the element that was
  removed, the value the program relies on; \<open>cq_Pop_ref\<close> and \<open>fq_Pop_ref\<close> keep the references of the code, and
  their argument says whether the storage of a removed element still holds its value or is dead, as the
  rules of the language have it.
\<close>

section \<open>Client queues\<close>

record Request =
  request_id :: u64
  client_id :: u64

record ClientReqeustQueue =
  cq_client :: u64
  pendings :: "Request list"

definition ClientReqeustQueue_new :: "u64 \<Rightarrow> ClientReqeustQueue" where
  "ClientReqeustQueue_new client = \<lparr>cq_client = client, pendings = []\<rparr>"

definition cq_Push :: "Request \<Rightarrow> ClientReqeustQueue \<Rightarrow> ClientReqeustQueue option" where
  "cq_Push req q =
     (if client_id req = cq_client q then Some (q\<lparr>pendings := pendings q @ [req]\<rparr>) else None)"

text \<open>The request, whether the queue is now empty, and the queue.\<close>

definition cq_Pop :: "ClientReqeustQueue \<Rightarrow> (Request \<times> bool \<times> ClientReqeustQueue) option" where
  "cq_Pop q =
     (case pendings q of
        [] \<Rightarrow> None
      | front # rest \<Rightarrow> Some (front, rest = [], q\<lparr>pendings := rest\<rparr>))"

definition cq_Size :: "ClientReqeustQueue \<Rightarrow> nat" where
  "cq_Size q = length (pendings q)"

interpretation cq: fifo_queue cq_Push "\<lambda>q. map_option (\<lambda>(r, _, q'). (Some r, q')) (cq_Pop q)"
    pendings "\<lambda>q. True" "\<lambda>q r. client_id r = cq_client q"
  by unfold_locales (auto simp: cq_Push_def cq_Pop_def)

section \<open>The fair queue\<close>

record RequestFairQueue =
  clients :: "(u64 \<times> nat) list"
  queues :: "nat list"
  fq_heap :: "nat \<rightharpoonup> ClientReqeustQueue"
  fq_next :: nat

definition RequestFairQueue_new :: RequestFairQueue where
  "RequestFairQueue_new = \<lparr>clients = [], queues = [], fq_heap = Map.empty, fq_next = 0\<rparr>"

definition fq_Push :: "Request \<Rightarrow> RequestFairQueue \<Rightarrow> RequestFairQueue option" where
  "fq_Push req s =
     (case map_of (clients s) (client_id req) of
        None \<Rightarrow>
          (let p = fq_next s in
           map_option (\<lambda>q. s\<lparr>fq_heap := (fq_heap s)(p \<mapsto> q), fq_next := p + 1,
                             clients := (client_id req, p) # clients s, queues := queues s @ [p]\<rparr>)
             (cq_Push req (ClientReqeustQueue_new (client_id req))))
      | Some p \<Rightarrow>
          (case fq_heap s p of
             None \<Rightarrow> None
           | Some q \<Rightarrow> map_option (\<lambda>q'. s\<lparr>fq_heap := (fq_heap s)(p \<mapsto> q')\<rparr>) (cq_Push req q)))"

definition fq_Pop :: "RequestFairQueue \<Rightarrow> (Request option \<times> RequestFairQueue) option" where
  "fq_Pop s =
     (if clients s = [] then Some (None, s)
      else
        (case queues s of
           [] \<Rightarrow> None
         | front # rest \<Rightarrow>
             (case fq_heap s front of
                None \<Rightarrow> None
              | Some q \<Rightarrow>
                  (case cq_Pop q of
                     None \<Rightarrow> None
                   | Some (req, drained, q') \<Rightarrow>
                       (let s1 = s\<lparr>queues := rest, fq_heap := (fq_heap s)(front \<mapsto> q')\<rparr> in
                        if drained
                        then Some (Some req, s1\<lparr>clients := AList.delete (cq_client q') (clients s1)\<rparr>)
                        else Some (Some req, s1\<lparr>queues := queues s1 @ [front]\<rparr>))))))"

definition ClientSize :: "RequestFairQueue \<Rightarrow> nat" where
  "ClientSize s = length (clients s)"

definition RequestFairQueue_dtor :: "RequestFairQueue \<Rightarrow> RequestFairQueue" where
  "RequestFairQueue_dtor s =
     (fold (\<lambda>q s. s\<lparr>fq_heap := (fq_heap s)(q := None)\<rparr>) (queues s) s)\<lparr>clients := [], queues := []\<rparr>"

datatype fq_op = FPush Request | FPop

fun fq_step :: "fq_op \<Rightarrow> RequestFairQueue \<Rightarrow> (Request option \<times> RequestFairQueue) option" where
  "fq_step (FPush req) s = map_option (Pair None) (fq_Push req s)"
| "fq_step FPop s = fq_Pop s"

section \<open>References into a deque\<close>

text \<open>The elements a deque has had, of which the first ones have been removed. A reference is a position among
  them; \<open>keeps\<close> says whether the storage of a removed element still holds its value.\<close>

record 'a deque =
  dq_slots :: "'a list"
  dq_begin :: nat

definition deque_of :: "'a list \<Rightarrow> 'a deque" where
  "deque_of xs = \<lparr>dq_slots = xs, dq_begin = 0\<rparr>"

definition dq_elems :: "'a deque \<Rightarrow> 'a list" where
  "dq_elems d = drop (dq_begin d) (dq_slots d)"

definition dq_front :: "'a deque \<Rightarrow> nat option" where
  "dq_front d = (if dq_elems d = [] then None else Some (dq_begin d))"

definition dq_pop_front :: "'a deque \<Rightarrow> 'a deque option" where
  "dq_pop_front d = (if dq_elems d = [] then None else Some (d\<lparr>dq_begin := Suc (dq_begin d)\<rparr>))"

definition dq_emplace_back :: "'a \<Rightarrow> 'a deque \<Rightarrow> 'a deque" where
  "dq_emplace_back x d = d\<lparr>dq_slots := dq_slots d @ [x]\<rparr>"

definition dq_read :: "bool \<Rightarrow> 'a deque \<Rightarrow> nat \<Rightarrow> 'a option" where
  "dq_read keeps d r =
     (if r < length (dq_slots d) \<and> (dq_begin d \<le> r \<or> keeps) then Some (dq_slots d ! r) else None)"

definition cq_Pop_ref :: "bool \<Rightarrow> ClientReqeustQueue \<Rightarrow> (Request \<times> bool \<times> ClientReqeustQueue) option" where
  "cq_Pop_ref keeps q =
     do {
       front \<leftarrow> dq_front (deque_of (pendings q));
       d \<leftarrow> dq_pop_front (deque_of (pendings q));
       req \<leftarrow> dq_read keeps d front;
       Some (req, dq_elems d = [], q\<lparr>pendings := dq_elems d\<rparr>)
     }"

definition fq_Pop_ref :: "bool \<Rightarrow> RequestFairQueue \<Rightarrow> (Request option \<times> RequestFairQueue) option" where
  "fq_Pop_ref keeps s =
     (if clients s = [] then Some (None, s)
      else
        do {
          front \<leftarrow> dq_front (deque_of (queues s));
          d \<leftarrow> dq_pop_front (deque_of (queues s));
          p \<leftarrow> dq_read keeps d front;
          q \<leftarrow> fq_heap s p;
          (req, drained, q') \<leftarrow> cq_Pop_ref keeps q;
          p' \<leftarrow> dq_read keeps d front;
          let s1 = s\<lparr>fq_heap := (fq_heap s)(p \<mapsto> q')\<rparr>;
          if drained
          then do {
            c \<leftarrow> fq_heap s1 p';
            Some (Some req, s1\<lparr>queues := dq_elems d, clients := AList.delete (cq_client c) (clients s1)\<rparr>)
          }
          else Some (Some req, s1\<lparr>queues := dq_elems (dq_emplace_back p' d)\<rparr>)
        })"

fun fq_step_ref :: "bool \<Rightarrow> fq_op \<Rightarrow> RequestFairQueue \<Rightarrow> (Request option \<times> RequestFairQueue) option" where
  "fq_step_ref keeps (FPush req) s = map_option (Pair None) (fq_Push req s)"
| "fq_step_ref keeps FPop s = fq_Pop_ref keeps s"

lemmas deque_defs = deque_of_def dq_elems_def dq_front_def dq_pop_front_def dq_emplace_back_def dq_read_def

text \<open>With storage that keeps removed elements the references read what \<open>cq_Pop\<close> and \<open>fq_Pop\<close> read.\<close>

lemma cq_Pop_ref_keeps: "cq_Pop_ref True q = cq_Pop q"
  by (cases "pendings q") (simp_all add: cq_Pop_ref_def cq_Pop_def deque_defs)

lemma fq_Pop_ref_keeps: "fq_Pop_ref True s = fq_Pop s"
proof (cases "queues s")
  case (Cons p ps)
  then show ?thesis
    by (auto simp: fq_Pop_ref_def fq_Pop_def deque_defs cq_Pop_ref_keeps Let_def split: option.splits prod.splits)
qed (simp add: fq_Pop_ref_def fq_Pop_def deque_defs)

lemma fq_step_ref_keeps: "fq_step_ref True = fq_step"
proof (intro ext)
  fix op s show "fq_step_ref True op s = fq_step op s" by (cases op) (simp_all add: fq_Pop_ref_keeps)
qed

text \<open>With dead references a pop that has a client to serve is undefined.\<close>

lemma fq_Pop_ref_dead: "clients s \<noteq> [] \<Longrightarrow> fq_Pop_ref False s = None"
  by (cases "queues s") (simp_all add: fq_Pop_ref_def deque_defs)

lemma fq_Pop_serves: "clients s \<noteq> [] \<Longrightarrow> fq_Pop s = Some (r, s') \<Longrightarrow> r \<noteq> None"
  by (auto simp: fq_Pop_def Let_def split: list.splits option.splits prod.splits if_splits)

lemma fq_step_ref_dead:
  "fq_step_ref False op s = (case fq_step op s of Some (None, s') \<Rightarrow> Some (None, s') | _ \<Rightarrow> None)"
proof (cases op)
  case FPop
  show ?thesis
  proof (cases "clients s = []")
    case True
    then show ?thesis by (simp add: FPop fq_Pop_ref_def fq_Pop_def)
  next
    case False
    then show ?thesis using fq_Pop_serves [OF False]
      by (auto simp: FPop fq_Pop_ref_dead split: option.splits)
  qed
qed (auto split: option.splits)

lemma run_ref_dead:
  "run fq_step ops s = Some (rs, s') \<Longrightarrow>
     run (fq_step_ref False) ops s = (if list_all (\<lambda>r. r = None) rs then Some (rs, s') else None)"
proof (induction ops arbitrary: s rs)
  case (Cons op ops)
  then obtain r s1 rs1 where r: "fq_step op s = Some (r, s1)" "run fq_step ops s1 = Some (rs1, s')" "rs = r # rs1"
    by (auto split: option.splits prod.splits)
  show ?case using Cons.IH [OF r(2)] by (cases r) (auto simp: fq_step_ref_dead r(1,3))
qed simp

section \<open>Specification: round robin\<close>

text \<open>The clients with pending requests in the order of service, each with its requests.\<close>

type_synonym turns = "(u64 \<times> Request list) list"

definition rr_push :: "Request \<Rightarrow> turns \<Rightarrow> turns" where
  "rr_push req xs =
     (if client_id req \<in> fst ` set xs
      then map (\<lambda>(c, rs). (c, if c = client_id req then rs @ [req] else rs)) xs
      else xs @ [(client_id req, [req])])"

fun rr_step :: "fq_op \<Rightarrow> turns \<Rightarrow> Request option \<times> turns" where
  "rr_step (FPush req) xs = (None, rr_push req xs)"
| "rr_step FPop [] = (None, [])"
| "rr_step FPop ((c, []) # xs) = (None, xs)"
| "rr_step FPop ((c, r # rs) # xs) = (Some r, if rs = [] then xs else xs @ [(c, rs)])"

definition client_at :: "RequestFairQueue \<Rightarrow> nat \<Rightarrow> u64" where
  "client_at s p = cq_client (the (fq_heap s p))"

definition turns_of :: "RequestFairQueue \<Rightarrow> turns" where
  "turns_of s = map (\<lambda>p. (client_at s p, pendings (the (fq_heap s p)))) (queues s)"

definition fq_inv :: "RequestFairQueue \<Rightarrow> bool" where
  "fq_inv s \<longleftrightarrow>
     distinct (queues s) \<and> distinct (map (client_at s) (queues s)) \<and> distinct (map fst (clients s)) \<and>
     set (clients s) = (\<lambda>p. (client_at s p, p)) ` set (queues s) \<and>
     (\<forall>p\<in>set (queues s). p < fq_next s \<and>
        (\<exists>q. fq_heap s p = Some q \<and> pendings q \<noteq> [] \<and> (\<forall>r\<in>set (pendings q). client_id r = cq_client q)))"

lemma fq_invD:
  assumes "fq_inv s"
  shows fq_distinct: "distinct (queues s)"
    and fq_clients_distinct: "distinct (map (client_at s) (queues s))"
    and fq_keys: "distinct (map fst (clients s))"
    and fq_set: "set (clients s) = (\<lambda>p. (client_at s p, p)) ` set (queues s)"
    and fq_live: "p \<in> set (queues s) \<Longrightarrow> p < fq_next s \<and>
        (\<exists>q. fq_heap s p = Some q \<and> pendings q \<noteq> [] \<and> (\<forall>r\<in>set (pendings q). client_id r = cq_client q))"
  using assms unfolding fq_inv_def by blast+

lemma new_fq_inv: "fq_inv RequestFairQueue_new" and turns_of_new: "turns_of RequestFairQueue_new = []"
  by (simp_all add: fq_inv_def RequestFairQueue_new_def turns_of_def)

lemma push_new_client:
  assumes inv: "fq_inv s" and new: "map_of (clients s) (client_id req) = None"
  shows "\<exists>s'. fq_Push req s = Some s' \<and> fq_inv s' \<and> turns_of s' = rr_push req (turns_of s)"
proof -
  define p where "p = fq_next s"
  define q where "q = \<lparr>cq_client = client_id req, pendings = [req]\<rparr>"
  define s' where "s' = s\<lparr>fq_heap := (fq_heap s)(p \<mapsto> q), fq_next := p + 1,
                             clients := (client_id req, p) # clients s, queues := queues s @ [p]\<rparr>"
  have push: "fq_Push req s = Some s'"
    by (simp add: fq_Push_def new Let_def s'_def p_def q_def cq_Push_def ClientReqeustQueue_new_def)
  have fresh: "p \<notin> set (queues s)" using fq_live [OF inv, of p] by (auto simp: p_def)
  have at: "client_at s' x = (if x = p then client_id req else client_at s x)" for x
    by (simp add: client_at_def s'_def q_def)
  have absent: "\<forall>x\<in>set (queues s). client_at s x \<noteq> client_id req"
    using new fq_set [OF inv] by (force simp: map_of_eq_None_iff)
  have same: "map (client_at s') (queues s) = map (client_at s) (queues s)"
    using fresh by (auto simp: at)
  have keys: "fst ` set (clients s) = client_at s ` set (queues s)"
    unfolding fq_set [OF inv] by force
  have flds: "queues s' = queues s @ [p]" "clients s' = (client_id req, p) # clients s" by (simp_all add: s'_def)
  have "distinct (queues s')" using fq_distinct [OF inv] fresh by (simp add: flds)
  moreover have "distinct (map (client_at s') (queues s'))"
    using fq_clients_distinct [OF inv] absent unfolding flds map_append same by (auto simp: at)
  moreover have "distinct (map fst (clients s'))"
    using fq_keys [OF inv] absent keys by (auto simp: s'_def)
  moreover have "set (clients s') = (\<lambda>x. (client_at s' x, x)) ` set (queues s')"
  proof -
    have "(\<lambda>x. (client_at s' x, x)) ` set (queues s) = (\<lambda>x. (client_at s x, x)) ` set (queues s)"
      using fresh by (intro image_cong) (auto simp: at)
    then show ?thesis using fq_set [OF inv] by (simp add: at flds)
  qed
  moreover have "\<forall>x\<in>set (queues s'). x < fq_next s' \<and>
      (\<exists>q. fq_heap s' x = Some q \<and> pendings q \<noteq> [] \<and> (\<forall>r\<in>set (pendings q). client_id r = cq_client q))"
    using fq_live [OF inv] by (auto simp: s'_def p_def q_def less_SucI)
  ultimately have inv': "fq_inv s'" unfolding fq_inv_def by blast
  have "client_id req \<notin> fst ` set (turns_of s)" using absent by (auto simp: turns_of_def)
  moreover have "map (\<lambda>x. (client_at s' x, pendings (the (fq_heap s' x)))) (queues s) = turns_of s"
    using fresh by (auto simp: turns_of_def at) (auto simp: s'_def)
  moreover have "pendings (the (fq_heap s' p)) = [req]" by (simp add: s'_def q_def)
  ultimately have "turns_of s' = rr_push req (turns_of s)"
    unfolding turns_of_def [of s'] flds map_append by (simp add: at rr_push_def)
  with push inv' show ?thesis by blast
qed

lemma push_known_client:
  assumes inv: "fq_inv s" and old: "map_of (clients s) (client_id req) = Some p"
  shows "\<exists>s'. fq_Push req s = Some s' \<and> fq_inv s' \<and> turns_of s' = rr_push req (turns_of s)"
proof -
  have p: "p \<in> set (queues s)" "client_at s p = client_id req"
    using map_of_SomeD [OF old] fq_set [OF inv] by auto
  obtain q where q: "fq_heap s p = Some q" "pendings q \<noteq> []" "\<forall>r\<in>set (pendings q). client_id r = cq_client q"
    using fq_live [OF inv p(1)] by blast
  have cl: "cq_client q = client_id req" using p(2) q(1) by (simp add: client_at_def)
  obtain q' where q': "cq_Push req q = Some q'" "pendings q' = pendings q @ [req]"
    using cq.enq_items [of req q] cl by auto
  then have cl': "cq_client q' = client_id req" using cl by (auto simp: cq_Push_def split: if_splits)
  define s' where "s' = s\<lparr>fq_heap := (fq_heap s)(p \<mapsto> q')\<rparr>"
  have push: "fq_Push req s = Some s'" by (simp add: fq_Push_def old q(1) q'(1) s'_def)
  have at: "client_at s' = client_at s"
    using p(2) by (auto simp: fun_eq_iff client_at_def s'_def cl' q(1))
  have same: "queues s' = queues s" "clients s' = clients s" "fq_next s' = fq_next s" by (simp_all add: s'_def)
  have live: "\<forall>x\<in>set (queues s). x < fq_next s \<and>
      (\<exists>q. fq_heap s' x = Some q \<and> pendings q \<noteq> [] \<and> (\<forall>r\<in>set (pendings q). client_id r = cq_client q))"
    using fq_live [OF inv] q q'(2) cl cl' by (auto simp: s'_def)
  then have inv': "fq_inv s'"
    using inv unfolding fq_inv_def at same by blast
  have one: "client_at s x = client_id req \<longleftrightarrow> x = p" if "x \<in> set (queues s)" for x
    using fq_clients_distinct [OF inv] that p by (auto simp: distinct_map inj_on_def)
  have "client_id req \<in> fst ` set (turns_of s)"
    using p by (force simp: turns_of_def)
  moreover have "turns_of s' = map (\<lambda>(c, rs). (c, if c = client_id req then rs @ [req] else rs)) (turns_of s)"
    using one by (auto simp: turns_of_def at same) (auto simp: s'_def q'(2) q(1))
  ultimately have "turns_of s' = rr_push req (turns_of s)" by (simp add: rr_push_def)
  with push inv' show ?thesis by blast
qed

text \<open>Taking a request from the queue at the front changes that queue only; \<open>popped_heap\<close> is the heap after it.\<close>

definition popped_heap :: "RequestFairQueue \<Rightarrow> nat \<Rightarrow> nat \<rightharpoonup> ClientReqeustQueue" where
  "popped_heap s p = (fq_heap s)(p \<mapsto> (the (fq_heap s p))\<lparr>pendings := tl (pendings (the (fq_heap s p)))\<rparr>)"

lemma popped_heap_client:
  "fq_heap s p = Some q \<Longrightarrow> client_at (s\<lparr>fq_heap := popped_heap s p\<rparr>) = client_at s"
  by (auto simp: fun_eq_iff client_at_def popped_heap_def)

lemma front_facts:
  assumes inv: "fq_inv s" and front: "queues s = p # ps" "fq_heap s p = Some q" "pendings q = r # rs"
  shows "turns_of s = (cq_client q, r # rs) # map (\<lambda>x. (client_at s x, pendings (the (popped_heap s p x)))) ps"
    and "\<forall>x\<in>set ps. client_at s x \<noteq> cq_client q"
    and "\<forall>x\<in>set ps. x < fq_next s \<and> (\<exists>q. popped_heap s p x = Some q \<and> pendings q \<noteq> [] \<and>
           (\<forall>r\<in>set (pendings q). client_id r = cq_client q))"
proof -
  have p: "p \<notin> set ps" using fq_distinct [OF inv] front(1) by auto
  have cp: "client_at s p = cq_client q" by (simp add: client_at_def front(2))
  have same: "popped_heap s p x = fq_heap s x" if "x \<in> set ps" for x
    using that p by (auto simp: popped_heap_def)
  show "turns_of s = (cq_client q, r # rs) # map (\<lambda>x. (client_at s x, pendings (the (popped_heap s p x)))) ps"
    by (simp add: turns_of_def front cp same cong: map_cong)
  show "\<forall>x\<in>set ps. client_at s x \<noteq> cq_client q"
    using fq_clients_distinct [OF inv] front(1) cp by (auto simp: image_iff)
  show "\<forall>x\<in>set ps. x < fq_next s \<and> (\<exists>q. popped_heap s p x = Some q \<and> pendings q \<noteq> [] \<and>
      (\<forall>r\<in>set (pendings q). client_id r = cq_client q))"
    using fq_live [OF inv] front(1) by (simp add: same)
qed

lemma pop_last_request:
  assumes inv: "fq_inv s" and front: "queues s = p # ps" "fq_heap s p = Some q" "pendings q = [r]"
  shows "\<exists>s'. fq_Pop s = Some (Some r, s') \<and> fq_inv s' \<and>
    turns_of s' = map (\<lambda>x. (client_at s x, pendings (the (popped_heap s p x)))) ps"
proof -
  note facts = front_facts [OF inv front]
  define s' where
    "s' = s\<lparr>queues := ps, fq_heap := popped_heap s p, clients := AList.delete (cq_client q) (clients s)\<rparr>"
  have at: "client_at s' = client_at s"
    using popped_heap_client [OF front(2)] by (simp add: fun_eq_iff client_at_def s'_def)
  have ne: "clients s \<noteq> []" using fq_set [OF inv] front(1) by auto
  have cp: "client_at s p = cq_client q" by (simp add: client_at_def front(2))
  have pop: "fq_Pop s = Some (Some r, s')"
    using ne by (simp add: fq_Pop_def front cq_Pop_def Let_def s'_def popped_heap_def)
  have "set (clients s') = {x \<in> set (clients s). fst x \<noteq> cq_client q}"
    by (auto simp: s'_def AList.delete_eq)
  also have "\<dots> = (\<lambda>x. (client_at s x, x)) ` set ps"
    unfolding fq_set [OF inv] front(1) using cp facts(2) by auto
  finally have "fq_inv s'"
    using facts(3) fq_distinct [OF inv] fq_clients_distinct [OF inv] distinct_delete [OF fq_keys [OF inv], of "cq_client q"]
    unfolding fq_inv_def at by (simp add: front(1)) (simp add: s'_def)
  moreover have "turns_of s' = map (\<lambda>x. (client_at s x, pendings (the (popped_heap s p x)))) ps"
    by (simp add: turns_of_def at) (simp add: s'_def)
  ultimately show ?thesis using pop by blast
qed

lemma pop_and_requeue:
  assumes inv: "fq_inv s" and front: "queues s = p # ps" "fq_heap s p = Some q" "pendings q = r # rs"
    and more: "rs \<noteq> []"
  shows "\<exists>s'. fq_Pop s = Some (Some r, s') \<and> fq_inv s' \<and>
    turns_of s' = map (\<lambda>x. (client_at s x, pendings (the (popped_heap s p x)))) ps @ [(cq_client q, rs)]"
proof -
  note facts = front_facts [OF inv front]
  define s' where "s' = s\<lparr>queues := ps @ [p], fq_heap := popped_heap s p\<rparr>"
  have at: "client_at s' = client_at s"
    using popped_heap_client [OF front(2)] by (simp add: fun_eq_iff client_at_def s'_def)
  have ne: "clients s \<noteq> []" using fq_set [OF inv] front(1) by auto
  have cp: "client_at s p = cq_client q" by (simp add: client_at_def front(2))
  have pop: "fq_Pop s = Some (Some r, s')"
    using ne more by (simp add: fq_Pop_def front cq_Pop_def Let_def s'_def popped_heap_def)
  have "p < fq_next s \<and> (\<exists>q. popped_heap s p p = Some q \<and> pendings q \<noteq> [] \<and>
      (\<forall>r\<in>set (pendings q). client_id r = cq_client q))"
    using fq_live [OF inv, of p] front more by (auto simp: popped_heap_def)
  then have "fq_inv s'"
    using facts(2,3) cp fq_distinct [OF inv] fq_clients_distinct [OF inv] fq_keys [OF inv] fq_set [OF inv]
    unfolding fq_inv_def at by (simp add: front(1)) (auto simp: s'_def)
  moreover have "turns_of s' =
      map (\<lambda>x. (client_at s x, pendings (the (popped_heap s p x)))) ps @ [(cq_client q, rs)]"
    by (simp add: turns_of_def at) (simp add: s'_def popped_heap_def cp front)
  ultimately show ?thesis using pop by blast
qed

lemma pop_refines:
  assumes inv: "fq_inv s"
  shows "\<exists>r s'. fq_Pop s = Some (r, s') \<and> fq_inv s' \<and> rr_step FPop (turns_of s) = (r, turns_of s')"
proof (cases "queues s")
  case Nil
  then have "clients s = []" using fq_set [OF inv] by simp
  then show ?thesis using inv by (simp add: fq_Pop_def turns_of_def Nil)
next
  case (Cons p ps)
  obtain q where q: "fq_heap s p = Some q" "pendings q \<noteq> []"
    using fq_live [OF inv, of p] Cons by auto
  then obtain r rs where rs: "pendings q = r # rs" by (cases "pendings q") auto
  note turn = front_facts(1) [OF inv Cons q(1) rs]
  show ?thesis
  proof (cases "rs = []")
    case True
    then show ?thesis using pop_last_request [OF inv Cons q(1)] rs turn by auto
  next
    case False
    then show ?thesis using pop_and_requeue [OF inv Cons q(1) rs False] turn by auto
  qed
qed

interpretation fair: op_refinement fq_step rr_step turns_of fq_inv "\<lambda>op s. True"
proof unfold_locales
  fix s op assume inv: "fq_inv s"
  show "\<exists>r s'. fq_step op s = Some (r, s') \<and> fq_inv s' \<and> rr_step op (turns_of s) = (r, turns_of s')"
  proof (cases op)
    case (FPush req)
    show ?thesis
      using push_new_client [OF inv] push_known_client [OF inv]
      by (cases "map_of (clients s) (client_id req)") (fastforce simp: FPush)+
  qed (use pop_refines [OF inv] in simp)
qed

lemma run_fq:
  obtains rs s where "run fq_step ops RequestFairQueue_new = Some (rs, s)" "fq_inv s"
    "spec_run rr_step ops [] = (rs, turns_of s)"
  using fair.run_refines [OF new_fq_inv, of ops] by (auto simp: turns_of_new)

section \<open>Bounded waiting\<close>

lemma rr_push_at:
  "i < length xs \<Longrightarrow> xs ! i = (c, r # rs) \<Longrightarrow>
     i < length (rr_push req xs) \<and> (\<exists>rs'. rr_push req xs ! i = (c, r # rs'))"
  by (auto simp: rr_push_def nth_append)

lemma rr_pop_at:
  assumes "Suc i < length xs" "xs ! Suc i = (c, r # rs)" "rr_step FPop xs = (res, xs')"
  shows "i < length xs' \<and> xs' ! i = (c, r # rs)"
proof -
  obtain d ds ys where "xs = (d, ds) # ys" using assms(1) by (cases xs) auto
  then show ?thesis using assms by (cases ds) (auto simp: nth_append split: if_splits)
qed

lemma rr_bounded_wait:
  assumes "i < length xs" "xs ! i = (c, r # rs)" "length (filter (\<lambda>op. op = FPop) ops) = i"
  shows "last (fst (spec_run rr_step (ops @ [FPop]) xs)) = Some r"
  using assms
proof (induction ops arbitrary: xs i rs)
  case Nil
  then obtain ys where "xs = (c, r # rs) # ys" by (cases xs) auto
  then show ?case by simp
next
  case (Cons op ops)
  obtain res xs' where step: "rr_step op xs = (res, xs')" by fastforce
  have nxt: "\<exists>rs'. j < length xs' \<and> xs' ! j = (c, r # rs')"
    if "j = (if op = FPop then i - 1 else i)" for j
  proof (cases op)
    case (FPush req)
    then show ?thesis using that step rr_push_at [OF Cons.prems(1,2), of req] by auto
  next
    case FPop
    then obtain k where "i = Suc k" using Cons.prems(3) by auto
    then show ?thesis using that step rr_pop_at [of k xs c r rs res xs'] Cons.prems(1,2) FPop by auto
  qed
  have j: "length (filter (\<lambda>op. op = FPop) ops) = (if op = FPop then i - 1 else i)"
    using Cons.prems(3) by (cases op) auto
  obtain rs' where "length (filter (\<lambda>op. op = FPop) ops) < length xs'"
      "xs' ! length (filter (\<lambda>op. op = FPop) ops) = (c, r # rs')"
    using nxt [OF j] by blast
  from Cons.IH [OF this refl] have IH: "last (fst (spec_run rr_step (ops @ [FPop]) xs')) = Some r" .
  have "fst (spec_run rr_step (ops @ [FPop]) xs') \<noteq> []"
    using length_spec_run [of rr_step "ops @ [FPop]" xs'] by (metis length_0_conv length_append_singleton nat.distinct(1))
  then show ?case using IH by (auto simp: step Let_def split: prod.splits)
qed

section \<open>Nothing lost, first in first out per client\<close>

definition pending :: "turns \<Rightarrow> u64 \<Rightarrow> Request list" where
  "pending xs c = (case map_of xs c of None \<Rightarrow> [] | Some rs \<Rightarrow> rs)"

fun pushed :: "fq_op list \<Rightarrow> u64 \<Rightarrow> Request list" where
  "pushed [] c = []"
| "pushed (FPush req # ops) c = (if client_id req = c then [req] else []) @ pushed ops c"
| "pushed (FPop # ops) c = pushed ops c"

fun popped_of :: "Request option list \<Rightarrow> u64 \<Rightarrow> Request list" where
  "popped_of [] c = []"
| "popped_of (r # rs) c =
     (case r of None \<Rightarrow> [] | Some req \<Rightarrow> if client_id req = c then [req] else []) @ popped_of rs c"

definition turns_ok :: "turns \<Rightarrow> bool" where
  "turns_ok xs \<longleftrightarrow> distinct (map fst xs) \<and>
     (\<forall>c rs. (c, rs) \<in> set xs \<longrightarrow> rs \<noteq> [] \<and> (\<forall>r\<in>set rs. client_id r = c))"

lemma map_of_keyed: "map_of (map (\<lambda>(k, v). (k, f k v)) xs) k = map_option (f k) (map_of xs k)"
  by (induction xs) auto

lemma rr_push_pending:
  assumes "turns_ok xs"
  shows "turns_ok (rr_push req xs) \<and>
    pending (rr_push req xs) c = pending xs c @ (if client_id req = c then [req] else [])"
proof (cases "client_id req \<in> fst ` set xs")
  case True
  have "map fst (map (\<lambda>(c, rs). (c, if c = client_id req then rs @ [req] else rs)) xs) = map fst xs"
    by (induction xs) auto
  then have keys: "distinct (map fst (rr_push req xs))" using assms True by (simp add: turns_ok_def rr_push_def del: map_map)
  have "\<forall>c rs. (c, rs) \<in> set (rr_push req xs) \<longrightarrow> rs \<noteq> [] \<and> (\<forall>r\<in>set rs. client_id r = c)"
  proof (clarify)
    fix d ds assume "(d, ds) \<in> set (rr_push req xs)"
    then obtain es where "(d, es) \<in> set xs" "ds = (if d = client_id req then es @ [req] else es)"
      using True by (auto simp: rr_push_def)
    then show "ds \<noteq> [] \<and> (\<forall>r\<in>set ds. client_id r = d)"
      using assms by (auto simp: turns_ok_def split: if_splits)
  qed
  with keys have "turns_ok (rr_push req xs)" by (simp add: turns_ok_def)
  moreover have "\<exists>rs. map_of xs (client_id req) = Some rs"
    using True by (metis not_None_eq map_of_eq_None_iff)
  ultimately show ?thesis
    using True map_of_keyed [of "\<lambda>c rs. if c = client_id req then rs @ [req] else rs" xs c]
    by (auto simp: rr_push_def pending_def split: option.splits)
next
  case False
  then have "map_of xs (client_id req) = None" by (simp add: map_of_eq_None_iff)
  then show ?thesis
    using False assms
    by (auto simp: turns_ok_def rr_push_def pending_def map_add_def split: option.splits)
qed

lemma rr_pop_pending:
  assumes "turns_ok xs" "rr_step FPop xs = (res, xs')"
  shows "turns_ok xs' \<and> popped_of [res] c @ pending xs' c = pending xs c"
proof (cases xs)
  case Nil
  then show ?thesis using assms by (auto simp: turns_ok_def)
next
  case (Cons p ys)
  obtain d ds where p: "p = (d, ds)" by fastforce
  then obtain r rs where ds: "ds = r # rs" using assms(1) Cons by (cases ds) (auto simp: turns_ok_def)
  have d: "client_id r = d" "map_of ys d = None"
    using assms(1) by (auto simp: turns_ok_def Cons p ds map_of_eq_None_iff)
  have ys: "turns_ok ys" and rs: "\<forall>r\<in>set rs. client_id r = d"
    using assms(1) by (simp_all add: turns_ok_def Cons p ds)
  have res: "res = Some r" "xs' = (if rs = [] then ys else ys @ [(d, rs)])"
    using assms(2) by (auto simp: Cons p ds)
  have "turns_ok (ys @ [(d, rs)])" if "rs \<noteq> []"
    using ys rs d(2) that by (simp add: turns_ok_def map_of_eq_None_iff)
  then have "turns_ok xs'" using ys res(2) by simp
  moreover have "popped_of [res] c @ pending xs' c = pending xs c"
    using d by (auto simp: res Cons p ds pending_def map_add_def split: option.split)
  ultimately show ?thesis by simp
qed

lemma rr_run_pending:
  "turns_ok xs \<Longrightarrow> spec_run rr_step ops xs = (rs, xs') \<Longrightarrow>
     turns_ok xs' \<and> popped_of rs c @ pending xs' c = pending xs c @ pushed ops c"
proof (induction ops arbitrary: xs rs)
  case (Cons op ops)
  obtain res xs1 where step: "rr_step op xs = (res, xs1)" by fastforce
  obtain rs1 where rest: "spec_run rr_step ops xs1 = (rs1, xs')" "rs = res # rs1"
    using Cons.prems(2) by (auto simp: step Let_def split: prod.splits)
  have one: "turns_ok xs1 \<and> popped_of [res] c @ pending xs1 c = pending xs c @ pushed [op] c"
    using rr_push_pending [OF Cons.prems(1)] rr_pop_pending [OF Cons.prems(1), of res xs1 c] step
    by (cases op) auto
  have "pushed (op # ops) c = pushed [op] c @ pushed ops c" by (cases op) auto
  moreover have "popped_of rs c = popped_of [res] c @ popped_of rs1 c" by (simp add: rest(2))
  ultimately show ?case using Cons.IH [OF _ rest(1)] one by (metis append.assoc)
qed simp

lemma ClientSize_turns: "fq_inv s \<Longrightarrow> ClientSize s = length (turns_of s)"
proof -
  assume inv: "fq_inv s"
  have "length (clients s) = card (set (clients s))"
    using fq_keys [OF inv] by (simp add: distinct_card distinct_map)
  also have "\<dots> = card (set (queues s))"
    unfolding fq_set [OF inv] by (rule card_image) (auto simp: inj_on_def)
  also have "\<dots> = length (queues s)" by (rule distinct_card [OF fq_distinct [OF inv]])
  finally show ?thesis by (simp add: ClientSize_def turns_of_def)
qed

section \<open>The driver of main.cc\<close>

definition NextRequest :: "u64 \<Rightarrow> u64 \<Rightarrow> Request \<times> u64" where
  "NextRequest next_id client = (\<lparr>request_id = next_id, client_id = client\<rparr>, next_id + 1)"

text \<open>A step of the driver and the assertions after it: a push of the client's next request, or a pop
  with the client and request expected (or none); then the expected \<^verbatim>\<open>ClientSize\<close> where it is
  asserted.\<close>

datatype fq_check = DoPush u64 | DoPop "(u64 \<times> u64) option"

fun run_checks :: "(fq_check \<times> nat option) list \<Rightarrow> u64 \<Rightarrow> RequestFairQueue \<Rightarrow> bool" where
  "run_checks [] n s = True"
| "run_checks ((DoPush c, sz) # rest) n s =
     (let (req, n') = NextRequest n c in
      case fq_Push req s of
        None \<Rightarrow> False
      | Some s' \<Rightarrow> (case sz of None \<Rightarrow> True | Some k \<Rightarrow> ClientSize s' = k) \<and> run_checks rest n' s')"
| "run_checks ((DoPop expected, sz) # rest) n s =
     (case fq_Pop s of
        None \<Rightarrow> False
      | Some (r, s') \<Rightarrow>
          map_option (\<lambda>r. (client_id r, request_id r)) r = expected \<and>
          (case sz of None \<Rightarrow> True | Some k \<Rightarrow> ClientSize s' = k) \<and> run_checks rest n s')"

definition TestFairQueueFunctional :: bool where
  "TestFairQueueFunctional \<longleftrightarrow>
     ClientSize RequestFairQueue_new = 0 \<and>
     run_checks
       [(DoPush 0, Some 1), (DoPush 0, Some 1), (DoPop (Some (0, 0)), None), (DoPop (Some (0, 1)), Some 0),
        (DoPush 0, Some 1), (DoPush 0, Some 1), (DoPush 1, Some 2), (DoPush 2, Some 3),
        (DoPop (Some (0, 2)), None), (DoPop (Some (1, 4)), None), (DoPop (Some (2, 5)), None),
        (DoPop (Some (0, 3)), None), (DoPop None, Some 0)]
       0 RequestFairQueue_new"

lemma TestFairQueueFunctional_passes: "TestFairQueueFunctional"
  by (simp add: TestFairQueueFunctional_def ClientSize_def RequestFairQueue_new_def NextRequest_def
      fq_Push_def fq_Pop_def cq_Push_def cq_Pop_def ClientReqeustQueue_new_def Let_def)

section \<open>Properties\<close>

text \<open>C38: As long as the storage of an element removed by \<^verbatim>\<open>pop_front\<close> keeps its value, every sequence of
  pushes and pops on a new queue runs through, with the results of the round robin over the clients that have
  pending requests, and \<^verbatim>\<open>ClientSize\<close> is their number. By the rules of the language, where the references of the
  two \<^verbatim>\<open>Pop\<close>s are dead after \<^verbatim>\<open>pop_front\<close>, a sequence is defined only if no pop in it returns a request.\<close>

theorem fair_queue_refines_round_robin:
  "\<exists>rs s. spec_run rr_step ops [] = (rs, turns_of s) \<and> ClientSize s = length (turns_of s) \<and>
     run (fq_step_ref True) ops RequestFairQueue_new = Some (rs, s) \<and>
     run (fq_step_ref False) ops RequestFairQueue_new = (if list_all (\<lambda>r. r = None) rs then Some (rs, s) else None)"
proof -
  obtain rs s where r: "run fq_step ops RequestFairQueue_new = Some (rs, s)" "fq_inv s"
      "spec_run rr_step ops [] = (rs, turns_of s)"
    by (rule run_fq)
  then show ?thesis
    using ClientSize_turns [OF r(2)] run_ref_dead [OF r(1)] by (simp add: fq_step_ref_keeps)
qed

text \<open>C29: Fairness, granted that the storage of a removed element keeps its value: the oldest request of the
  client that is i-th in turn is returned by the i+1-th pop from now, whatever is pushed in between.\<close>

theorem fair_queue_bounded_wait:
  assumes "run fq_step history RequestFairQueue_new = Some (rs, s)"
    and "i < length (turns_of s)" and "turns_of s ! i = (c, r # pend)"
    and "length (filter (\<lambda>op. op = FPop) ops) = i"
  shows "\<exists>res s'. run fq_step (ops @ [FPop]) s = Some (res, s') \<and> last res = Some r"
proof -
  have "fq_inv s" using run_fq [of history] assms(1) by (metis option.inject prod.inject)
  then obtain res s' where "run fq_step (ops @ [FPop]) s = Some (res, s')"
      "spec_run rr_step (ops @ [FPop]) (turns_of s) = (res, turns_of s')"
    using fair.run_refines [of s "ops @ [FPop]"] by auto
  then show ?thesis using rr_bounded_wait [OF assms(2,3,4)] by auto
qed

theorem fair_queue_bounded_wait_witness:
  "\<exists>res s'. run fq_step ([FPush \<lparr>request_id = 9, client_id = 3\<rparr>, FPop] @ [FPop])
       (the (fq_Push \<lparr>request_id = 8, client_id = 2\<rparr> (the (fq_Push \<lparr>request_id = 7, client_id = 1\<rparr>
          RequestFairQueue_new)))) = Some (res, s') \<and>
     last res = Some \<lparr>request_id = 8, client_id = 2\<rparr>"
  by (rule fair_queue_bounded_wait [where i = 1 and c = 2 and pend = "[]" and rs = "[None, None]" and
        history = "[FPush \<lparr>request_id = 7, client_id = 1\<rparr>, FPush \<lparr>request_id = 8, client_id = 2\<rparr>]"])
    (simp_all add: fq_Push_def cq_Push_def ClientReqeustQueue_new_def RequestFairQueue_new_def Let_def
      turns_of_def client_at_def)

text \<open>Nothing is lost, duplicated or reordered within a client: the requests popped for a client
  followed by those still pending are the requests pushed for it, in order.\<close>

theorem fair_queue_keeps_client_order:
  "\<exists>rs s. run fq_step ops RequestFairQueue_new = Some (rs, s) \<and>
     popped_of rs c @ pending (turns_of s) c = pushed ops c"
proof -
  have "turns_ok []" by (simp add: turns_ok_def)
  then show ?thesis
    using run_fq [of ops] rr_run_pending [of "[]" ops _ _ c] by (metis append_Nil map_of.simps(1) option.simps(4) pending_def)
qed

text \<open>A client queue that has been emptied is never freed: after one push and one pop, destroying
  the fair queue leaves a live block behind.\<close>

theorem emptied_client_queue_leaks:
  "\<exists>rs s. run fq_step [FPush req, FPop] RequestFairQueue_new = Some (rs, s) \<and> ClientSize s = 0 \<and>
     fq_heap (RequestFairQueue_dtor s) 0 = Some \<lparr>cq_client = client_id req, pendings = []\<rparr>"
  by (simp add: fq_Push_def fq_Pop_def cq_Push_def cq_Pop_def ClientReqeustQueue_new_def
      RequestFairQueue_new_def Let_def ClientSize_def RequestFairQueue_dtor_def)

end
