(* ===== verification/Time_Wheel.thy ===== *)
theory Time_Wheel
  imports Prelude
begin

unbundle bit_operations_syntax

text \<open>
  \<^verbatim>\<open>example-time-wheel/time_wheel.{h,cc}\<close>: a hierarchical timing wheel of four levels with 256 slots.
  A \<^verbatim>\<open>Timer*\<close> is a number, \<open>None\<close> is \<^verbatim>\<open>nullptr\<close>; the timer objects are the map \<open>timers\<close>. The callbacks
  are code of the caller: the model records in \<open>fired\<close> which timer's callback runs at which tick, in
  the order of the calls, and assumes that callbacks do not use the wheel themselves.
\<close>

section \<open>The wheel\<close>

type_synonym jiffies = u64

record Timer =
  t_expires :: jiffies
  t_active :: bool
  t_func :: bool

definition TVN_BITS :: nat where "TVN_BITS = 8"
definition TVN_SIZE :: nat where "TVN_SIZE = 256"
definition TVN_NUM :: nat where "TVN_NUM = 4"

record TimeWheel =
  tv :: "nat \<Rightarrow> nat \<Rightarrow> nat list"
  tv_idx :: "nat \<Rightarrow> nat"
  wheel_now :: jiffies
  timers :: "nat \<Rightarrow> Timer"
  fired :: "(nat \<times> jiffies) list"

definition Timer_new :: "jiffies \<Rightarrow> bool \<Rightarrow> Timer" where
  "Timer_new e func = \<lparr>t_expires = e, t_active = True, t_func = func\<rparr>"

definition TimeWheel_new :: "(nat \<Rightarrow> Timer) \<Rightarrow> TimeWheel" where
  "TimeWheel_new ts = \<lparr>tv = (\<lambda>_ _. []), tv_idx = (\<lambda>_. 0), wheel_now = 0, timers = ts, fired = []\<rparr>"

definition Now :: "TimeWheel \<Rightarrow> jiffies" where
  "Now w = wheel_now w"

definition GetLevel :: "jiffies \<Rightarrow> nat" where
  "GetLevel delta =
     (if delta < 2 ^ TVN_BITS then 0
      else if delta < 2 ^ (TVN_BITS * 2) then 1
      else if delta < 2 ^ (TVN_BITS * 3) then 2
      else 3)"

text \<open>\<^verbatim>\<open>adjusted_delta\<close> is an \<^verbatim>\<open>int\<close>: the difference is cut to 32 bits and shifted with its sign.\<close>

definition slot_of :: "nat \<Rightarrow> jiffies \<Rightarrow> nat" where
  "slot_of level delta =
     (if level = 0 then unat (delta AND of_nat (TVN_SIZE - 1))
      else
        (let shift = TVN_BITS * level;
             adjusted_delta = ucast (delta - push_bit shift 1) :: 32 word
         in unat (signed_drop_bit shift adjusted_delta AND of_nat (TVN_SIZE - 1))))"

definition push_slot :: "nat \<Rightarrow> nat \<Rightarrow> nat \<Rightarrow> TimeWheel \<Rightarrow> TimeWheel" where
  "push_slot level slot t w = w\<lparr>tv := (tv w)(level := (tv w level)(slot := tv w level slot @ [t]))\<rparr>"

definition AddTimer :: "nat option \<Rightarrow> TimeWheel \<Rightarrow> bool \<times> TimeWheel" where
  "AddTimer p w =
     (case p of
        None \<Rightarrow> (False, w)
      | Some t \<Rightarrow>
          if \<not> t_active (timers w t) then (False, w)
          else
            (let now = Now w;
                 delta = (if t_expires (timers w t) \<le> now then 0 else t_expires (timers w t) - now)
             in if delta \<ge> push_bit (TVN_NUM * TVN_BITS) 1 then (False, w)
                else
                  (let level = GetLevel delta in (True, push_slot level (slot_of level delta) t w))))"

text \<open>\<^verbatim>\<open>RemoveTimer\<close> tests \<^verbatim>\<open>!t\<close>: it does nothing to a timer and dereferences a null pointer.\<close>

definition RemoveTimer :: "nat option \<Rightarrow> TimeWheel \<Rightarrow> TimeWheel option" where
  "RemoveTimer p w = (if p = None then None else Some w)"

function Cascade :: "nat \<Rightarrow> TimeWheel \<Rightarrow> TimeWheel" where
  "Cascade level w =
     (if level \<ge> TVN_NUM then w
      else
        (let ts = tv w level (tv_idx w level);
             w1 = w\<lparr>tv := (tv w)(level := (tv w level)(tv_idx w level := []))\<rparr>;
             w2 = fold (\<lambda>t w. if t_active (timers w t) then snd (AddTimer (Some t) w) else w) ts w1;
             w3 = w2\<lparr>tv_idx := (tv_idx w2)(level := (tv_idx w2 level + 1) mod TVN_SIZE)\<rparr>
         in if tv_idx w3 level = 0 \<and> level + 1 < TVN_NUM then Cascade (level + 1) w3 else w3))"
  by auto
termination
  by (relation "measure (\<lambda>(level, _). TVN_NUM - level)") auto

declare Cascade.simps [simp del]

text \<open>The loop over the current slot: the timers kept, the expired ones, and the timer objects.\<close>

fun expire_loop :: "jiffies \<Rightarrow> nat list \<Rightarrow> (nat \<Rightarrow> Timer) \<Rightarrow> nat list \<times> nat list \<times> (nat \<Rightarrow> Timer)" where
  "expire_loop now [] ts = ([], [], ts)"
| "expire_loop now (t # it) ts =
     (if \<not> t_active (ts t) then expire_loop now it ts
      else if t_expires (ts t) \<le> now then
        (let (kept, expired, ts') = expire_loop now it (ts(t := (ts t)\<lparr>t_active := False\<rparr>))
         in (kept, t # expired, ts'))
      else
        (let (kept, expired, ts') = expire_loop now it ts in (t # kept, expired, ts')))"

definition Tick :: "TimeWheel \<Rightarrow> TimeWheel" where
  "Tick w =
     (let now = wheel_now w + 1;
          (kept, expired, ts) = expire_loop now (tv w 0 (tv_idx w 0)) (timers w);
          w1 = w\<lparr>wheel_now := now, timers := ts,
                 tv := (tv w)(0 := (tv w 0)(tv_idx w 0 := kept)),
                 fired := fired w @ map (\<lambda>t. (t, now)) (filter (\<lambda>t. t_func (ts t)) expired),
                 tv_idx := (tv_idx w)(0 := (tv_idx w 0 + 1) mod TVN_SIZE)\<rparr>
      in if tv_idx w1 0 = 0 then Cascade 1 w1 else w1)"

section \<open>Levels and slots\<close>

abbreviation B :: nat where "B \<equiv> 256"

lemma GetLevel_unat:
  assumes "delta < 2 ^ 32"
  shows "GetLevel delta < 4" and "unat delta < B ^ Suc (GetLevel delta)"
    and "0 < GetLevel delta \<Longrightarrow> B ^ GetLevel delta \<le> unat delta"
proof -
  have "unat delta < 2 ^ 32" using assms by (simp add: word_less_nat_alt)
  then show "GetLevel delta < 4" "unat delta < B ^ Suc (GetLevel delta)"
    "0 < GetLevel delta \<Longrightarrow> B ^ GetLevel delta \<le> unat delta"
    by (auto simp: GetLevel_def TVN_BITS_def word_less_nat_alt split: if_splits)
qed

lemma slot_of_unat:
  assumes "delta < 2 ^ 32"
  shows "slot_of (GetLevel delta) delta =
    (if GetLevel delta = 0 then unat delta else unat delta div B ^ GetLevel delta - 1)"
proof (cases "GetLevel delta = 0")
  case True
  have "(of_nat (TVN_SIZE - 1) :: u64) = mask 8" by (simp add: TVN_SIZE_def mask_eq_decr_exp)
  then show ?thesis
    using True GetLevel_unat(2) [OF assms] by (simp add: slot_of_def unat_and_mask_mod)
next
  case False
  define l where "l = GetLevel delta"
  have l: "l < 4" "B ^ l \<le> unat delta" "unat delta < B ^ Suc l" "0 < l"
    using GetLevel_unat [OF assms] False by (auto simp: l_def)
  have p: "(2::nat) ^ (8 * l) = B ^ l" by (simp add: power_mult)
  define adj where "adj = (ucast (delta - push_bit (8 * l) 1) :: 32 word)"
  have one: "unat (push_bit (8 * l) 1 :: u64) = B ^ l"
  proof -
    consider "l = 1" | "l = 2" | "l = 3" using l(1,4) by linarith
    then show ?thesis by cases simp_all
  qed
  have d: "unat delta < 2 ^ 32" using assms by (simp add: word_less_nat_alt)
  have "unat (delta - push_bit (8 * l) 1) = unat delta - B ^ l"
    using l(2) one by (simp add: unat_sub word_le_nat_alt)
  then have adj: "unat adj = unat delta - B ^ l"
    using d by (simp add: adj_def unsigned_ucast_eq take_bit_nat_eq_self)
  have m: "(of_nat (TVN_SIZE - 1) :: 32 word) = mask 8" by (simp add: TVN_SIZE_def mask_eq_decr_exp)
  have "signed_drop_bit (8 * l) adj AND mask 8 = drop_bit (8 * l) adj AND mask 8"
    using l(1) by (intro bit_word_eqI) (auto simp: bit_simps bit_signed_drop_bit_iff)
  then have "slot_of l delta = (unat adj div B ^ l) mod B"
    using l(4) unfolding slot_of_def Let_def TVN_BITS_def m adj_def [symmetric]
    by (simp add: unat_and_mask_mod unat_drop_bit_div p)
  also have "\<dots> = (unat delta div B ^ l - 1) mod B"
    using l(2) le_div_geq [of "B ^ l" "unat delta"] by (simp add: adj)
  also have "\<dots> = unat delta div B ^ l - 1"
    using l(3) by (simp add: less_mult_imp_div_less less_imp_diff_less)
  finally show ?thesis using False by (simp add: l_def)
qed

text \<open>Where \<^verbatim>\<open>AddTimer\<close> puts a timer that expires at \<open>e\<close> when the time is \<open>n\<close>.\<close>

definition new_loc :: "nat \<Rightarrow> nat \<Rightarrow> nat \<Rightarrow> nat \<Rightarrow> bool" where
  "new_loc n e l s \<longleftrightarrow> l < 4 \<and> s < B \<and> e - n < B ^ Suc l \<and>
     (if l = 0 then s = e - n else B ^ l \<le> e - n \<and> s = (e - n) div B ^ l - 1)"

definition expiry :: "TimeWheel \<Rightarrow> nat \<Rightarrow> nat" where
  "expiry w t = unat (t_expires (timers w t))"

lemma AddTimer_accepts:
  assumes "t_active (timers w t)" "expiry w t < unat (wheel_now w) + 2 ^ 32"
  shows "\<exists>l s. AddTimer (Some t) w = (True, push_slot l s t w) \<and> new_loc (unat (wheel_now w)) (expiry w t) l s"
proof -
  define delta where "delta =
    (if t_expires (timers w t) \<le> wheel_now w then 0 else t_expires (timers w t) - wheel_now w)"
  have d: "unat delta = expiry w t - unat (wheel_now w)"
    by (simp add: delta_def expiry_def unat_sub word_le_nat_alt)
  then have small: "delta < 2 ^ 32" using assms(2) by (simp add: word_less_nat_alt)
  define l where "l = GetLevel delta"
  have "new_loc (unat (wheel_now w)) (expiry w t) l (slot_of l delta)"
    using GetLevel_unat [OF small] slot_of_unat [OF small] unfolding new_loc_def d [symmetric] l_def
    by (auto simp: less_mult_imp_div_less less_imp_diff_less)
  moreover have "AddTimer (Some t) w = (True, push_slot l (slot_of l delta) t w)"
  proof -
    have "\<not> push_bit (TVN_NUM * TVN_BITS) 1 \<le> delta"
      using small by (simp add: TVN_NUM_def TVN_BITS_def not_le)
    then show ?thesis
      using assms(1) unfolding AddTimer_def option.case Let_def Now_def
      unfolding delta_def [symmetric] l_def by simp
  qed
  ultimately show ?thesis by blast
qed

lemma AddTimer_rejects:
  assumes "unat (wheel_now w) + 2 ^ 32 \<le> expiry w t"
  shows "AddTimer (Some t) w = (False, w)"
proof -
  have "\<not> t_expires (timers w t) \<le> wheel_now w"
    using assms by (simp add: expiry_def word_le_nat_alt)
  moreover have "unat (t_expires (timers w t) - wheel_now w) = expiry w t - unat (wheel_now w)"
    using calculation by (simp add: expiry_def unat_sub word_le_nat_alt)
  ultimately show ?thesis
    using assms by (auto simp: AddTimer_def Let_def Now_def TVN_NUM_def TVN_BITS_def word_le_nat_alt)
qed

section \<open>Re-adding the timers of a slot\<close>

abbreviation readd :: "nat \<Rightarrow> TimeWheel \<Rightarrow> TimeWheel" where
  "readd t w \<equiv> (if t_active (timers w t) then snd (AddTimer (Some t) w) else w)"

lemma push_slot_simps [simp]:
  "timers (push_slot l s t w) = timers w" "fired (push_slot l s t w) = fired w"
  "wheel_now (push_slot l s t w) = wheel_now w" "tv_idx (push_slot l s t w) = tv_idx w"
  "expiry (push_slot l s t w) = expiry w"
  "x \<in> set (tv (push_slot l s t w) l' s') \<longleftrightarrow> x \<in> set (tv w l' s') \<or> l' = l \<and> s' = s \<and> x = t"
  by (auto simp: push_slot_def expiry_def fun_eq_iff)

text \<open>\<open>w'\<close> is \<open>w\<close> with the active timers of \<open>A\<close> added at time \<open>n\<close>.\<close>

definition added :: "nat \<Rightarrow> nat set \<Rightarrow> TimeWheel \<Rightarrow> TimeWheel \<Rightarrow> bool" where
  "added n A w w' \<longleftrightarrow>
     timers w' = timers w \<and> fired w' = fired w \<and> wheel_now w' = wheel_now w \<and> tv_idx w' = tv_idx w \<and>
     (\<forall>x l s. x \<in> set (tv w' l s) \<longrightarrow>
        x \<in> set (tv w l s) \<or> x \<in> A \<and> t_active (timers w x) \<and> new_loc n (expiry w x) l s) \<and>
     (\<forall>x l s. x \<in> set (tv w l s) \<longrightarrow> x \<in> set (tv w' l s)) \<and>
     (\<forall>x\<in>A. t_active (timers w x) \<longrightarrow> (\<exists>l s. new_loc n (expiry w x) l s \<and> x \<in> set (tv w' l s)))"

lemma addedD:
  assumes "added n A w w'"
  shows added_same: "timers w' = timers w" "fired w' = fired w" "wheel_now w' = wheel_now w"
      "tv_idx w' = tv_idx w" "expiry w' = expiry w"
    and added_only: "x \<in> set (tv w' l s) \<Longrightarrow>
        x \<in> set (tv w l s) \<or> x \<in> A \<and> t_active (timers w x) \<and> new_loc n (expiry w x) l s"
    and added_keeps: "x \<in> set (tv w l s) \<Longrightarrow> x \<in> set (tv w' l s)"
    and added_new: "x \<in> A \<Longrightarrow> t_active (timers w x) \<Longrightarrow>
        \<exists>l s. new_loc n (expiry w x) l s \<and> x \<in> set (tv w' l s)"
  using assms unfolding added_def by (simp_all add: expiry_def fun_eq_iff)

lemma added_refl: "added n {} w w"
  by (simp add: added_def)

lemma added_trans:
  assumes "added n A w w1" "added n A' w1 w2"
  shows "added n (A \<union> A') w w2"
proof -
  note s1 = added_same [OF assms(1)] and s2 = added_same [OF assms(2)]
  have "x \<in> set (tv w l s) \<or> x \<in> A \<union> A' \<and> t_active (timers w x) \<and> new_loc n (expiry w x) l s"
    if "x \<in> set (tv w2 l s)" for x l s
    using added_only [OF assms(2) that] added_only [OF assms(1), of x l s] by (auto simp: s1)
  moreover have "x \<in> set (tv w2 l s)" if "x \<in> set (tv w l s)" for x l s
    using added_keeps [OF assms(2) added_keeps [OF assms(1) that]] .
  moreover have "\<exists>l s. new_loc n (expiry w x) l s \<and> x \<in> set (tv w2 l s)"
    if "x \<in> A \<union> A'" "t_active (timers w x)" for x
    using that added_new [OF assms(1), of x] added_new [OF assms(2), of x] added_keeps [OF assms(2)]
    by (auto simp: s1) blast+
  ultimately show ?thesis unfolding added_def by (simp add: s1 s2)
qed

lemma added_one:
  assumes "t_active (timers w t) \<Longrightarrow> expiry w t < n + 2 ^ 32" "unat (wheel_now w) = n"
  shows "added n {t} w (readd t w)"
proof (cases "t_active (timers w t)")
  case True
  obtain l s where "AddTimer (Some t) w = (True, push_slot l s t w)" "new_loc n (expiry w t) l s"
    using AddTimer_accepts [OF True] assms True by auto
  then show ?thesis using True by (auto simp: added_def)
qed (simp add: added_def)

lemma readd_fold:
  assumes "\<And>t. t \<in> set ts \<Longrightarrow> t_active (timers w t) \<Longrightarrow> expiry w t < n + 2 ^ 32" "unat (wheel_now w) = n"
  shows "added n (set ts) w (fold readd ts w)"
  using assms
proof (induction ts arbitrary: w)
  case (Cons t ts)
  have one: "added n {t} w (readd t w)" using Cons.prems by (intro added_one) auto
  have "added n (set ts) (readd t w) (fold readd ts (readd t w))"
    using Cons.prems added_same [OF one] by (intro Cons.IH) auto
  from added_trans [OF one this] show ?case by simp
qed (simp add: added_refl)

section \<open>Cascading\<close>

definition cascade_once :: "nat \<Rightarrow> TimeWheel \<Rightarrow> TimeWheel" where
  "cascade_once level w =
     (let w2 = fold readd (tv w level (tv_idx w level))
                 (w\<lparr>tv := (tv w)(level := (tv w level)(tv_idx w level := []))\<rparr>)
      in w2\<lparr>tv_idx := (tv_idx w2)(level := (tv_idx w2 level + 1) mod TVN_SIZE)\<rparr>)"

lemma Cascade_eq:
  "level < 4 \<Longrightarrow> Cascade level w =
     (let w3 = cascade_once level w
      in if tv_idx w3 level = 0 \<and> level + 1 < 4 then Cascade (level + 1) w3 else w3)"
  by (subst Cascade.simps) (simp add: TVN_NUM_def cascade_once_def Let_def)

definition in_wheel :: "TimeWheel \<Rightarrow> nat \<Rightarrow> bool" where
  "in_wheel w t \<longleftrightarrow> t_active (timers w t) \<and> (\<exists>l s. t \<in> set (tv w l s))"

text \<open>Between the start of the cascade of level \<open>k\<close> at time \<open>n\<close> and the next.\<close>

definition mid :: "nat \<Rightarrow> nat \<Rightarrow> TimeWheel \<Rightarrow> bool" where
  "mid n k w \<longleftrightarrow> unat (wheel_now w) = n \<and> 0 < n \<and> 1 \<le> k \<and> k < 4 \<and> n mod B ^ k = 0 \<and>
     (\<forall>l<4. tv_idx w l = (if l < k then n else n - 1) div B ^ l mod B) \<and>
     (\<forall>t. in_wheel w t \<longrightarrow> expiry w t < n + 2 ^ 32) \<and>
     (\<forall>t l s. t \<in> set (tv w l s) \<longrightarrow> l < 4 \<and> s < B)"

definition wheel_ok :: "nat \<Rightarrow> TimeWheel \<Rightarrow> bool" where
  "wheel_ok n w \<longleftrightarrow> unat (wheel_now w) = n \<and> (\<forall>l<4. tv_idx w l = n div B ^ l mod B) \<and>
     (\<forall>t. in_wheel w t \<longrightarrow> expiry w t < n + 2 ^ 32) \<and>
     (\<forall>t l s. t \<in> set (tv w l s) \<longrightarrow> l < 4 \<and> s < B)"

lemma pred_div:
  assumes "0 < (n::nat)"
  shows "n mod m = 0 \<Longrightarrow> n div m = Suc ((n - 1) div m)" and "n mod m \<noteq> 0 \<Longrightarrow> n div m = (n - 1) div m"
  using assms div_Suc [of "n - 1" m] by (auto split: if_splits)

lemma mod_power_mono: "(n::nat) mod B ^ k \<noteq> 0 \<Longrightarrow> k \<le> l \<Longrightarrow> n mod B ^ l \<noteq> 0"
  by (meson dvd_eq_mod_eq_0 dvd_trans le_imp_power_dvd)

lemma cascade_once_facts:
  assumes mid: "mid n k w" and w3: "w3 = cascade_once k w" and i: "i = (n - 1) div B ^ k mod B"
  shows once_same: "timers w3 = timers w" "fired w3 = fired w" "wheel_now w3 = wheel_now w" "expiry w3 = expiry w"
    and once_idx: "tv_idx w3 = (tv_idx w)(k := n div B ^ k mod B)"
    and once_only: "x \<in> set (tv w3 l s) \<Longrightarrow> x \<in> set (tv w l s) \<and> (l, s) \<noteq> (k, i) \<or>
        x \<in> set (tv w k i) \<and> t_active (timers w x) \<and> new_loc n (expiry w x) l s"
    and once_keeps: "x \<in> set (tv w l s) \<Longrightarrow> (l, s) \<noteq> (k, i) \<Longrightarrow> x \<in> set (tv w3 l s)"
    and once_moves: "x \<in> set (tv w k i) \<Longrightarrow> t_active (timers w x) \<Longrightarrow>
        \<exists>l s. new_loc n (expiry w x) l s \<and> x \<in> set (tv w3 l s)"
proof -
  let ?w1 = "w\<lparr>tv := (tv w)(k := (tv w k)(i := []))\<rparr>"
  define w2 where "w2 = fold readd (tv w k i) ?w1"
  have k: "k < 4" and n: "unat (wheel_now w) = n" "0 < n" "n mod B ^ k = 0" using mid by (auto simp: mid_def)
  have idx: "tv_idx w k = i" using mid k by (auto simp: mid_def i)
  have w3': "w3 = w2\<lparr>tv_idx := (tv_idx w2)(k := (tv_idx w2 k + 1) mod B)\<rparr>"
    unfolding w3 cascade_once_def idx w2_def Let_def TVN_SIZE_def by simp
  have add: "added n (set (tv w k i)) ?w1 w2"
    unfolding w2_def
    by (rule readd_fold) (use mid n in \<open>auto simp: mid_def in_wheel_def expiry_def\<close>)
  note same = added_same [OF add]
  show "timers w3 = timers w" "fired w3 = fired w" "wheel_now w3 = wheel_now w" "expiry w3 = expiry w"
    using same by (simp_all add: w3' expiry_def fun_eq_iff)
  have "(i + 1) mod B = n div B ^ k mod B"
    unfolding i pred_div(1) [OF n(2,3)] by (simp add: mod_Suc_eq)
  then show "tv_idx w3 = (tv_idx w)(k := n div B ^ k mod B)"
    using same idx by (simp add: w3')
  have tv3: "tv w3 = tv w2" by (simp add: w3')
  have tv1: "x \<in> set (tv ?w1 l s) \<longleftrightarrow> x \<in> set (tv w l s) \<and> (l, s) \<noteq> (k, i)" for x l s by auto
  have e1: "expiry ?w1 = expiry w" by (simp add: expiry_def fun_eq_iff)
  show "x \<in> set (tv w l s) \<and> (l, s) \<noteq> (k, i) \<or>
        x \<in> set (tv w k i) \<and> t_active (timers w x) \<and> new_loc n (expiry w x) l s"
    if "x \<in> set (tv w3 l s)"
    using added_only [OF add that [unfolded tv3]] unfolding tv1 e1 by simp
  show "x \<in> set (tv w3 l s)" if "x \<in> set (tv w l s)" "(l, s) \<noteq> (k, i)"
    unfolding tv3 by (rule added_keeps [OF add]) (use that in \<open>unfold tv1, blast\<close>)
  show "\<exists>l s. new_loc n (expiry w x) l s \<and> x \<in> set (tv w3 l s)"
    if "x \<in> set (tv w k i)" "t_active (timers w x)"
    using added_new [OF add that(1)] that(2) unfolding tv3 e1 by simp
qed

lemma in_wheel_once:
  assumes mid: "mid n k w"
  shows "in_wheel (cascade_once k w) t \<longleftrightarrow> in_wheel w t"
proof -
  define i where "i = (n - 1) div B ^ k mod B"
  note facts = cascade_once_facts [OF mid refl i_def]
  have "\<exists>l s. t \<in> set (tv (cascade_once k w) l s)" if "t_active (timers w t)" "t \<in> set (tv w l s)" for l s
    using facts(7) [OF that(2)] facts(8) [OF _ that(1)] that(2) by (cases "(l, s) = (k, i)") blast+
  then show ?thesis using facts(6) [of t] unfolding in_wheel_def facts(1) by blast
qed

text \<open>One level of the cascade leads to the next, or ends it.\<close>

lemma mid_once:
  assumes mid: "mid n k w" and w3: "w3 = cascade_once k w"
  shows "tv_idx w3 k = 0 \<Longrightarrow> k + 1 < 4 \<Longrightarrow> mid n (k + 1) w3"
    and "\<not> (tv_idx w3 k = 0 \<and> k + 1 < 4) \<Longrightarrow> wheel_ok n w3"
proof -
  define i where "i = (n - 1) div B ^ k mod B"
  note facts = cascade_once_facts [OF mid w3 i_def]
  have k: "k < 4" "1 \<le> k" and n: "unat (wheel_now w) = n" "0 < n" "n mod B ^ k = 0"
    using mid by (auto simp: mid_def)
  have idx: "tv_idx w3 l = (if l < Suc k then n else n - 1) div B ^ l mod B" if "l < 4" for l
    using mid that by (auto simp: mid_def facts(5) less_Suc_eq)
  have held: "\<forall>t. in_wheel w3 t \<longrightarrow> expiry w3 t < n + 2 ^ 32"
    using mid in_wheel_once [OF mid] unfolding w3 [symmetric] facts(4) by (simp add: mid_def)
  have range: "\<forall>t l s. t \<in> set (tv w3 l s) \<longrightarrow> l < 4 \<and> s < B"
    using mid facts(6) unfolding mid_def new_loc_def by blast
  have now: "unat (wheel_now w3) = n" by (simp add: facts(3) n(1))
  have split: "n mod B ^ Suc k = B ^ k * (n div B ^ k mod B)"
    using mod_mult2_eq [of n "B ^ k" B] n(3) by (simp add: mult.commute)
  show "mid n (k + 1) w3" if "tv_idx w3 k = 0" "k + 1 < 4"
  proof -
    have "n mod B ^ Suc k = 0" using that(1) split by (simp add: idx [OF k(1)])
    then show ?thesis using now n(2) that(2) idx held range by (simp add: mid_def)
  qed
  show "wheel_ok n w3" if stop: "\<not> (tv_idx w3 k = 0 \<and> k + 1 < 4)"
  proof -
    have "tv_idx w3 l = n div B ^ l mod B" if l: "l < 4" for l
    proof (cases "l < Suc k")
      case False
      then have "n mod B ^ Suc k \<noteq> 0" using stop l split by (auto simp: idx [OF k(1)])
      then have "n mod B ^ l \<noteq> 0" using mod_power_mono [of n "Suc k" l] False by simp
      then show ?thesis using pred_div(2) [OF n(2)] idx [OF l] False by simp
    qed (simp add: idx [OF l])
    then show ?thesis using now held range by (simp add: wheel_ok_def)
  qed
qed

lemma Cascade_rule:
  assumes "mid n k w" "P k w"
    and step: "\<And>k w. mid n k w \<Longrightarrow> P k w \<Longrightarrow> tv_idx (cascade_once k w) k = 0 \<Longrightarrow> k + 1 < 4 \<Longrightarrow>
           P (k + 1) (cascade_once k w)"
    and stop: "\<And>k w. mid n k w \<Longrightarrow> P k w \<Longrightarrow> \<not> (tv_idx (cascade_once k w) k = 0 \<and> k + 1 < 4) \<Longrightarrow>
           Q (cascade_once k w)"
  shows "wheel_ok n (Cascade k w) \<and> Q (Cascade k w)"
  using assms(1,2)
proof (induction "4 - k" arbitrary: k w)
  case 0
  then show ?case by (simp add: mid_def)
next
  case (Suc m)
  have k: "k < 4" using Suc.prems(1) by (simp add: mid_def)
  let ?w3 = "cascade_once k w"
  show ?case
  proof (cases "tv_idx ?w3 k = 0 \<and> k + 1 < 4")
    case True
    have "wheel_ok n (Cascade (k + 1) ?w3) \<and> Q (Cascade (k + 1) ?w3)"
      using Suc.hyps(2) True mid_once(1) [OF Suc.prems(1) refl] step [OF Suc.prems]
      by (intro Suc.hyps(1)) auto
    then show ?thesis using True by (simp add: Cascade_eq [OF k] Let_def)
  next
    case False
    then show ?thesis
      using mid_once(2) [OF Suc.prems(1) refl] stop [OF Suc.prems] by (auto simp: Cascade_eq [OF k] Let_def)
  qed
qed

lemma Cascade_sound:
  assumes "mid n k w"
  shows "wheel_ok n (Cascade k w)" "timers (Cascade k w) = timers w" "fired (Cascade k w) = fired w"
    "in_wheel (Cascade k w) t \<longleftrightarrow> in_wheel w t"
proof -
  define P where "P = (\<lambda>w'. timers w' = timers w \<and> fired w' = fired w \<and> (\<forall>t. in_wheel w' t \<longleftrightarrow> in_wheel w t))"
  have P: "P (cascade_once k w')" if "mid n k w'" "P w'" for k w'
    using that cascade_once_facts(1,2) [OF that(1) refl refl] in_wheel_once [OF that(1)] by (simp add: P_def)
  have "wheel_ok n (Cascade k w) \<and> P (Cascade k w)"
    by (rule Cascade_rule [where P = "\<lambda>_. P" and Q = P, OF assms]) (auto intro: P, simp add: P_def)
  then show "wheel_ok n (Cascade k w)" "timers (Cascade k w) = timers w" "fired (Cascade k w) = fired w"
    "in_wheel (Cascade k w) t \<longleftrightarrow> in_wheel w t"
    by (simp_all add: P_def)
qed

section \<open>A tick\<close>

lemma expire_loop_result:
  assumes "expire_loop now it ts = (kept, expired, ts')"
  shows "set kept = {t \<in> set it. t_active (ts t) \<and> \<not> t_expires (ts t) \<le> now} \<and>
    set expired = {t \<in> set it. t_active (ts t) \<and> t_expires (ts t) \<le> now} \<and> distinct expired \<and>
    ts' = (\<lambda>t. if t \<in> set expired then (ts t)\<lparr>t_active := False\<rparr> else ts t)"
  using assms
proof (induction now it ts arbitrary: kept expired ts' rule: expire_loop.induct)
  case (2 now t it ts)
  consider "\<not> t_active (ts t)" | "t_active (ts t)" "t_expires (ts t) \<le> now"
    | "t_active (ts t)" "\<not> t_expires (ts t) \<le> now" by blast
  then show ?case
  proof cases
    case 1
    then show ?thesis using 2 by auto
  next
    case a: 2
    define ts1 where "ts1 = ts(t := (ts t)\<lparr>t_active := False\<rparr>)"
    obtain k e t' where r: "expire_loop now it ts1 = (k, e, t')" by (cases "expire_loop now it ts1") auto
    have res: "kept = k" "expired = t # e" "ts' = t'" using 2(4) a r by (auto simp: ts1_def)
    have IH: "set k = {x \<in> set it. t_active (ts1 x) \<and> \<not> t_expires (ts1 x) \<le> now} \<and>
        set e = {x \<in> set it. t_active (ts1 x) \<and> t_expires (ts1 x) \<le> now} \<and> distinct e \<and>
        t' = (\<lambda>x. if x \<in> set e then (ts1 x)\<lparr>t_active := False\<rparr> else ts1 x)"
      using 2(2) [of k e t'] a r unfolding ts1_def by blast
    have "set k = {x \<in> set (t # it). t_active (ts x) \<and> \<not> t_expires (ts x) \<le> now}"
      using IH a by (auto simp: ts1_def)
    moreover have "set (t # e) = {x \<in> set (t # it). t_active (ts x) \<and> t_expires (ts x) \<le> now}"
      using IH a by (auto simp: ts1_def)
    moreover have "t \<notin> set e" using IH by (simp add: ts1_def)
    moreover have "t' = (\<lambda>x. if x \<in> set (t # e) then (ts x)\<lparr>t_active := False\<rparr> else ts x)"
      using IH by (auto simp: ts1_def fun_eq_iff)
    ultimately show ?thesis using IH by (simp add: res)
  next
    case a: 3
    obtain k e t' where r: "expire_loop now it ts = (k, e, t')" by (cases "expire_loop now it ts") auto
    then have res: "kept = t # k" "expired = e" "ts' = t'" using 2(4) a by auto
    show ?thesis unfolding res using 2(3) [OF _ a(2) r] a by auto
  qed
qed auto

text \<open>The state of \<^verbatim>\<open>Tick\<close> before the cascade.\<close>

definition tick_slot :: "TimeWheel \<Rightarrow> TimeWheel" where
  "tick_slot w =
     (let now = wheel_now w + 1;
          (kept, expired, ts) = expire_loop now (tv w 0 (tv_idx w 0)) (timers w)
      in w\<lparr>wheel_now := now, timers := ts,
           tv := (tv w)(0 := (tv w 0)(tv_idx w 0 := kept)),
           fired := fired w @ map (\<lambda>t. (t, now)) (filter (\<lambda>t. t_func (ts t)) expired),
           tv_idx := (tv_idx w)(0 := (tv_idx w 0 + 1) mod TVN_SIZE)\<rparr>)"

lemma Tick_eq: "Tick w = (if tv_idx (tick_slot w) 0 = 0 then Cascade 1 (tick_slot w) else tick_slot w)"
  by (simp add: Tick_def tick_slot_def Let_def case_prod_unfold)

text \<open>The timers that expire in the tick.\<close>

definition due :: "TimeWheel \<Rightarrow> nat set" where
  "due w = {t \<in> set (tv w 0 (tv_idx w 0)). t_active (timers w t) \<and> t_expires (timers w t) \<le> wheel_now w + 1}"

lemma tick_slot_facts:
  assumes ok: "wheel_ok n w" and n: "n + 1 < 2 ^ 64"
  shows slot_now: "unat (wheel_now (tick_slot w)) = n + 1"
    and slot_idx: "tv_idx (tick_slot w) = (tv_idx w)(0 := (n + 1) mod B)"
    and slot_timers: "timers (tick_slot w) = (\<lambda>t. if t \<in> due w then (timers w t)\<lparr>t_active := False\<rparr> else timers w t)"
    and slot_expiry: "expiry (tick_slot w) = expiry w"
    and slot_only: "t \<in> set (tv (tick_slot w) l s) \<Longrightarrow> t \<in> set (tv w l s)"
    and slot_keeps: "t \<in> set (tv w l s) \<Longrightarrow> t_active (timers w t) \<Longrightarrow> t \<notin> due w \<Longrightarrow> t \<in> set (tv (tick_slot w) l s)"
    and slot_fired: "\<exists>ts. fired (tick_slot w) = fired w @ map (\<lambda>t. (t, wheel_now w + 1)) ts \<and> distinct ts \<and>
            set ts = {t \<in> due w. t_func (timers w t)}"
proof -
  obtain kept expired ts' where loop: "expire_loop (wheel_now w + 1) (tv w 0 (tv_idx w 0)) (timers w) = (kept, expired, ts')"
    by (metis prod_cases3)
  note res = expire_loop_result [OF loop]
  have due: "set expired = due w" using res by (simp add: due_def)
  have kept: "set kept = {t \<in> set (tv w 0 (tv_idx w 0)). t_active (timers w t) \<and> t \<notin> due w}"
    using res by (auto simp: due_def)
  have now: "unat (wheel_now w) = n" and idx0: "tv_idx w 0 = n mod B" using ok by (simp_all add: wheel_ok_def)
  have ts: "tick_slot w = w\<lparr>wheel_now := wheel_now w + 1, timers := ts',
           tv := (tv w)(0 := (tv w 0)(tv_idx w 0 := kept)),
           fired := fired w @ map (\<lambda>t. (t, wheel_now w + 1)) (filter (\<lambda>t. t_func (ts' t)) expired),
           tv_idx := (tv_idx w)(0 := (tv_idx w 0 + 1) mod B)\<rparr>"
    by (simp add: tick_slot_def loop TVN_SIZE_def Let_def)
  show "unat (wheel_now (tick_slot w)) = n + 1"
    using n now by (simp add: ts unat_word_ariths)
  show "tv_idx (tick_slot w) = (tv_idx w)(0 := (n + 1) mod B)" by (simp add: ts idx0 mod_Suc_eq)
  show tm: "timers (tick_slot w) = (\<lambda>t. if t \<in> due w then (timers w t)\<lparr>t_active := False\<rparr> else timers w t)"
    using res by (simp add: ts due)
  then show "expiry (tick_slot w) = expiry w" by (simp add: expiry_def fun_eq_iff)
  show "t \<in> set (tv w l s)" if "t \<in> set (tv (tick_slot w) l s)"
    using that kept by (auto simp: ts split: if_splits)
  show "t \<in> set (tv (tick_slot w) l s)" if "t \<in> set (tv w l s)" "t_active (timers w t)" "t \<notin> due w"
    using that kept by (auto simp: ts)
  have "filter (\<lambda>t. t_func (ts' t)) expired = filter (\<lambda>t. t_func (timers w t)) expired"
    using res by (intro filter_cong) auto
  then show "\<exists>ts. fired (tick_slot w) = fired w @ map (\<lambda>t. (t, wheel_now w + 1)) ts \<and> distinct ts \<and>
            set ts = {t \<in> due w. t_func (timers w t)}"
    using res by (intro exI [of _ "filter (\<lambda>t. t_func (timers w t)) expired"]) (auto simp: ts due)
qed

lemma in_wheel_slot:
  assumes "wheel_ok n w" "n + 1 < 2 ^ 64"
  shows "in_wheel (tick_slot w) t \<longleftrightarrow> in_wheel w t \<and> t \<notin> due w"
  unfolding in_wheel_def slot_timers [OF assms] using slot_only [OF assms] slot_keeps [OF assms]
  by (cases "t \<in> due w"; simp; blast)

lemma tick_slot_ranges:
  assumes ok: "wheel_ok n w" and n: "n + 1 < 2 ^ 64"
  shows "in_wheel (tick_slot w) t \<Longrightarrow> expiry (tick_slot w) t < n + 1 + 2 ^ 32"
    and "t \<in> set (tv (tick_slot w) l s) \<Longrightarrow> l < 4 \<and> s < B"
  using ok slot_only [OF assms] unfolding in_wheel_slot [OF assms] slot_expiry [OF assms] wheel_ok_def
  by (force, blast)

lemma tick_slot_mid:
  assumes ok: "wheel_ok n w" and n: "n + 1 < 2 ^ 64" and z: "(n + 1) mod B = 0"
  shows "mid (n + 1) 1 (tick_slot w)"
  using z ok tick_slot_ranges [OF ok n]
  by (auto simp: mid_def slot_now [OF ok n] slot_idx [OF ok n] wheel_ok_def less_Suc_eq)

lemma Tick_sound:
  assumes ok: "wheel_ok n w" and n: "n + 1 < 2 ^ 64"
  shows tick_ok: "wheel_ok (n + 1) (Tick w)"
    and tick_timers: "timers (Tick w) = (\<lambda>t. if t \<in> due w then (timers w t)\<lparr>t_active := False\<rparr> else timers w t)"
    and tick_fired: "\<exists>ts. fired (Tick w) = fired w @ map (\<lambda>t. (t, wheel_now w + 1)) ts \<and> distinct ts \<and>
            set ts = {t \<in> due w. t_func (timers w t)}"
    and tick_in_wheel: "in_wheel (Tick w) t \<longleftrightarrow> in_wheel w t \<and> t \<notin> due w"
proof -
  let ?w1 = "tick_slot w"
  note facts = tick_slot_facts [OF assms]
  have "wheel_ok (n + 1) (Tick w) \<and> timers (Tick w) = timers ?w1 \<and> fired (Tick w) = fired ?w1 \<and>
      (\<forall>t. in_wheel (Tick w) t \<longleftrightarrow> in_wheel ?w1 t)"
  proof (cases "(n + 1) mod B = 0")
    case True
    from Cascade_sound [OF tick_slot_mid [OF ok n True]] show ?thesis using True by (simp add: Tick_eq facts(2))
  next
    case False
    have "tv_idx ?w1 l = (n + 1) div B ^ l mod B" if l: "l < 4" for l
    proof (cases "l = 0")
      case nz: False
      then have "(n + 1) mod B ^ l \<noteq> 0" using mod_power_mono [of "n + 1" 1 l] False by simp
      then have "(n + 1) div B ^ l = n div B ^ l" using pred_div(2) [of "n + 1" "B ^ l"] by simp
      then show ?thesis using ok l nz by (simp add: facts(2) wheel_ok_def)
    qed (simp add: facts(2))
    then show ?thesis
      using False tick_slot_ranges [OF ok n] by (simp add: Tick_eq facts(1,2) wheel_ok_def)
  qed
  then show "wheel_ok (n + 1) (Tick w)"
    "timers (Tick w) = (\<lambda>t. if t \<in> due w then (timers w t)\<lparr>t_active := False\<rparr> else timers w t)"
    "\<exists>ts. fired (Tick w) = fired w @ map (\<lambda>t. (t, wheel_now w + 1)) ts \<and> distinct ts \<and>
            set ts = {t \<in> due w. t_func (timers w t)}"
    "in_wheel (Tick w) t \<longleftrightarrow> in_wheel w t \<and> t \<notin> due w"
    using facts(3,7) in_wheel_slot [OF ok n] by simp_all
qed

section \<open>Runs\<close>

datatype wheel_op = OpAdd "nat option" | OpRemove "nat option" | OpTick

fun wheel_step :: "wheel_op \<Rightarrow> TimeWheel \<Rightarrow> (bool \<times> TimeWheel) option" where
  "wheel_step (OpAdd p) w = Some (AddTimer p w)"
| "wheel_step (OpRemove p) w = map_option (Pair True) (RemoveTimer p w)"
| "wheel_step OpTick w = Some (True, Tick w)"

fun ticks :: "wheel_op list \<Rightarrow> nat" where
  "ticks [] = 0"
| "ticks (OpTick # ops) = Suc (ticks ops)"
| "ticks (_ # ops) = ticks ops"

text \<open>The timers that \<^verbatim>\<open>AddTimer\<close> accepted.\<close>

fun accepted :: "wheel_op list \<Rightarrow> bool list \<Rightarrow> nat set" where
  "accepted (OpAdd (Some t) # ops) (True # rs) = insert t (accepted ops rs)"
| "accepted (_ # ops) (_ # rs) = accepted ops rs"
| "accepted _ _ = {}"

definition safe :: "(nat \<Rightarrow> Timer) \<Rightarrow> nat \<Rightarrow> nat set \<Rightarrow> TimeWheel \<Rightarrow> bool" where
  "safe ts0 n A w \<longleftrightarrow> wheel_ok n w \<and> distinct (map fst (fired w)) \<and>
     (\<forall>t m. (t, m) \<in> set (fired w) \<longrightarrow> \<not> t_active (timers w t) \<and> t_expires (ts0 t) \<le> m \<and> unat m \<le> n) \<and>
     (\<forall>t. t_expires (timers w t) = t_expires (ts0 t) \<and> t_func (timers w t) = t_func (ts0 t)) \<and>
     (\<forall>t. t_active (timers w t) \<longrightarrow> t \<in> A \<longrightarrow> in_wheel w t) \<and>
     (\<forall>t. \<not> t_active (timers w t) \<longrightarrow> t_func (ts0 t) \<longrightarrow> t \<in> fst ` set (fired w))"

lemma safe_add:
  assumes safe: "safe ts0 n A w" and r: "AddTimer p w = (r, w')"
  shows "safe ts0 n (A \<union> accepted [OpAdd p] [r]) w'"
proof (cases "\<exists>t. p = Some t \<and> t_active (timers w t) \<and> expiry w t < n + 2 ^ 32")
  case True
  then obtain t where t: "p = Some t" "t_active (timers w t)" "expiry w t < n + 2 ^ 32" by blast
  have now: "unat (wheel_now w) = n" using safe by (simp add: safe_def wheel_ok_def)
  obtain l s where add: "AddTimer (Some t) w = (True, push_slot l s t w)" "new_loc n (expiry w t) l s"
    using AddTimer_accepts [OF t(2)] t(3) now by auto
  then have w': "r = True" "w' = push_slot l s t w" using r t(1) by auto
  have ls: "l < 4" "s < B" using add(2) by (auto simp: new_loc_def)
  have "wheel_ok n w'"
    using safe t(2,3) ls by (auto simp: w'(2) safe_def wheel_ok_def in_wheel_def)
  moreover have "in_wheel w' x" if "in_wheel w x \<or> x = t" "t_active (timers w x)" for x
    using that by (auto simp: w'(2) in_wheel_def)
  ultimately show ?thesis using safe t(1,2) by (simp add: w' safe_def)
next
  case False
  have "r = False \<and> w' = w"
  proof (cases p)
    case (Some t)
    then show ?thesis
      using False safe AddTimer_rejects [of w t] r
      by (cases "t_active (timers w t)") (auto simp: safe_def wheel_ok_def AddTimer_def)
  qed (use r in \<open>simp add: AddTimer_def\<close>)
  then show ?thesis using safe by (cases p) simp_all
qed

lemma safe_tick:
  assumes safe: "safe ts0 n A w" and n: "n + 1 < 2 ^ 64"
  shows "safe ts0 (n + 1) A (Tick w)"
proof -
  have ok: "wheel_ok n w" using safe by (simp add: safe_def)
  note sound = Tick_sound [OF ok n]
  obtain ts where ts: "fired (Tick w) = fired w @ map (\<lambda>t. (t, wheel_now w + 1)) ts" "distinct ts"
      "set ts = {t \<in> due w. t_func (timers w t)}"
    using sound(3) by blast
  have now: "unat (wheel_now w + 1) = n + 1"
    using ok n by (simp add: wheel_ok_def unat_word_ariths)
  have due: "t_active (timers w t)" "t_expires (timers w t) \<le> wheel_now w + 1" "in_wheel w t" if "t \<in> due w" for t
    using that by (auto simp: due_def in_wheel_def)
  have keep: "t_expires (timers (Tick w) t) = t_expires (ts0 t)" "t_func (timers (Tick w) t) = t_func (ts0 t)" for t
    using safe by (simp_all add: sound(2) safe_def)
  have "fst ` set (fired w) \<inter> due w = {}" using safe due(1) by (fastforce simp: safe_def)
  then have "distinct (map fst (fired (Tick w)))"
    using safe ts by (auto simp: safe_def comp_def)
  moreover have "\<not> t_active (timers (Tick w) t) \<and> t_expires (ts0 t) \<le> m \<and> unat m \<le> n + 1"
    if tm: "(t, m) \<in> set (fired (Tick w))" for t m
  proof (cases "(t, m) \<in> set (fired w)")
    case True
    then show ?thesis using safe by (force simp: safe_def sound(2))
  next
    case False
    then have "t \<in> due w" "m = wheel_now w + 1" using tm ts by auto
    then show ?thesis using due(2) keep safe now by (simp add: sound(2) safe_def)
  qed
  moreover have "in_wheel (Tick w) t" if "t_active (timers (Tick w) t)" "t \<in> A" for t
    using that safe unfolding sound(2,4) safe_def by (auto split: if_splits)
  moreover have "t \<in> fst ` set (fired (Tick w))" if "\<not> t_active (timers (Tick w) t)" "t_func (ts0 t)" for t
  proof -
    have "fst ` set (fired (Tick w)) = fst ` set (fired w) \<union> set ts"
      by (simp add: ts(1) image_Un image_image)
    then show ?thesis using that safe ts(3) unfolding sound(2) safe_def by (auto split: if_splits)
  qed
  ultimately show ?thesis using sound(1) keep unfolding safe_def by blast
qed

lemma run_safe:
  assumes "safe ts0 n A w" "OpRemove None \<notin> set ops" "n + ticks ops < 2 ^ 64"
  shows "\<exists>rs w'. run wheel_step ops w = Some (rs, w') \<and> safe ts0 (n + ticks ops) (A \<union> accepted ops rs) w'"
  using assms
proof (induction ops arbitrary: n A w)
  case (Cons op ops)
  show ?case
  proof (cases op)
    case (OpAdd p)
    obtain r w1 where r: "AddTimer p w = (r, w1)" by fastforce
    have "safe ts0 n (A \<union> accepted [op] [r]) w1" using safe_add [OF Cons.prems(1) r] OpAdd by simp
    from Cons.IH [OF this] Cons.prems(2,3) OpAdd obtain rs w' where IH: "run wheel_step ops w1 = Some (rs, w')"
        "safe ts0 (n + ticks ops) (A \<union> accepted [op] [r] \<union> accepted ops rs) w'"
      by auto
    have "accepted (op # ops) (r # rs) = accepted [op] [r] \<union> accepted ops rs"
      by (cases p; cases r) (simp_all add: OpAdd)
    then show ?thesis using IH OpAdd r by (simp add: Un_assoc)
  next
    case (OpRemove p)
    have "run wheel_step ops w \<noteq> None \<Longrightarrow> run wheel_step (op # ops) w = map_option (\<lambda>(rs, s). (True # rs, s)) (run wheel_step ops w)"
      using Cons.prems(2) by (auto simp: OpRemove RemoveTimer_def)
    then show ?thesis using Cons.IH [OF Cons.prems(1)] Cons.prems(2,3) by (auto simp: OpRemove)
  next
    case OpTick
    have "safe ts0 (n + 1) A (Tick w)" using safe_tick [OF Cons.prems(1)] Cons.prems(3) OpTick by simp
    from Cons.IH [OF this] Cons.prems(2,3) OpTick show ?thesis by auto
  qed
qed simp

lemma new_safe: "(\<And>t. t_active (ts0 t)) \<Longrightarrow> safe ts0 0 {} (TimeWheel_new ts0)"
  by (simp add: safe_def TimeWheel_new_def wheel_ok_def in_wheel_def)

section \<open>Timers added to a new wheel\<close>

text \<open>At time \<open>n\<close> a timer that expires at \<open>e\<close> sits in the slot its digits in base 256 give, ahead of the
  hands of the wheel.\<close>

definition placed :: "nat \<Rightarrow> nat \<Rightarrow> nat \<Rightarrow> nat \<Rightarrow> bool" where
  "placed n e l s \<longleftrightarrow> l < 4 \<and> e div B ^ Suc l = n div B ^ Suc l \<and>
     (if l = 0 then n \<le> e \<and> s = e mod B else n div B ^ l < e div B ^ l \<and> Suc s = e div B ^ l mod B)"

definition exact :: "nat \<Rightarrow> TimeWheel \<Rightarrow> bool" where
  "exact n w \<longleftrightarrow> (\<forall>t l s. t \<in> set (tv w l s) \<longrightarrow> t_active (timers w t) \<longrightarrow> placed n (expiry w t) l s)"

lemma div_power_Suc: "(n::nat) div B ^ Suc k = n div B ^ k div B"
  by (simp only: power_Suc mult.commute [of B] div_mult2_eq)

lemma placed_pos:
  "0 < l \<Longrightarrow> placed n e l s \<longleftrightarrow> l < 4 \<and> e div B ^ l div B = n div B ^ l div B \<and>
     n div B ^ l < e div B ^ l \<and> Suc s = e div B ^ l mod B"
  unfolding placed_def div_power_Suc by simp

lemma placed_new:
  assumes "new_loc n e l s" "l < k" "n mod B ^ k = 0" "n \<le> e"
  shows "placed n e l s"
proof -
  define d where "d = e - n"
  have e: "e = n + d" using assms(4) by (simp add: d_def)
  have zero: "n mod B ^ j = 0" if "j \<le> k" for j using mod_power_mono [of n j k] that assms(3) by blast
  have div: "e div B ^ j = n div B ^ j + d div B ^ j" if "j \<le> k" for j
    using zero [OF that] by (simp add: e div_plus_div_distrib_dvd_left mod_0_imp_dvd)
  have n0: "n div B ^ l mod B = 0"
    using zero [of "Suc l"] assms(2) mod_mult2_eq [of n "B ^ l" B] by (simp add: mult.commute)
  have loc: "l < 4" "s < B" "d < B ^ Suc l" "if l = 0 then s = d else B ^ l \<le> d \<and> s = d div B ^ l - 1"
    using assms(1) by (auto simp: new_loc_def d_def)
  have high: "e div B ^ Suc l = n div B ^ Suc l" using div [of "Suc l"] assms(2) loc(3) by simp
  show ?thesis
  proof (cases "l = 0")
    case True
    then have "e mod B = d" using zero [of 1] assms(2) loc(3) by (simp add: e mod_add_eq [symmetric])
    then show ?thesis using True loc high assms(4) by (simp add: placed_def)
  next
    case False
    then have q: "1 \<le> d div B ^ l" "d div B ^ l < B"
      using loc(3,4) by (simp_all add: div_greater_zero_iff Suc_le_eq less_mult_imp_div_less)
    have ed: "e div B ^ l = n div B ^ l + d div B ^ l" using div [of l] assms(2) by simp
    have "e div B ^ l mod B = d div B ^ l"
      unfolding ed using n0 q(2) by (simp add: mod_add_eq [symmetric])
    then show ?thesis using False loc(1,4) high ed q(1) by (simp add: placed_def)
  qed
qed

text \<open>The time moves on: what is not in the slot that is served stays placed; what is in it is due, or
  goes down a level.\<close>

lemma placed_same:
  assumes "placed n e l s" "0 < l" "Suc n mod B ^ l \<noteq> 0"
  shows "placed (Suc n) e l s"
proof -
  have "Suc n mod B ^ Suc l \<noteq> 0" using mod_power_mono [OF assms(3), of "Suc l"] by simp
  then show ?thesis
    using assms pred_div(2) [of "Suc n" "B ^ l"] pred_div(2) [of "Suc n" "B ^ Suc l"] by (simp add: placed_def)
qed

lemma digits_less:
  assumes "(a::nat) div B = b div B" "a < b"
  shows "a mod B < b mod B"
  using assms by (metis mult_div_mod_eq nat_add_left_cancel_less)

lemma placed_passed:
  assumes pl: "placed n e l s" and l: "0 < l" and z: "Suc n mod B ^ l = 0" and s: "s \<noteq> n div B ^ l mod B"
  shows "placed (Suc n) e l s"
proof -
  let ?a = "n div B ^ l" and ?b = "e div B ^ l"
  have ab: "?a div B = ?b div B" "?a < ?b" "Suc s = ?b mod B"
    using pl by (simp_all add: placed_pos [OF l])
  have "?a mod B < ?b mod B" by (rule digits_less [OF ab(1,2)])
  then have lt: "Suc (?a mod B) < ?b mod B" using s ab(3) by linarith
  then have "Suc ?a div B = ?a div B" "Suc ?a mod B = Suc (?a mod B)"
    using mod_less_divisor [of B ?b] by (simp_all add: div_Suc mod_Suc)
  moreover from this have "Suc ?a < ?b"
    using lt ab(1) by (metis div_mult_mod_eq nat_add_left_cancel_less)
  ultimately show ?thesis
    using pl ab pred_div(1) [OF _ z] by (simp add: placed_pos [OF l])
qed

lemma placed_served:
  assumes pl: "placed n e l s" and l: "0 < l" and z: "Suc n mod B ^ l = 0" and s: "s = n div B ^ l mod B"
  shows "Suc n \<le> e" and "e - Suc n < B ^ l"
proof -
  let ?a = "n div B ^ l" and ?b = "e div B ^ l"
  have ab: "?a div B = ?b div B" "Suc (?a mod B) = ?b mod B"
    using pl s by (simp_all add: placed_pos [OF l])
  then have "?b = Suc ?a" by (metis add_Suc_right div_mult_mod_eq)
  then have b: "?b = Suc n div B ^ l" using pred_div(1) [OF _ z] by simp
  have "Suc n = B ^ l * ?b" using z unfolding b by (metis mult_div_mod_eq add.right_neutral)
  moreover have "e = B ^ l * ?b + e mod B ^ l" by simp
  moreover have "e mod B ^ l < B ^ l" by simp
  ultimately show "Suc n \<le> e" "e - Suc n < B ^ l" by linarith+
qed

lemma placed_level0:
  assumes "placed n e 0 s" "s \<noteq> n mod B"
  shows "placed (Suc n) e 0 s"
proof -
  have a: "e div B = n div B" "n \<le> e" "s = e mod B" using assms(1) by (simp_all add: placed_def)
  then have "n < e" using assms(2) by (cases "n = e") auto
  then have "n mod B < e mod B" using digits_less [of n e] a(1) by simp
  then have "Suc n div B = n div B"
    using mod_less_divisor [of B e] by (simp add: div_Suc mod_Suc)
  then show ?thesis using a \<open>n < e\<close> by (simp add: placed_def)
qed

text \<open>While the levels below \<open>k\<close> are being served for time \<open>Suc n\<close>, they are placed for that time and the
  levels from \<open>k\<close> on still for the time before.\<close>

definition placed_below :: "nat \<Rightarrow> nat \<Rightarrow> TimeWheel \<Rightarrow> bool" where
  "placed_below n k w \<longleftrightarrow> (\<forall>t l s. t \<in> set (tv w l s) \<longrightarrow> t_active (timers w t) \<longrightarrow>
     placed (if l < k then Suc n else n) (expiry w t) l s)"

lemma moved_below:
  assumes "new_loc (Suc n) (expiry w t) l s" "expiry w t - Suc n < B ^ k" "0 < k"
  shows "l < k"
proof (rule ccontr)
  assume "\<not> l < k"
  then have le: "B ^ k \<le> B ^ l" and "l \<noteq> 0" using assms(3) by (auto intro: power_increasing)
  then have "B ^ l \<le> expiry w t - Suc n" using assms(1) by (simp add: new_loc_def)
  then show False using assms(2) le by linarith
qed

lemma placed_below_once:
  assumes mid: "mid (Suc n) k w" and P: "placed_below n k w"
  shows "placed_below n (k + 1) (cascade_once k w)"
proof -
  define i where "i = (Suc n - 1) div B ^ k mod B"
  note facts = cascade_once_facts [OF mid refl i_def]
  have k: "0 < k" "Suc n mod B ^ k = 0" using mid by (auto simp: mid_def)
  have "placed (if l < k + 1 then Suc n else n) (expiry w t) l s"
    if t: "t \<in> set (tv (cascade_once k w) l s)" "t_active (timers w t)" for t l s
  proof (cases "t \<in> set (tv w l s) \<and> (l, s) \<noteq> (k, i)")
    case True
    then have "placed (if l < k then Suc n else n) (expiry w t) l s" using P t(2) by (simp add: placed_below_def)
    moreover have "placed (Suc n) (expiry w t) k s" if "placed n (expiry w t) k s" "l = k"
      using True that placed_passed [OF that(1) k] by (simp add: i_def)
    ultimately show ?thesis by (auto simp: less_Suc_eq)
  next
    case False
    then have new: "t \<in> set (tv w k i)" "new_loc (Suc n) (expiry w t) l s" using facts(6) [OF t(1)] by auto
    then have "placed n (expiry w t) k i" using P t(2) unfolding placed_below_def by (metis less_irrefl)
    from placed_served [OF this k(1,2)] have "Suc n \<le> expiry w t" "expiry w t - Suc n < B ^ k"
      by (simp_all add: i_def)
    then show ?thesis using placed_new [OF new(2) _ k(2)] moved_below [OF new(2) _ k(1)] by simp
  qed
  then show ?thesis unfolding placed_below_def facts(1,4) by blast
qed

lemma placed_below_last:
  assumes mid: "mid (Suc n) k w" and P: "placed_below n k w"
    and stop: "\<not> (tv_idx (cascade_once k w) k = 0 \<and> k + 1 < 4)"
  shows "exact (Suc n) (cascade_once k w)"
  unfolding exact_def
proof (intro allI impI)
  fix t l s
  assume t: "t \<in> set (tv (cascade_once k w) l s)" "t_active (timers (cascade_once k w) t)"
  have all: "placed (if l < k + 1 then Suc n else n) (expiry (cascade_once k w) t) l s"
    using placed_below_once [OF mid P] t unfolding placed_below_def by blast
  have idx: "tv_idx (cascade_once k w) k = Suc n div B ^ k mod B"
    using cascade_once_facts(5) [OF mid refl refl] by simp
  show "placed (Suc n) (expiry (cascade_once k w) t) l s"
  proof (cases "l < k + 1")
    case False
    then have pn: "placed n (expiry (cascade_once k w) t) l s" using all by simp
    then have "l < 4" by (simp add: placed_def)
    then have "Suc n div B ^ k mod B \<noteq> 0" using stop False by (simp add: idx)
    then have "Suc n mod B ^ Suc k \<noteq> 0"
      using mod_mult2_eq [of "Suc n" "B ^ k" B] by (simp add: mult.commute)
    then have "Suc n mod B ^ l \<noteq> 0" using mod_power_mono [of "Suc n" "Suc k" l] False by simp
    then show ?thesis using placed_same [OF pn] False by simp
  qed (use all in simp)
qed

lemma exact_cascade:
  assumes mid: "mid (Suc n) k w"
    and pl: "\<And>t l s. t \<in> set (tv w l s) \<Longrightarrow> t_active (timers w t) \<Longrightarrow>
        placed (if l < k then Suc n else n) (expiry w t) l s"
  shows "exact (Suc n) (Cascade k w)"
proof -
  have "placed_below n k w" using pl by (simp add: placed_below_def)
  from Cascade_rule [where P = "placed_below n" and Q = "exact (Suc n)", OF mid this] show ?thesis
    using placed_below_once placed_below_last by blast
qed

lemma exact_due:
  assumes "wheel_ok n w" "exact n w" "n + 1 < 2 ^ 64"
  shows "t \<in> due w \<longleftrightarrow> in_wheel w t \<and> expiry w t = n"
proof
  have idx: "tv_idx w 0 = n mod B" and now: "unat (wheel_now w + 1) = n + 1"
    using assms by (auto simp: wheel_ok_def unat_word_ariths)
  show "in_wheel w t \<and> expiry w t = n" if "t \<in> due w"
  proof -
    have t: "t \<in> set (tv w 0 (n mod B))" "t_active (timers w t)" using that by (auto simp: due_def idx)
    then have "placed n (expiry w t) 0 (n mod B)" using assms(2) by (simp add: exact_def)
    then have "expiry w t = n" unfolding placed_def by (metis div_mult_mod_eq power_Suc0_right)
    then show ?thesis using t by (auto simp: in_wheel_def)
  qed
  show "t \<in> due w" if t: "in_wheel w t \<and> expiry w t = n"
  proof -
    obtain l s where ls: "t \<in> set (tv w l s)" "t_active (timers w t)" using t by (auto simp: in_wheel_def)
    then have "placed n n l s" using assms(2) t by (auto simp: exact_def)
    then have "l = 0" "s = n mod B" by (auto simp: placed_def split: if_splits)
    then show ?thesis using ls t now by (auto simp: due_def idx expiry_def word_le_nat_alt)
  qed
qed

lemma exact_tick:
  assumes ok: "wheel_ok n w" and ex: "exact n w" and n: "n + 1 < 2 ^ 64"
  shows "exact (Suc n) (Tick w)"
proof -
  let ?w1 = "tick_slot w"
  note facts = tick_slot_facts [OF ok n]
  have pl: "placed (if l < 1 then Suc n else n) (expiry ?w1 t) l s"
    if t: "t \<in> set (tv ?w1 l s)" "t_active (timers ?w1 t)" for t l s
  proof -
    have old: "t \<in> set (tv w l s)" "t_active (timers w t)" "t \<notin> due w"
      using t facts(3) facts(5) by (auto split: if_splits)
    then have p: "placed n (expiry w t) l s" using ex by (simp add: exact_def)
    have "placed (Suc n) (expiry w t) 0 s" if "l = 0"
    proof (rule placed_level0 [OF p [unfolded that]])
      have "expiry w t \<noteq> n" using old exact_due [OF ok ex n, of t] by (auto simp: in_wheel_def)
      moreover have "expiry w t div B = n div B" "s = expiry w t mod B"
        using p that by (simp_all add: placed_def)
      ultimately show "s \<noteq> n mod B" by (metis div_mult_mod_eq)
    qed
    then show ?thesis using p by (auto simp: facts(4))
  qed
  show ?thesis
  proof (cases "Suc n mod B = 0")
    case True
    have idx: "tv_idx ?w1 0 = 0" using True by (simp add: facts(2))
    have "mid (Suc n) 1 ?w1" using tick_slot_mid [OF ok n] True by simp
    from exact_cascade [OF this] pl show ?thesis by (simp add: Tick_eq idx)
  next
    case False
    have "placed (Suc n) (expiry ?w1 t) l s" if t: "t \<in> set (tv ?w1 l s)" "t_active (timers ?w1 t)" for t l s
    proof (cases "l = 0")
      case nz: False
      then have "Suc n mod B ^ l \<noteq> 0" using mod_power_mono [of "Suc n" 1 l] False by simp
      then show ?thesis using placed_same [of n "expiry ?w1 t" l s] pl [OF t] nz by simp
    qed (use pl [OF t] in simp)
    then show ?thesis using False by (simp add: Tick_eq facts(2) exact_def)
  qed
qed

text \<open>The wheel after \<open>n\<close> ticks, when the timers \<open>A\<close> were added before the first.\<close>

definition on_time :: "(nat \<Rightarrow> Timer) \<Rightarrow> nat set \<Rightarrow> nat \<Rightarrow> TimeWheel \<Rightarrow> bool" where
  "on_time ts A n w \<longleftrightarrow> wheel_ok n w \<and> exact n w \<and>
     (\<forall>t. t_expires (timers w t) = t_expires (ts t) \<and> t_func (timers w t) = t_func (ts t)) \<and>
     (\<forall>t. in_wheel w t \<longleftrightarrow> t \<in> A \<and> n \<le> unat (t_expires (ts t))) \<and>
     distinct (map fst (fired w)) \<and>
     set (fired w) = {(t, t_expires (ts t) + 1) | t. t \<in> A \<and> t_func (ts t) \<and> unat (t_expires (ts t)) < n}"

lemma on_time_tick:
  assumes inv: "on_time ts A n w" and n: "n + 1 < 2 ^ 64"
  shows "on_time ts A (Suc n) (Tick w)"
proof -
  have ok: "wheel_ok n w" and ex: "exact n w" using inv by (simp_all add: on_time_def)
  note sound = Tick_sound [OF ok n]
  have keep: "t_expires (timers w t) = t_expires (ts t)" "t_func (timers w t) = t_func (ts t)" for t
    using inv by (simp_all add: on_time_def)
  have due: "t \<in> due w \<longleftrightarrow> t \<in> A \<and> unat (t_expires (ts t)) = n" for t
    using exact_due [OF ok ex n, of t] inv keep by (auto simp: on_time_def expiry_def)
  obtain f where f: "fired (Tick w) = fired w @ map (\<lambda>t. (t, wheel_now w + 1)) f" "distinct f"
      "set f = {t \<in> due w. t_func (timers w t)}"
    using sound(3) by blast
  have now: "wheel_now w = t_expires (ts t)" if "t \<in> due w" for t
    using that ok by (auto simp: due wheel_ok_def word_unat_eq_iff)
  have "set (fired (Tick w)) = {(t, t_expires (ts t) + 1) | t. t \<in> A \<and> t_func (ts t) \<and> unat (t_expires (ts t)) < n} \<union>
      {(t, wheel_now w + 1) | t. t \<in> due w \<and> t_func (ts t)}"
    using inv f keep by (auto simp: on_time_def)
  also have "\<dots> = {(t, t_expires (ts t) + 1) | t. t \<in> A \<and> t_func (ts t) \<and> unat (t_expires (ts t)) < Suc n}"
    using now by (auto simp: due less_Suc_eq)
  finally have set: "set (fired (Tick w)) = \<dots>" .
  have "fst ` set (fired w) \<inter> set f = {}"
    using inv f(3) by (auto simp: on_time_def due)
  then have "distinct (map fst (fired (Tick w)))"
    using inv f(1,2) by (auto simp: on_time_def comp_def)
  moreover have "in_wheel (Tick w) t \<longleftrightarrow> t \<in> A \<and> Suc n \<le> unat (t_expires (ts t))" for t
    using inv unfolding sound(4) due on_time_def by auto
  ultimately show ?thesis
    using sound(1) exact_tick [OF ok ex n] set keep by (simp add: on_time_def sound(2))
qed

lemma on_time_start:
  assumes "\<And>t. t \<in> set xs \<Longrightarrow> t_active (ts t) \<and> unat (t_expires (ts t)) < 2 ^ 32"
  shows "on_time ts (set xs) 0 (fold (\<lambda>t w. snd (AddTimer (Some t) w)) xs (TimeWheel_new ts))"
proof -
  let ?w0 = "TimeWheel_new ts"
  have eq: "(\<lambda>t w. snd (AddTimer (Some t) w)) = readd" by (auto simp: AddTimer_def fun_eq_iff)
  define w where "w = fold readd xs ?w0"
  have add: "added 0 (set xs) ?w0 w"
    unfolding w_def by (rule readd_fold) (use assms in \<open>auto simp: TimeWheel_new_def expiry_def\<close>)
  have same: "timers w = ts" "fired w = []" "wheel_now w = 0" "tv_idx w = (\<lambda>_. 0)"
    using added_same [OF add] by (simp_all add: TimeWheel_new_def)
  have e: "expiry ?w0 t = unat (t_expires (ts t))" for t by (simp add: TimeWheel_new_def expiry_def)
  have only: "t \<in> set xs \<and> new_loc 0 (unat (t_expires (ts t))) l s" if "t \<in> set (tv w l s)" for t l s
    using added_only [OF add that] unfolding e by (simp add: TimeWheel_new_def)
  have held: "in_wheel w t \<longleftrightarrow> t \<in> set xs" for t
    using only added_new [OF add, of t] assms unfolding in_wheel_def same e
    by (auto simp: TimeWheel_new_def)
  have "placed 0 (unat (t_expires (ts t))) l s" if "t \<in> set (tv w l s)" for t l s
    by (rule placed_new [OF conjunct2 [OF only [OF that]], of 4])
      (use only [OF that] in \<open>auto simp: new_loc_def\<close>)
  then have "exact 0 w" by (simp add: exact_def expiry_def same)
  moreover have "wheel_ok 0 w"
    using held assms only by (auto simp: wheel_ok_def same expiry_def new_loc_def)
  ultimately show ?thesis
    unfolding eq w_def [symmetric] on_time_def using held by (simp add: same)
qed

lemma on_time_ticks:
  assumes "on_time ts A 0 w" "n < 2 ^ 64"
  shows "on_time ts A n ((Tick ^^ n) w)"
  using assms(2)
proof (induction n)
  case (Suc n)
  then show ?case using on_time_tick [of ts A n "(Tick ^^ n) w"] by simp
qed (use assms(1) in simp)

section \<open>Late timers\<close>

text \<open>A timer whose only place is slot \<open>s\<close> of level 0 stays there until the hand comes to the slot.\<close>

definition only_at :: "nat \<Rightarrow> nat \<Rightarrow> TimeWheel \<Rightarrow> bool" where
  "only_at t s w \<longleftrightarrow> t_active (timers w t) \<and> t \<in> set (tv w 0 s) \<and>
     (\<forall>l x. t \<in> set (tv w l x) \<longrightarrow> l = 0 \<and> x = s)"

lemma only_at_tick:
  assumes ok: "wheel_ok n w" and n: "n + 1 < 2 ^ 64" and at: "only_at t s w" and s: "n mod B \<noteq> s"
  shows "only_at t s (Tick w) \<and> t \<notin> due w"
proof -
  have idx: "tv_idx w 0 = n mod B" using ok by (simp add: wheel_ok_def)
  have nd: "t \<notin> due w" using at s by (auto simp: due_def idx only_at_def)
  note facts = tick_slot_facts [OF ok n]
  have slot: "only_at t s (tick_slot w)"
    unfolding only_at_def
  proof (intro conjI allI impI)
    show "t_active (timers (tick_slot w) t)" using at nd by (simp add: only_at_def facts(3))
    show "t \<in> set (tv (tick_slot w) 0 s)"
      using facts(6) [OF _ _ nd, of 0 s] at by (simp add: only_at_def)
    show "l = 0" "x = s" if "t \<in> set (tv (tick_slot w) l x)" for l x
      using facts(5) [OF that] at by (simp_all add: only_at_def)
  qed
  have once: "only_at t s (cascade_once k v)" if mid: "mid (n + 1) k v" and v: "only_at t s v" for k v
  proof -
    note c = cascade_once_facts [OF mid refl refl]
    have k: "k \<noteq> 0" using mid by (simp add: mid_def)
    have "l = 0 \<and> x = s" if "t \<in> set (tv (cascade_once k v) l x)" for l x
      using c(6) [OF that] v k unfolding only_at_def by blast
    moreover have "t \<in> set (tv (cascade_once k v) 0 s)"
      using c(7) [of t 0 s] v k by (simp add: only_at_def)
    moreover have "t_active (timers (cascade_once k v) t)" using v unfolding c(1) only_at_def by blast
    ultimately show ?thesis unfolding only_at_def by blast
  qed
  have "only_at t s (Cascade 1 (tick_slot w))" if "(n + 1) mod B = 0"
    using Cascade_rule [where P = "\<lambda>_. only_at t s" and Q = "only_at t s", OF tick_slot_mid [OF ok n that] slot]
      once by blast
  then show ?thesis using slot nd by (simp add: Tick_eq facts(2))
qed

lemma only_at_ticks:
  assumes "wheel_ok n w" "n + k < 2 ^ 64" "only_at t s w" "\<And>j. j < k \<Longrightarrow> (n + j) mod B \<noteq> s"
  shows "wheel_ok (n + k) ((Tick ^^ k) w) \<and> only_at t s ((Tick ^^ k) w) \<and>
    timers ((Tick ^^ k) w) t = timers w t \<and> (t \<in> fst ` set (fired ((Tick ^^ k) w)) \<longleftrightarrow> t \<in> fst ` set (fired w))"
  using assms(2,4)
proof (induction k)
  case (Suc k)
  let ?w = "(Tick ^^ k) w"
  have IH: "wheel_ok (n + k) ?w" "only_at t s ?w" "timers ?w t = timers w t"
      "t \<in> fst ` set (fired ?w) \<longleftrightarrow> t \<in> fst ` set (fired w)"
    using Suc by auto
  have n: "n + k + 1 < 2 ^ 64" using Suc.prems(1) by simp
  note step = only_at_tick [OF IH(1) n IH(2) Suc.prems(2) [of k, simplified]]
  obtain ts where "fired (Tick ?w) = fired ?w @ map (\<lambda>t. (t, wheel_now ?w + 1)) ts" "set ts \<subseteq> due ?w"
    using tick_fired [OF IH(1) n] by blast
  then have "t \<in> fst ` set (fired (Tick ?w)) \<longleftrightarrow> t \<in> fst ` set (fired ?w)"
    using step by (auto simp: image_Un image_image)
  then show ?case
    using step IH tick_ok [OF IH(1) n] tick_timers [OF IH(1) n] by simp
qed (use assms(1,3) in simp)

lemma passed_slot:
  assumes "d < n mod B" "j < 256 - n mod B + d"
  shows "(n + j) mod B \<noteq> d"
proof (cases "n mod B + j < B")
  case True
  then have "(n + j) mod B = n mod B + j" by (metis mod_add_left_eq mod_less)
  then show ?thesis using assms(1) by linarith
next
  case False
  have "n mod B < B" by simp
  then have "n mod B + j - B < B" using assms by linarith
  then have "(n + j) mod B = n mod B + j - B"
    using False by (metis mod_add_left_eq le_mod_geq mod_less not_less)
  then show ?thesis using assms(2) False \<open>n mod B < B\<close> by linarith
qed

section \<open>Properties\<close>

text \<open>C24: Timers added to a new wheel before its first tick, with expiry times below 2^32, fire exactly
  once and exactly one tick after their expiry time: after any number n of ticks the callbacks run so
  far are those of the timers that expire before n, each at its expiry time plus one.\<close>

theorem fresh_wheel_fires_on_time:
  assumes "\<And>t. t \<in> set xs \<Longrightarrow> t_active (ts t) \<and> unat (t_expires (ts t)) < 2 ^ 32" and "n < 2 ^ 64"
    and "w = (Tick ^^ n) (fold (\<lambda>t w. snd (AddTimer (Some t) w)) xs (TimeWheel_new ts))"
  shows "distinct (map fst (fired w)) \<and>
     set (fired w) = {(t, t_expires (ts t) + 1) | t. t \<in> set xs \<and> t_func (ts t) \<and> unat (t_expires (ts t)) < n}"
  using on_time_ticks [OF on_time_start [OF assms(1)] assms(2)] by (simp add: on_time_def assms(3))

text \<open>The timers of the driver in \<^verbatim>\<open>main.cc\<close>.\<close>

definition TestTimeWheel_timers :: "nat \<Rightarrow> Timer" where
  "TestTimeWheel_timers t = Timer_new ([5, 300, 552, 66048] ! (t mod 4)) True"

definition TestTimeWheel :: TimeWheel where
  "TestTimeWheel = (Tick ^^ 70000)
     (fold (\<lambda>t w. snd (AddTimer (Some t) w)) [0, 1, 2, 3] (TimeWheel_new TestTimeWheel_timers))"

theorem fresh_wheel_fires_on_time_witness:
  "set (fired TestTimeWheel) = {(0, 6), (1, 301), (2, 553), (3, 66049)}"
proof -
  have "set (fired TestTimeWheel) = {(t, t_expires (TestTimeWheel_timers t) + 1) | t.
      t \<in> set [0, 1, 2, 3] \<and> t_func (TestTimeWheel_timers t) \<and> unat (t_expires (TestTimeWheel_timers t)) < 70000}"
    by (rule conjunct2 [OF fresh_wheel_fires_on_time [OF _ _ TestTimeWheel_def]])
      (auto simp: TestTimeWheel_timers_def Timer_new_def)
  also have "\<dots> = {(0, 6), (1, 301), (2, 553), (3, 66049)}"
    by (auto simp: TestTimeWheel_timers_def Timer_new_def)
  finally show ?thesis .
qed

text \<open>C25: Whatever the order of the calls, a timer is never called early nor twice, and an accepted
  timer is never lost: it stays in some slot of the wheel until its callback has run.\<close>

theorem timers_never_early_never_lost:
  assumes "\<And>t. t_active (ts t)" and "OpRemove None \<notin> set ops" and "ticks ops < 2 ^ 64"
  shows "\<exists>rs w. run wheel_step ops (TimeWheel_new ts) = Some (rs, w) \<and>
     distinct (map fst (fired w)) \<and> (\<forall>(t, m)\<in>set (fired w). t_expires (ts t) \<le> m) \<and>
     (\<forall>t\<in>accepted ops rs. in_wheel w t \<or> \<not> t_func (ts t) \<or> t \<in> fst ` set (fired w))"
proof -
  obtain rs w where w: "run wheel_step ops (TimeWheel_new ts) = Some (rs, w)"
      "safe ts (ticks ops) (accepted ops rs) w"
    using run_safe [OF new_safe [of ts, OF assms(1)] assms(2)] assms(3) by auto
  then show ?thesis
    by (intro exI [of _ rs] exI [of _ w]) (auto simp: safe_def)
qed

theorem timers_never_early_never_lost_witness:
  "\<exists>rs w. run wheel_step [OpAdd (Some 7), OpTick] (TimeWheel_new (\<lambda>t. Timer_new 2 True)) = Some (rs, w) \<and>
     distinct (map fst (fired w))"
  using timers_never_early_never_lost [of "\<lambda>t. Timer_new 2 True" "[OpAdd (Some 7), OpTick]"]
  by (auto simp: Timer_new_def)

text \<open>A timer with a delay smaller than the position of the hand of level 0 is put into a slot that
  the hand has already passed: on a wheel at time n, a delay d below n mod 256 is served only when the
  hand comes round again, at tick n + d + 1 + (256 - n mod 256), instead of n + d + 1.\<close>

theorem short_timer_is_late:
  assumes "wheel_ok n w" and "n + 600 < 2 ^ 64"
    and "t_active (timers w t)" and "t_func (timers w t)" and "\<And>l s. t \<notin> set (tv w l s)"
    and "t \<notin> fst ` set (fired w)" and "expiry w t = n + d" and "d < n mod B"
    and "w' = snd (AddTimer (Some t) w)" and "k = d + (256 - n mod B)"
  shows "t \<notin> fst ` set (fired ((Tick ^^ k) w')) \<and> (t, of_nat (n + k + 1)) \<in> set (fired ((Tick ^^ (k + 1)) w'))"
proof -
  have now: "unat (wheel_now w) = n" using assms(1) by (simp add: wheel_ok_def)
  have dB: "d < B" using assms(8) mod_less_divisor [of B n] by linarith
  have "expiry w t < unat (wheel_now w) + 2 ^ 32" using dB assms(7) now by simp
  then obtain l s where add: "w' = push_slot l s t w" "new_loc n (n + d) l s"
    using AddTimer_accepts [OF assms(3)] assms(7,9) now by auto
  have ls: "l = 0" "s = d"
  proof -
    show "l = 0"
    proof (rule ccontr)
      assume "l \<noteq> 0"
      then have "B ^ l \<le> d" using add(2) by (simp add: new_loc_def)
      moreover have "B ^ 1 \<le> B ^ l" using \<open>l \<noteq> 0\<close> by (intro power_increasing) simp_all
      ultimately show False using dB by simp
    qed
    then show "s = d" using add(2) by (simp add: new_loc_def)
  qed
  have ok: "wheel_ok n w'"
    using assms(1,7,2,8) dB by (auto simp: add(1) ls wheel_ok_def in_wheel_def)
  have at: "only_at t d w'" using assms(3,5) by (auto simp: only_at_def add(1) ls)
  have k: "n + k < 2 ^ 64" "n + k + 1 < 2 ^ 64" using assms(2,10) dB by simp_all
  let ?v = "(Tick ^^ k) w'"
  have run: "wheel_ok (n + k) ?v" "only_at t d ?v" "timers ?v t = timers w' t"
      "t \<in> fst ` set (fired ?v) \<longleftrightarrow> t \<in> fst ` set (fired w')"
    using only_at_ticks [OF ok k(1) at] passed_slot [OF assms(8)] assms(10) by (simp_all add: add.commute)
  have "n mod B < B" by simp
  then have "n + k = d + B * (n div B + 1)"
  proof -
    define q r where "q = n div B" and "r = n mod B"
    have "n = B * q + r" "r < B" by (simp_all add: q_def r_def)
    then show ?thesis unfolding q_def [symmetric] assms(10) r_def [symmetric] by simp
  qed
  then have "(n + k) mod B = d" using dB by (simp only: mod_mult_self2 mod_less)
  moreover have "d \<le> k" unfolding assms(10) by (rule le_add1)
  moreover have "tv_idx ?v 0 = (n + k) mod B" and nowv: "unat (wheel_now ?v) = n + k"
    using run(1) by (simp_all add: wheel_ok_def)
  ultimately have idx: "tv_idx ?v 0 = d" by simp
  have "unat (wheel_now ?v + 1) = n + k + 1" using nowv k(2) by (simp add: unat_word_ariths)
  moreover have "unat (t_expires (timers ?v t)) = n + d"
    using assms(7) unfolding run(3) unfolding add(1) by (simp add: expiry_def)
  ultimately have "t_expires (timers ?v t) \<le> wheel_now ?v + 1"
    using \<open>d \<le> k\<close> by (simp add: word_le_nat_alt)
  then have "t \<in> due ?v"
    using run(2) unfolding due_def idx only_at_def by simp
  then obtain ts where "fired (Tick ?v) = fired ?v @ map (\<lambda>t. (t, wheel_now ?v + 1)) ts" "t \<in> set ts"
    using tick_fired [OF run(1) k(2)] run(3) assms(4) by (auto simp: add(1))
  moreover have "wheel_now ?v + 1 = of_nat (n + k + 1)"
  proof -
    have "of_nat (unat (wheel_now ?v) + 1) = wheel_now ?v + 1" by simp
    then show ?thesis unfolding nowv by simp
  qed
  ultimately show ?thesis using run(4) assms(6) by (auto simp: add(1))
qed

theorem short_timer_is_late_witness:
  "\<exists>w. wheel_now w = 10 \<and>
     0 \<notin> fst ` set (fired ((Tick ^^ 251) (snd (AddTimer (Some 0) w)))) \<and>
     (0, 262) \<in> set (fired ((Tick ^^ 252) (snd (AddTimer (Some 0) w))))"
proof -
  define w where "w = (TimeWheel_new (\<lambda>t. Timer_new 15 True))\<lparr>wheel_now := 10, tv_idx := (\<lambda>_. 0)(0 := 10)\<rparr>"
  have "10 div B ^ l mod B = 0" if "0 < l" for l
  proof -
    have "B ^ 1 \<le> B ^ l" using that by (intro power_increasing) simp_all
    then show ?thesis by simp
  qed
  then have "wheel_ok 10 w" by (auto simp: w_def wheel_ok_def TimeWheel_new_def in_wheel_def)
  moreover have "t_active (timers w 0)" "t_func (timers w 0)" "\<And>l s. 0 \<notin> set (tv w l s)"
      "0 \<notin> fst ` set (fired w)" "expiry w 0 = 10 + 5"
    by (simp_all add: w_def TimeWheel_new_def Timer_new_def expiry_def)
  ultimately have "0 \<notin> fst ` set (fired ((Tick ^^ 251) (snd (AddTimer (Some 0) w)))) \<and>
      (0, of_nat (10 + 251 + 1)) \<in> set (fired ((Tick ^^ (251 + 1)) (snd (AddTimer (Some 0) w))))"
    by (intro short_timer_is_late [where n = 10 and d = 5, OF _ _ _ _ _ _ _ _ refl]) simp_all
  then show ?thesis by (intro exI [of _ w]) (simp add: w_def)
qed

end
