(* ===== verification/Block_List.thy ===== *)
theory Block_List
  imports Prelude "HOL-Library.AList"
begin

text \<open>
  \<^verbatim>\<open>example-blocklist/block_list.{h,cc}\<close>: a virtual disk is blocked when it reports enough failures of
  one kind within an interval. The values the three calls of \<^verbatim>\<open>Now()\<close> return in \<^verbatim>\<open>ReportFailed\<close> are
  arguments. The hash maps are association lists with distinct keys. The lines \<^verbatim>\<open>ReportFailed\<close> prints depend
  on the state it finds only, and are a function of their own, \<^verbatim>\<open>ReportFailed_messages\<close>.
\<close>

section \<open>The block list\<close>

definition ERROR_CONNECT :: int where "ERROR_CONNECT = -1"
definition ERROR_IO_ERROR :: int where "ERROR_IO_ERROR = -2"

datatype BlockType = BLOCK_TYPE_CONNECT_ERROR | BLOCK_TYPE_DISK_ERROR | BLOCK_TYPE_NUM

text \<open>\<^verbatim>\<open>operator<<\<close> of a stream.\<close>

fun print_BlockType :: "BlockType \<Rightarrow> string" where
  "print_BlockType BLOCK_TYPE_CONNECT_ERROR = ''BlockTypeConnectError''"
| "print_BlockType BLOCK_TYPE_DISK_ERROR = ''BlockTypeDiskError''"
| "print_BlockType BLOCK_TYPE_NUM = ''UnknowBlockType''"

record BlockPolicy =
  record_interval_ms :: u64
  block_threhold_cnt :: u32

record BlockItem =
  bi_type :: BlockType
  block_timestamp :: u64

type_synonym SuspectRecords = "(BlockType \<times> u64 list) list"

record BlockList =
  bl_cap :: u32
  block_policy :: "(BlockType \<times> BlockPolicy) list"
  block_items :: "(u64 \<times> BlockItem) list"
  suspect_items :: "(u64 \<times> SuspectRecords) list"

definition BlockList_new :: "u32 \<Rightarrow> (BlockType \<times> BlockPolicy) list \<Rightarrow> BlockList" where
  "BlockList_new cap policy =
     \<lparr>bl_cap = cap, block_policy = policy, block_items = [], suspect_items = []\<rparr>"

definition ConvertErrorToBlockType :: "int \<Rightarrow> BlockType" where
  "ConvertErrorToBlockType r =
     (if r = ERROR_CONNECT then BLOCK_TYPE_CONNECT_ERROR
      else if r = ERROR_IO_ERROR then BLOCK_TYPE_DISK_ERROR
      else BLOCK_TYPE_NUM)"

definition IsBlock :: "u64 \<Rightarrow> BlockList \<Rightarrow> bool" where
  "IsBlock vdisk_id s \<longleftrightarrow> map_of (block_items s) vdisk_id \<noteq> None"

definition GetBlockList :: "BlockList \<Rightarrow> u64 list" where
  "GetBlockList s = map fst (block_items s)"

definition Process :: "BlockList \<Rightarrow> BlockList" where
  "Process s = s"

text \<open>\<^verbatim>\<open>operator[]\<close> of the hash maps: an absent key is inserted with an empty value.\<close>

definition lookup_or_empty :: "('k \<times> 'v list) list \<Rightarrow> 'k \<Rightarrow> 'v list" where
  "lookup_or_empty m k = (case map_of m k of None \<Rightarrow> [] | Some v \<Rightarrow> v)"

definition block_disk :: "u64 \<Rightarrow> BlockType \<Rightarrow> u64 \<Rightarrow> SuspectRecords \<Rightarrow> BlockList \<Rightarrow> BlockList" where
  "block_disk vdisk_id type t records s =
     (let records' = AList.delete type records
      in s\<lparr>block_items :=
             (if IsBlock vdisk_id s then block_items s
              else (vdisk_id, \<lparr>bi_type = type, block_timestamp = t\<rparr>) # block_items s),
           suspect_items :=
             (if records' = [] then AList.delete vdisk_id (suspect_items s)
              else AList.update vdisk_id records' (suspect_items s))\<rparr>)"

definition ReportFailed :: "u64 \<Rightarrow> int \<Rightarrow> u64 \<Rightarrow> u64 \<Rightarrow> u64 \<Rightarrow> BlockList \<Rightarrow> BlockList" where
  "ReportFailed vdisk_id r now1 now2 now3 s =
     (let type = ConvertErrorToBlockType r in
      if type = BLOCK_TYPE_NUM then s
      else if IsBlock vdisk_id s then s
      else
        (case map_of (block_policy s) type of
           None \<Rightarrow> s
         | Some bp \<Rightarrow>
             (let records = lookup_or_empty (suspect_items s) vdisk_id;
                  records1 = AList.update type (lookup_or_empty records type @ [now1]) records
              in if record_interval_ms bp > 0 then
                   (let ttl = now2 - record_interval_ms bp;
                        faileds = filter (\<lambda>t. \<not> t < ttl) (lookup_or_empty records1 type);
                        records2 = AList.update type faileds records1;
                        s2 = s\<lparr>suspect_items := AList.update vdisk_id records2 (suspect_items s)\<rparr>
                    in if length faileds < unat (block_threhold_cnt bp) then s2
                       else block_disk vdisk_id type now3 records2 s2)
                 else block_disk vdisk_id type now3 records1
                        (s\<lparr>suspect_items := AList.update vdisk_id records1 (suspect_items s)\<rparr>))))"

text \<open>The lines \<^verbatim>\<open>ReportFailed\<close> prints, one string for each.\<close>

definition ReportFailed_messages :: "u64 \<Rightarrow> int \<Rightarrow> BlockList \<Rightarrow> string list" where
  "ReportFailed_messages vdisk_id r s =
     (let type = ConvertErrorToBlockType r;
          disk = show_nat (unat vdisk_id)
      in (''ReportFailed vdisk_id:'' @ disk @ '' error:'' @ show_int r) #
         (if type = BLOCK_TYPE_NUM then
            [''ReportFailed vdisk_id:'' @ disk @ '' unknow error:'' @ show_int r]
          else if IsBlock vdisk_id s then
            [''ReportFailed vdisk already blocked. vdisk_id:'' @ disk]
          else
            (case map_of (block_policy s) type of
               None \<Rightarrow> [''ReportFailed vdisk_id:'' @ disk @ '' unable to find policy for '' @ print_BlockType type]
             | Some _ \<Rightarrow> [])))"

text \<open>A report and the three times read while it is handled.\<close>

record report =
  rp_disk :: u64
  rp_error :: int
  rp_now1 :: u64
  rp_now2 :: u64
  rp_now3 :: u64

definition handle :: "report \<Rightarrow> BlockList \<Rightarrow> BlockList" where
  "handle e s = ReportFailed (rp_disk e) (rp_error e) (rp_now1 e) (rp_now2 e) (rp_now3 e) s"

definition handle_all :: "report list \<Rightarrow> BlockList \<Rightarrow> BlockList" where
  "handle_all es s = fold handle es s"

section \<open>What a report does\<close>

definition rp_type :: "report \<Rightarrow> BlockType" where
  "rp_type e = ConvertErrorToBlockType (rp_error e)"

definition records_of :: "BlockList \<Rightarrow> u64 \<Rightarrow> BlockType \<Rightarrow> u64 list" where
  "records_of s v T = lookup_or_empty (lookup_or_empty (suspect_items s) v) T"

definition kept :: "BlockPolicy \<Rightarrow> u64 \<Rightarrow> u64 list \<Rightarrow> u64 list" where
  "kept bp now2 ts = filter (\<lambda>t. \<not> t < now2 - record_interval_ms bp) ts"

lemma lookup_update [simp]:
  "lookup_or_empty (AList.update k v m) k' = (if k' = k then v else lookup_or_empty m k')"
  by (simp add: lookup_or_empty_def update_conv')

lemma lookup_delete [simp]:
  "lookup_or_empty (AList.delete k m) k' = (if k' = k then [] else lookup_or_empty m k')"
  by (simp add: lookup_or_empty_def delete_conv')

lemma lookup_Nil [simp]: "lookup_or_empty [] k = []"
  by (simp add: lookup_or_empty_def)

lemma block_disk_facts:
  shows "IsBlock v' (block_disk v T t recs s) \<longleftrightarrow> v' = v \<or> IsBlock v' s"
    and "block_policy (block_disk v T t recs s) = block_policy s"
    and "v' \<noteq> v \<Longrightarrow> records_of (block_disk v T t recs s) v' = records_of s v'"
    and "distinct (map fst (block_items s)) \<Longrightarrow> distinct (map fst (block_items (block_disk v T t recs s)))"
  by (auto simp: block_disk_def IsBlock_def Let_def records_of_def fun_eq_iff map_of_eq_None_iff
      split: option.splits)

text \<open>A report blocks the disk exactly when it is not ignored and the failures that remain in the
  interval reach the threshold.\<close>

definition blocks_now :: "report \<Rightarrow> BlockPolicy \<Rightarrow> u64 list \<Rightarrow> bool" where
  "blocks_now e bp ts \<longleftrightarrow> record_interval_ms bp = 0 \<or>
     unat (block_threhold_cnt bp) \<le> length (kept bp (rp_now2 e) (ts @ [rp_now1 e]))"

lemma handle_ignored:
  "rp_type e = BLOCK_TYPE_NUM \<or> IsBlock (rp_disk e) s \<or> map_of (block_policy s) (rp_type e) = None \<Longrightarrow>
     handle e s = s"
  by (auto simp: handle_def ReportFailed_def rp_type_def Let_def)

lemma handle_policy [simp]: "block_policy (handle e s) = block_policy s"
  by (simp add: handle_def ReportFailed_def Let_def block_disk_facts split: option.split)

lemma handle_other:
  "v \<noteq> rp_disk e \<Longrightarrow> IsBlock v (handle e s) = IsBlock v s \<and> records_of (handle e s) v = records_of s v"
  by (auto simp: handle_def ReportFailed_def Let_def block_disk_facts split: option.splits)
    (auto simp: IsBlock_def records_of_def)

lemma handle_counted:
  assumes "rp_type e = T" "T \<noteq> BLOCK_TYPE_NUM" "rp_disk e = v" "\<not> IsBlock v s"
    and "map_of (block_policy s) T = Some bp"
  shows "IsBlock v (handle e s) \<longleftrightarrow> blocks_now e bp (records_of s v T)"
    and "\<not> blocks_now e bp (records_of s v T) \<Longrightarrow>
      records_of (handle e s) v = (records_of s v)(T := kept bp (rp_now2 e) (records_of s v T @ [rp_now1 e]))"
proof -
  let ?recs = "lookup_or_empty (suspect_items s) v"
  have T: "ConvertErrorToBlockType (rp_error e) = T" using assms(1) by (simp add: rp_type_def)
  have pos: "0 < i \<longleftrightarrow> i \<noteq> 0" for i :: u64 by (simp add: word_neq_0_conv)
  show "IsBlock v (handle e s) \<longleftrightarrow> blocks_now e bp (records_of s v T)"
    using assms(2-5)
    by (auto simp: handle_def ReportFailed_def T Let_def block_disk_facts blocks_now_def kept_def records_of_def pos)
      (auto simp: IsBlock_def)
  show "records_of (handle e s) v = (records_of s v)(T := kept bp (rp_now2 e) (records_of s v T @ [rp_now1 e]))"
    if "\<not> blocks_now e bp (records_of s v T)"
    using assms(2-5) that
    by (auto simp: handle_def ReportFailed_def T Let_def blocks_now_def kept_def records_of_def pos fun_eq_iff)
qed

text \<open>The messages tell what happened: a second line is printed exactly for a report that is ignored.\<close>

lemma second_message_ignored:
  "length (ReportFailed_messages (rp_disk e) (rp_error e) s) = 2 \<longleftrightarrow>
     rp_type e = BLOCK_TYPE_NUM \<or> IsBlock (rp_disk e) s \<or> map_of (block_policy s) (rp_type e) = None"
  by (simp add: ReportFailed_messages_def rp_type_def Let_def split: option.split)

lemma messages_tell_ignored:
  assumes "length (ReportFailed_messages (rp_disk e) (rp_error e) s) = 2"
  shows "handle e s = s"
  using assms unfolding second_message_ignored by (rule handle_ignored)

lemma messages_tell_counted:
  assumes "length (ReportFailed_messages (rp_disk e) (rp_error e) s) \<noteq> 2"
  shows "\<exists>bp. map_of (block_policy s) (rp_type e) = Some bp \<and>
    (IsBlock (rp_disk e) (handle e s) \<longleftrightarrow> blocks_now e bp (records_of s (rp_disk e) (rp_type e)))"
  using assms handle_counted(1) [of e _ _ s] unfolding second_message_ignored by blast

section \<open>Specification: failures in a sliding window\<close>

definition in_window :: "BlockPolicy \<Rightarrow> u64 \<Rightarrow> u64 \<Rightarrow> bool" where
  "in_window bp now2 t \<longleftrightarrow> unat now2 \<le> unat t + unat (record_interval_ms bp)"

definition failures :: "u64 \<Rightarrow> BlockType \<Rightarrow> report list \<Rightarrow> u64 list" where
  "failures v T es = map rp_now1 (filter (\<lambda>e. rp_disk e = v \<and> rp_type e = T) es)"

text \<open>After the reports \<open>past\<close>, the report \<open>e\<close> is the one that blocks disk \<open>v\<close>.\<close>

definition trip :: "(BlockType \<times> BlockPolicy) list \<Rightarrow> u64 \<Rightarrow> report list \<Rightarrow> report \<Rightarrow> bool" where
  "trip policy v past e \<longleftrightarrow> rp_disk e = v \<and> rp_type e \<noteq> BLOCK_TYPE_NUM \<and>
     (case map_of policy (rp_type e) of
        None \<Rightarrow> False
      | Some bp \<Rightarrow> record_interval_ms bp = 0 \<or>
          unat (block_threhold_cnt bp) \<le>
            length (filter (in_window bp (rp_now2 e)) (failures v (rp_type e) (past @ [e]))))"

definition trips :: "(BlockType \<times> BlockPolicy) list \<Rightarrow> u64 \<Rightarrow> report list \<Rightarrow> bool" where
  "trips policy v es \<longleftrightarrow> (\<exists>i<length es. trip policy v (take i es) (es ! i))"

text \<open>The clock does not go back, and reads more than the longest interval.\<close>

definition clock_ok :: "(BlockType \<times> BlockPolicy) list \<Rightarrow> report list \<Rightarrow> bool" where
  "clock_ok policy es \<longleftrightarrow> sorted_wrt (\<lambda>e e'. rp_now2 e \<le> rp_now1 e') es \<and>
     (\<forall>e\<in>set es. rp_now1 e \<le> rp_now2 e \<and> (\<forall>p\<in>set policy. record_interval_ms (snd p) \<le> rp_now2 e))"

lemma trips_snoc: "trips policy v (es @ [e]) \<longleftrightarrow> trips policy v es \<or> trip policy v es e"
proof -
  have "(\<exists>i<Suc (length es). trip policy v (take i (es @ [e])) ((es @ [e]) ! i)) \<longleftrightarrow>
      (\<exists>i<length es. trip policy v (take i es) (es ! i)) \<or> trip policy v es e"
    unfolding Ex_less_Suc by (simp add: nth_append cong: conj_cong) blast
  then show ?thesis by (simp only: trips_def length_append_singleton)
qed

lemma kept_window:
  "record_interval_ms bp \<le> c \<Longrightarrow> kept bp c ts = filter (in_window bp c) ts"
proof -
  assume le: "record_interval_ms bp \<le> c"
  have "\<not> t < c - record_interval_ms bp \<longleftrightarrow> in_window bp c t" for t
    using unat_sub [OF le] by (simp add: word_less_nat_alt in_window_def) linarith
  then show ?thesis by (simp add: kept_def)
qed

lemma window_mono: "unat c \<le> unat c' \<Longrightarrow> in_window bp c' t \<Longrightarrow> in_window bp c t"
  by (simp add: in_window_def)

lemma failures_snoc:
  "failures v T (es @ [e]) = failures v T es @ (if rp_disk e = v \<and> rp_type e = T then [rp_now1 e] else [])"
  by (simp add: failures_def)

text \<open>As long as a disk is not blocked its records are its failures, up to those too old to count.\<close>

definition tracks :: "(BlockType \<times> BlockPolicy) list \<Rightarrow> u64 \<Rightarrow> report list \<Rightarrow> BlockList \<Rightarrow> bool" where
  "tracks policy v es s \<longleftrightarrow> block_policy s = policy \<and> (IsBlock v s \<longleftrightarrow> trips policy v es) \<and>
     (\<not> trips policy v es \<longrightarrow>
       (\<forall>T bp c. map_of policy T = Some bp \<longrightarrow> T \<noteq> BLOCK_TYPE_NUM \<longrightarrow> (\<forall>e\<in>set es. rp_now2 e \<le> c) \<longrightarrow>
          filter (in_window bp c) (records_of s v T) = filter (in_window bp c) (failures v T es)))"

lemma tracks_uncounted:
  assumes tr: "tracks policy v es s"
    and no: "\<not> (rp_disk e = v \<and> rp_type e \<noteq> BLOCK_TYPE_NUM \<and> \<not> IsBlock v s \<and> map_of policy (rp_type e) \<noteq> None)"
  shows "tracks policy v (es @ [e]) (handle e s)"
proof -
  have pol: "block_policy s = policy" using tr by (simp add: tracks_def)
  have same: "IsBlock v (handle e s) = IsBlock v s \<and> records_of (handle e s) v = records_of s v"
    using no handle_other [of v e s] handle_ignored [of e s] pol by (cases "rp_disk e = v") auto
  have "trips policy v (es @ [e]) \<longleftrightarrow> trips policy v es"
    using no tr by (auto simp: trips_snoc trip_def tracks_def split: option.splits)
  moreover have "failures v T (es @ [e]) = failures v T es"
    if "map_of policy T = Some bp" "T \<noteq> BLOCK_TYPE_NUM" "\<not> trips policy v es" for T bp
    using no that tr by (auto simp: failures_snoc tracks_def)
  ultimately show ?thesis using tr same by (simp add: tracks_def)
qed

lemma in_window_later:
  "n \<le> c \<Longrightarrow> filter (in_window bp c) (filter (in_window bp n) xs) = filter (in_window bp c) xs"
  by (auto simp: filter_filter in_window_def word_le_nat_alt intro!: filter_cong)

lemma tracks_snoc:
  assumes tr: "tracks policy v es s" and clock: "clock_ok policy (es @ [e])"
  shows "tracks policy v (es @ [e]) (handle e s)"
proof (cases "rp_disk e = v \<and> rp_type e \<noteq> BLOCK_TYPE_NUM \<and> \<not> IsBlock v s \<and> map_of policy (rp_type e) \<noteq> None")
  case False
  then show ?thesis by (rule tracks_uncounted [OF tr])
next
  case True
  define T where "T = rp_type e"
  obtain bp where bp: "map_of policy T = Some bp" using True by (auto simp: T_def)
  have pol: "block_policy s = policy" and nt: "\<not> trips policy v es" using tr True by (simp_all add: tracks_def)
  have int: "record_interval_ms bp \<le> rp_now2 e"
    using clock map_of_SomeD [OF bp] by (force simp: clock_ok_def)
  have early: "\<forall>x\<in>set es. rp_now2 x \<le> rp_now2 e"
    using clock by (force simp: clock_ok_def sorted_wrt_append)
  have win: "filter (in_window bp (rp_now2 e)) (records_of s v T @ [rp_now1 e]) =
      filter (in_window bp (rp_now2 e)) (failures v T (es @ [e]))"
    using tr nt bp True early by (simp add: tracks_def failures_snoc T_def)
  have b: "blocks_now e bp (records_of s v T) \<longleftrightarrow> trip policy v es e"
    unfolding blocks_now_def trip_def kept_window [OF int] win T_def [symmetric]
    using True bp by (simp add: T_def)
  note cnt = handle_counted [of e T v s bp]
  have cnt1: "IsBlock v (handle e s) \<longleftrightarrow> trips policy v (es @ [e])"
    using cnt(1) True bp pol b nt by (simp add: T_def trips_snoc)
  have "filter (in_window bp' c) (records_of (handle e s) v T') = filter (in_window bp' c) (failures v T' (es @ [e]))"
    if no: "\<not> trips policy v (es @ [e])" and T': "map_of policy T' = Some bp'" "T' \<noteq> BLOCK_TYPE_NUM"
      and c: "\<forall>x\<in>set (es @ [e]). rp_now2 x \<le> c" for T' bp' c
  proof -
    have "\<not> blocks_now e bp (records_of s v T)" using no b by (simp add: trips_snoc)
    then have rec: "records_of (handle e s) v =
        (records_of s v)(T := filter (in_window bp (rp_now2 e)) (records_of s v T @ [rp_now1 e]))"
      using cnt(2) True bp pol by (simp add: T_def kept_window [OF int])
    show ?thesis
    proof (cases "T' = T")
      case same: True
      then have "bp' = bp" using T' bp by simp
      moreover have "rp_now2 e \<le> c" using c by simp
      ultimately show ?thesis unfolding rec
        using win same in_window_later [of "rp_now2 e" c bp] by (simp del: filter_append filter_filter)
    next
      case False
      then show ?thesis using rec tr nt T' c by (auto simp: tracks_def failures_snoc T_def)
    qed
  qed
  then show ?thesis using cnt1 pol by (simp add: tracks_def)
qed

lemma tracks_all:
  "clock_ok policy es \<Longrightarrow> tracks policy v es (handle_all es (BlockList_new cap policy))"
proof (induction es rule: rev_induct)
  case Nil
  then show ?case
    by (simp add: tracks_def handle_all_def BlockList_new_def IsBlock_def trips_def records_of_def failures_def)
next
  case (snoc e es)
  then have "tracks policy v es (handle_all es (BlockList_new cap policy))"
    by (simp add: clock_ok_def sorted_wrt_append)
  from tracks_snoc [OF this snoc.prems] show ?case by (simp add: handle_all_def)
qed

lemma handle_items:
  assumes "distinct (map fst (block_items s))"
  shows "distinct (map fst (block_items (handle e s)))" and "set (GetBlockList s) \<subseteq> set (GetBlockList (handle e s))"
  using assms
  by (auto simp: handle_def ReportFailed_def Let_def block_disk_def GetBlockList_def IsBlock_def map_of_eq_None_iff
      split: option.splits)

lemma handle_all_items:
  "distinct (map fst (block_items s)) \<Longrightarrow>
     distinct (map fst (block_items (handle_all es s))) \<and> set (GetBlockList s) \<subseteq> set (GetBlockList (handle_all es s))"
proof (induction es arbitrary: s)
  case (Cons e es)
  then show ?case using handle_items [OF Cons.prems, of e] by (fastforce simp: handle_all_def)
qed (simp add: handle_all_def)

lemma IsBlock_GetBlockList: "IsBlock v s \<longleftrightarrow> v \<in> set (GetBlockList s)"
  by (simp add: IsBlock_def GetBlockList_def map_of_eq_None_iff)

section \<open>The drivers of main.cc\<close>

definition TestBlockListWithoutBlockPolicy :: "(u64 \<times> u64 \<times> u64) list \<Rightarrow> bool" where
  "TestBlockListWithoutBlockPolicy ts \<longleftrightarrow>
     (let bl = BlockList_new 3 [] in
      GetBlockList bl = [] \<and>
      (let rep = \<lambda>v r i. ReportFailed v r (fst (ts ! i)) (fst (snd (ts ! i))) (snd (snd (ts ! i)));
           bl = rep 1 ERROR_CONNECT 2 (rep 0 ERROR_IO_ERROR 1 (rep 0 ERROR_IO_ERROR 0 bl))
       in True))"

definition TestBlockListFunctional :: "(u64 \<times> u64 \<times> u64) list \<Rightarrow> bool" where
  "TestBlockListFunctional ts \<longleftrightarrow>
     (let tb = [(BLOCK_TYPE_CONNECT_ERROR, \<lparr>record_interval_ms = 3000, block_threhold_cnt = 2\<rparr>),
                (BLOCK_TYPE_DISK_ERROR, \<lparr>record_interval_ms = 0, block_threhold_cnt = 1\<rparr>)];
          rep = \<lambda>v r i. ReportFailed v r (fst (ts ! i)) (fst (snd (ts ! i))) (snd (snd (ts ! i)));
          bl0 = BlockList_new 3 tb;
          bl1 = rep 3 ERROR_IO_ERROR 0 bl0;
          bl2 = rep 3 ERROR_IO_ERROR 1 bl1
      in GetBlockList bl0 = [] \<and> length (GetBlockList bl1) = 1 \<and> GetBlockList bl1 ! 0 = 3 \<and>
         length (GetBlockList bl2) = 1 \<and> GetBlockList bl2 ! 0 = 3)"

lemma TestBlockListFunctional_passes: "TestBlockListFunctional ts"
  by (simp add: TestBlockListFunctional_def Let_def GetBlockList_def BlockList_new_def ReportFailed_def
      ConvertErrorToBlockType_def ERROR_CONNECT_def ERROR_IO_ERROR_def IsBlock_def block_disk_def)

section \<open>Properties\<close>

text \<open>C32: While the clock does not go back (and reads at least the longest interval), a disk is blocked
  exactly when some report on it, of a kind with a policy, found the threshold of failures of that
  kind within the interval of the policy, itself included; reports on other disks or of other kinds
  have no influence. A policy with interval 0 blocks at the first report whatever its threshold.\<close>

theorem blocked_iff_window_filled:
  assumes "clock_ok policy es"
  shows "IsBlock v (handle_all es (BlockList_new cap policy)) \<longleftrightarrow>
    (\<exists>i<length es. trip policy v (take i es) (es ! i))"
  using tracks_all [OF assms, of v cap] by (simp add: tracks_def trips_def)

theorem blocked_iff_window_filled_witness:
  "IsBlock 3 (handle_all
      [\<lparr>rp_disk = 3, rp_error = -1, rp_now1 = 5000, rp_now2 = 5001, rp_now3 = 5002\<rparr>,
       \<lparr>rp_disk = 3, rp_error = -1, rp_now1 = 7000, rp_now2 = 7001, rp_now3 = 7002\<rparr>]
      (BlockList_new 3 [(BLOCK_TYPE_CONNECT_ERROR, \<lparr>record_interval_ms = 3000, block_threhold_cnt = 2\<rparr>)]))"
proof -
  let ?e1 = "\<lparr>rp_disk = 3, rp_error = -1, rp_now1 = 5000, rp_now2 = 5001, rp_now3 = 5002\<rparr>"
  let ?e2 = "\<lparr>rp_disk = 3, rp_error = -1, rp_now1 = 7000, rp_now2 = 7001, rp_now3 = 7002\<rparr>"
  let ?p = "[(BLOCK_TYPE_CONNECT_ERROR, \<lparr>record_interval_ms = 3000, block_threhold_cnt = 2\<rparr>)]"
  have ty: "rp_type ?e1 = BLOCK_TYPE_CONNECT_ERROR" "rp_type ?e2 = BLOCK_TYPE_CONNECT_ERROR"
    by (simp_all add: rp_type_def ConvertErrorToBlockType_def ERROR_CONNECT_def)
  then have f: "failures 3 BLOCK_TYPE_CONNECT_ERROR [?e1, ?e2] = [5000, 7000]" by (simp add: failures_def)
  have "trip ?p 3 [?e1] ?e2" using ty f by (simp add: trip_def in_window_def)
  moreover have "clock_ok ?p [?e1, ?e2]" by (simp add: clock_ok_def)
  ultimately show ?thesis
    using blocked_iff_window_filled [of ?p "[?e1, ?e2]" 3] by (metis (no_types) One_nat_def append_Nil2 length_Cons lessI list.size(3) nth_Cons_0 nth_Cons_Suc take0 take_Suc_Cons)
qed

text \<open>Blocking is permanent: no report ever unblocks a disk, GetBlockList lists each blocked disk
  once, and Process removes none.\<close>

theorem blocking_is_permanent:
  "distinct (GetBlockList (Process (handle_all (es @ es') (BlockList_new cap policy)))) \<and>
   set (GetBlockList (handle_all es (BlockList_new cap policy))) \<subseteq>
     set (GetBlockList (Process (handle_all (es @ es') (BlockList_new cap policy)))) \<and>
   (IsBlock v (handle_all es (BlockList_new cap policy)) \<longleftrightarrow>
     v \<in> set (GetBlockList (handle_all es (BlockList_new cap policy))))"
proof -
  have "distinct (map fst (block_items (BlockList_new cap policy)))" by (simp add: BlockList_new_def)
  note one = handle_all_items [OF this, of es]
  have "handle_all (es @ es') (BlockList_new cap policy) = handle_all es' (handle_all es (BlockList_new cap policy))"
    by (simp add: handle_all_def)
  then show ?thesis
    using handle_all_items [OF conjunct1 [OF one], of es'] IsBlock_GetBlockList
    by (simp add: Process_def GetBlockList_def)
qed

text \<open>The capacity is never enforced: with a policy of interval 0, one report on each of any number
  of different disks blocks them all, whatever the capacity.\<close>

theorem capacity_is_not_enforced:
  assumes "distinct vs" and "record_interval_ms bp = 0"
  shows "length (GetBlockList (handle_all (map (\<lambda>v. \<lparr>rp_disk = v, rp_error = ERROR_IO_ERROR, rp_now1 = n1,
             rp_now2 = n2, rp_now3 = n3\<rparr>) vs) (BlockList_new cap [(BLOCK_TYPE_DISK_ERROR, bp)]))) = length vs"
    (is "length (GetBlockList (handle_all (map ?e vs) ?s)) = _")
proof -
  have "length (GetBlockList (fold handle (map ?e vs) s)) = length vs + length (GetBlockList s)"
    if "block_policy s = [(BLOCK_TYPE_DISK_ERROR, bp)]" "set vs \<inter> set (GetBlockList s) = {}" for s
    using that assms(1)
  proof (induction vs arbitrary: s)
    case (Cons v vs)
    have nb: "\<not> IsBlock v s" using Cons.prems(2) by (simp add: IsBlock_GetBlockList)
    have items: "GetBlockList (handle (?e v) s) = v # GetBlockList s"
      using Cons.prems(1) nb assms(2)
      by (simp add: handle_def ReportFailed_def ConvertErrorToBlockType_def ERROR_CONNECT_def ERROR_IO_ERROR_def
          Let_def block_disk_def GetBlockList_def) (simp add: IsBlock_def)
    show ?case using Cons.IH [of "handle (?e v) s"] Cons.prems items by auto
  qed simp
  from this [of ?s] show ?thesis by (simp add: handle_all_def BlockList_new_def GetBlockList_def)
qed

theorem capacity_is_not_enforced_witness:
  "length (GetBlockList (handle_all (map (\<lambda>v. \<lparr>rp_disk = v, rp_error = ERROR_IO_ERROR, rp_now1 = 1,
             rp_now2 = 1, rp_now3 = 1\<rparr>) [1, 2])
     (BlockList_new 1 [(BLOCK_TYPE_DISK_ERROR, \<lparr>record_interval_ms = 0, block_threhold_cnt = 9\<rparr>)]))) = 2"
  using capacity_is_not_enforced [of "[1, 2]" "\<lparr>record_interval_ms = 0, block_threhold_cnt = 9\<rparr>" 1 1 1 1] by simp

end
