(* ===== verification/Top_K.thy ===== *)
theory Top_K
  imports Prelude
begin

text \<open>
  \<^verbatim>\<open>example-minheap-topk/min_heap.h\<close> and \<^verbatim>\<open>main.cc\<close>: the \<open>k\<close> least elements of a binary min heap, read
  off its array with a second heap of candidates. Elements are compared by a key: themselves for
  \<^verbatim>\<open>uint32_t\<close>, the field \<^verbatim>\<open>value\<close> for \<^verbatim>\<open>KeyValue\<close>. What the code relies on of
  \<^verbatim>\<open>std::priority_queue\<close> is the locale \<open>min_queue\<close>; the queue of candidates is its model by sorted
  lists.
\<close>

section \<open>Priority queues\<close>

locale min_queue =
  fixes q_empty :: 'q
    and q_push :: "'c \<Rightarrow> 'q \<Rightarrow> 'q"
    and q_top :: "'q \<Rightarrow> 'c"
    and q_pop :: "'q \<Rightarrow> 'q"
    and q_items :: "'q \<Rightarrow> 'c multiset"
    and q_wf :: "'q \<Rightarrow> bool"
    and rank :: "'c \<Rightarrow> 'r::linorder"
  assumes wf_empty: "q_wf q_empty" and items_empty: "q_items q_empty = {#}"
    and push: "q_wf q \<Longrightarrow> q_wf (q_push c q) \<and> q_items (q_push c q) = add_mset c (q_items q)"
    and top: "q_wf q \<Longrightarrow> q_items q \<noteq> {#} \<Longrightarrow>
           q_top q \<in># q_items q \<and> (\<forall>c\<in>#q_items q. rank (q_top q) \<le> rank c)"
    and pop: "q_wf q \<Longrightarrow> q_items q \<noteq> {#} \<Longrightarrow> q_wf (q_pop q) \<and> q_items (q_pop q) = q_items q - {#q_top q#}"

section \<open>top_k_min\<close>

text \<open>The loop, for the operations of a candidate queue; candidates are pairs of a value and its index.\<close>

fun top_k_loop :: "('a \<times> nat \<Rightarrow> 'q \<Rightarrow> 'q) \<Rightarrow> ('q \<Rightarrow> 'a \<times> nat) \<Rightarrow> ('q \<Rightarrow> 'q) \<Rightarrow> 'a list \<Rightarrow> nat \<Rightarrow> 'q \<Rightarrow> 'a list" where
  "top_k_loop pushc topc popc heap_data 0 q = []"
| "top_k_loop pushc topc popc heap_data (Suc k) q =
     (let n = length heap_data;
          (val, idx) = topc q;
          q1 = popc q;
          left = 2 * idx + 1;
          q2 = (if left < n then pushc (heap_data ! left, left) q1 else q1);
          right = 2 * idx + 2;
          q3 = (if right < n then pushc (heap_data ! right, right) q2 else q2)
      in val # top_k_loop pushc topc popc heap_data k q3)"

text \<open>\<^verbatim>\<open>std::greater<Candidate>\<close> orders the pairs by value, then by index.\<close>

definition candidate_less :: "('a \<Rightarrow> 'k::linorder) \<Rightarrow> 'a \<times> nat \<Rightarrow> 'a \<times> nat \<Rightarrow> bool" where
  "candidate_less key c d \<longleftrightarrow> key (fst c) < key (fst d) \<or> \<not> key (fst d) < key (fst c) \<and> snd c < snd d"

fun emplace :: "('a \<Rightarrow> 'k::linorder) \<Rightarrow> 'a \<times> nat \<Rightarrow> ('a \<times> nat) list \<Rightarrow> ('a \<times> nat) list" where
  "emplace key c [] = [c]"
| "emplace key c (d # q) = (if candidate_less key d c then d # emplace key c q else c # d # q)"

definition top_k_min :: "('a \<Rightarrow> 'k::linorder) \<Rightarrow> 'a list \<Rightarrow> nat \<Rightarrow> 'a list \<Rightarrow> 'a list" where
  "top_k_min key heap_data k result =
     (if heap_data = [] \<or> k = 0 then result
      else
        (let n = length heap_data;
             k = min n k;
             min_candidate = emplace key (heap_data ! 0, 0) []
         in result @ top_k_loop (emplace key) hd tl heap_data k min_candidate))"

record KeyValue =
  kv_key :: bytes
  kv_value :: u64

definition KeyValue_less :: "KeyValue \<Rightarrow> KeyValue \<Rightarrow> bool" where
  "KeyValue_less a b \<longleftrightarrow> kv_value a < kv_value b"

definition KeyValue_greater :: "KeyValue \<Rightarrow> KeyValue \<Rightarrow> bool" where
  "KeyValue_greater a b \<longleftrightarrow> kv_value a > kv_value b"

definition print_KeyValue :: "KeyValue \<Rightarrow> bytes" where
  "print_KeyValue kv = lit ''{key:'' @ kv_key kv @ lit ('' value:'' @ show_nat (unat (kv_value kv)) @ ''}'')"

text \<open>\<^verbatim>\<open>MinHeap::GetData\<close>: the array of a \<^verbatim>\<open>priority_queue\<close> with \<^verbatim>\<open>std::greater\<close>. The standard fixes
  its elements and the heap order, not their exact places.\<close>

definition is_min_heap :: "('a \<Rightarrow> 'k::linorder) \<Rightarrow> 'a list \<Rightarrow> bool" where
  "is_min_heap key xs \<longleftrightarrow> (\<forall>i<length xs. 0 < i \<longrightarrow> key (xs ! ((i - 1) div 2)) \<le> key (xs ! i))"

section \<open>Correctness\<close>

text \<open>The indices waiting in the candidate queue when the indices \<open>P\<close> have been taken: those whose
  parent has been taken.\<close>

definition frontier :: "nat \<Rightarrow> nat set \<Rightarrow> nat set" where
  "frontier n P = {i. i < n \<and> i \<notin> P \<and> (i = 0 \<or> (i - 1) div 2 \<in> P)}"

definition parent_closed :: "nat \<Rightarrow> nat set \<Rightarrow> bool" where
  "parent_closed n P \<longleftrightarrow> P \<subseteq> {..<n} \<and> (\<forall>i\<in>P. i = 0 \<or> (i - 1) div 2 \<in> P)"

lemma finite_frontier [simp]: "finite (frontier n P)"
  by (rule finite_subset [of _ "{..<n}"]) (auto simp: frontier_def)

lemma parent_child:
  fixes i j :: nat
  shows "0 < i \<Longrightarrow> (i - 1) div 2 = j \<longleftrightarrow> i = 2 * j + 1 \<or> i = 2 * j + 2"
  by presburger

lemma frontier_insert:
  assumes "parent_closed n P" "i \<in> frontier n P"
  shows "frontier n (insert i P) = (frontier n P - {i}) \<union> ({2 * i + 1, 2 * i + 2} \<inter> {..<n})"
    and "{2 * i + 1, 2 * i + 2} \<inter> frontier n P = {}"
    and "parent_closed n (insert i P)"
proof -
  have i: "i < n" "i \<notin> P" "i = 0 \<or> (i - 1) div 2 \<in> P" using assms(2) by (auto simp: frontier_def)
  have kids: "2 * i + 1 \<notin> P" "2 * i + 2 \<notin> P"
    using assms(1) i(2) parent_child [of "2 * i + 1" i] parent_child [of "2 * i + 2" i]
    unfolding parent_closed_def by force+
  have "j \<in> frontier n (insert i P) \<longleftrightarrow> j \<in> (frontier n P - {i}) \<union> ({2 * i + 1, 2 * i + 2} \<inter> {..<n})" for j
    using kids i parent_child [of j i] by (cases "j = 0") (auto simp: frontier_def)
  then show "frontier n (insert i P) = (frontier n P - {i}) \<union> ({2 * i + 1, 2 * i + 2} \<inter> {..<n})" by blast
  show "{2 * i + 1, 2 * i + 2} \<inter> frontier n P = {}"
    using i parent_child [of "2 * i + 1" i] parent_child [of "2 * i + 2" i] by (auto simp: frontier_def)
  show "parent_closed n (insert i P)" using assms(1) i by (auto simp: parent_closed_def)
qed

text \<open>Every index not yet taken lies below a candidate.\<close>

lemma below_frontier:
  assumes heap: "is_min_heap key xs" and "j < length xs" "j \<notin> P"
  shows "\<exists>i\<in>frontier (length xs) P. key (xs ! i) \<le> key (xs ! j)"
  using assms(2,3)
proof (induction j rule: less_induct)
  case (less j)
  show ?case
  proof (cases "j = 0 \<or> (j - 1) div 2 \<in> P")
    case True
    then show ?thesis using less.prems by (intro bexI [of _ j]) (auto simp: frontier_def)
  next
    case False
    then have "0 < j" by simp
    then have p: "(j - 1) div 2 < j" by linarith
    then obtain i where "i \<in> frontier (length xs) P" "key (xs ! i) \<le> key (xs ! ((j - 1) div 2))"
      using less.IH [OF p] less.prems False by auto
    moreover have "key (xs ! ((j - 1) div 2)) \<le> key (xs ! j)"
      using heap less.prems(1) False by (simp add: is_min_heap_def)
    ultimately show ?thesis by (meson order_trans)
  qed
qed

locale candidate_queue = min_queue q_empty q_push q_top q_pop q_items q_wf "\<lambda>c. key (fst c)"
  for q_empty :: 'q
    and q_push :: "'a \<times> nat \<Rightarrow> 'q \<Rightarrow> 'q"
    and q_top :: "'q \<Rightarrow> 'a \<times> nat"
    and q_pop :: "'q \<Rightarrow> 'q"
    and q_items :: "'q \<Rightarrow> ('a \<times> nat) multiset"
    and q_wf :: "'q \<Rightarrow> bool"
    and key :: "'a \<Rightarrow> 'k::linorder"
begin

lemma push_if:
  "q_wf q \<Longrightarrow> q_wf (if b then q_push c q else q) \<and>
     q_items (if b then q_push c q else q) = q_items q + (if b then {#c#} else {#})"
  using push [of q c] by auto

text \<open>The queue after a round: the least candidate is taken out and the children it has are put in.\<close>

lemma push_kids:
  assumes wf: "q_wf q" and ne: "q_items q \<noteq> {#}"
    and items: "q_items q = image_mset c (mset_set F)" and top: "q_top q = c i" "i \<in> F" "finite F"
    and kids: "{l, r} \<inter> F = {}" "l \<noteq> r"
  shows "q_wf (let q1 = q_pop q; q2 = if l < n then q_push (c l) q1 else q1
                in if r < n then q_push (c r) q2 else q2) \<and>
    q_items (let q1 = q_pop q; q2 = if l < n then q_push (c l) q1 else q1
             in if r < n then q_push (c r) q2 else q2) =
      image_mset c (mset_set ((F - {i}) \<union> ({l, r} \<inter> {..<n})))"
proof -
  have p: "q_wf (q_pop q)" "q_items (q_pop q) = image_mset c (mset_set (F - {i}))"
    using pop [OF wf ne] items top by (simp_all add: mset_set_Diff image_mset_Diff)
  define q2 where "q2 = (if l < n then q_push (c l) (q_pop q) else q_pop q)"
  note two = push_if [OF p(1), of "l < n" "c l", folded q2_def]
  note three = push_if [OF conjunct1 [OF two], of "r < n" "c r"]
  have "mset_set ({l, r} \<inter> {..<n}) = (if l < n then {#l#} else {#}) + (if r < n then {#r#} else {#})"
    using kids(2) by (auto simp: Int_insert_left)
  moreover have "(F - {i}) \<inter> ({l, r} \<inter> {..<n}) = {}" using kids(1) by auto
  ultimately show ?thesis
    using two three p(2) top(3) unfolding Let_def q2_def [symmetric]
    by (subst mset_set_Union) auto
qed

lemma top_is_least:
  assumes heap: "is_min_heap key xs" and wf: "q_wf q"
    and items: "q_items q = image_mset (\<lambda>i. (xs ! i, i)) (mset_set (frontier (length xs) P))"
    and P: "P \<subset> {..<length xs}"
  obtains i where "q_items q \<noteq> {#}" "q_top q = (xs ! i, i)" "i \<in> frontier (length xs) P"
    "\<And>j. j < length xs \<Longrightarrow> j \<notin> P \<Longrightarrow> key (xs ! i) \<le> key (xs ! j)"
proof -
  obtain j where "j < length xs" "j \<notin> P" using P by auto
  from below_frontier [OF heap this] have "frontier (length xs) P \<noteq> {}" by auto
  then have ne: "q_items q \<noteq> {#}" using items by (simp add: mset_set_empty_iff)
  note t = top [OF wf ne]
  obtain i where i: "q_top q = (xs ! i, i)" "i \<in> frontier (length xs) P" using t items by auto
  have "key (xs ! i) \<le> key (xs ! j)" if j: "j < length xs" "j \<notin> P" for j
  proof -
    obtain m where m: "m \<in> frontier (length xs) P" "key (xs ! m) \<le> key (xs ! j)"
      using below_frontier [OF heap j] by blast
    then have "(xs ! m, m) \<in># q_items q" using items by simp
    then have "key (xs ! i) \<le> key (xs ! m)" using t i(1) by force
    then show ?thesis using m(2) by simp
  qed
  then show thesis using that ne i by blast
qed

lemma loop_takes_least:
  assumes heap: "is_min_heap key xs" and closed: "parent_closed (length xs) P"
    and wf: "q_wf q" and items: "q_items q = image_mset (\<lambda>i. (xs ! i, i)) (mset_set (frontier (length xs) P))"
    and k: "k + card P \<le> length xs"
  shows "\<exists>I. top_k_loop q_push q_top q_pop xs k q = map ((!) xs) I \<and> distinct I \<and> length I = k \<and>
           set I \<subseteq> {..<length xs} - P \<and> sorted (map (\<lambda>i. key (xs ! i)) I) \<and>
           (\<forall>i\<in>set I. \<forall>j<length xs. j \<notin> P \<union> set I \<longrightarrow> key (xs ! i) \<le> key (xs ! j))"
  using closed wf items k
proof (induction k arbitrary: P q)
  case (Suc k)
  let ?n = "length xs" and ?c = "\<lambda>i. (xs ! i, i)"
  have P: "P \<subset> {..<?n}" using Suc.prems(1,4) by (auto simp: parent_closed_def)
  then have finP: "finite P" by (auto intro: finite_subset)
  obtain i where i: "q_items q \<noteq> {#}" "q_top q = ?c i" "i \<in> frontier ?n P"
    and least: "\<And>j. j < ?n \<Longrightarrow> j \<notin> P \<Longrightarrow> key (xs ! i) \<le> key (xs ! j)"
    by (rule top_is_least [OF heap Suc.prems(2,3) P]) blast
  have in_n: "i < ?n" "i \<notin> P" using i(3) by (auto simp: frontier_def)
  have fin: "finite (frontier ?n P)" by (simp add: frontier_def)
  note fr = frontier_insert [OF Suc.prems(1) i(3)]
  define q3 where "q3 = (let q1 = q_pop q; q2 = if 2 * i + 1 < ?n then q_push (?c (2 * i + 1)) q1 else q1
      in if 2 * i + 2 < ?n then q_push (?c (2 * i + 2)) q2 else q2)"
  note three = push_kids [where c = ?c, OF Suc.prems(2) i(1) Suc.prems(3) i(2,3) fin fr(2), of ?n,
      folded fr(1) q3_def]
  have "card (insert i P) = Suc (card P)" using finP in_n(2) by simp
  then obtain I where I: "top_k_loop q_push q_top q_pop xs k q3 = map ((!) xs) I" "distinct I" "length I = k"
      "set I \<subseteq> {..<?n} - insert i P" "sorted (map (\<lambda>i. key (xs ! i)) I)"
      "\<forall>m\<in>set I. \<forall>j<?n. j \<notin> insert i P \<union> set I \<longrightarrow> key (xs ! m) \<le> key (xs ! j)"
    using Suc.IH [OF fr(3), of q3] three Suc.prems(4) by auto
  have "top_k_loop q_push q_top q_pop xs (Suc k) q = map ((!) xs) (i # I)"
    unfolding top_k_loop.simps Let_def i(2) prod.case I(1) [unfolded q3_def Let_def] by simp
  moreover have "sorted (map (\<lambda>i. key (xs ! i)) (i # I))"
    using I(4,5) least by auto
  ultimately show ?case
    using I least in_n by (intro exI [of _ "i # I"]) auto
qed simp

end

lemma take_sort:
  assumes "sorted (map f ys)" "mset xs = mset ys + mset zs" "\<forall>y\<in>set ys. \<forall>z\<in>set zs. f y \<le> (f z :: 'k::linorder)"
  shows "map f ys = take (length ys) (sort (map f xs))"
proof -
  let ?s = "map f ys @ sort (map f zs)"
  have "sorted ?s" using assms(1,3) by (auto simp: sorted_append)
  moreover have "mset ?s = mset (map f xs)" using assms(2) by simp
  ultimately have "sort (map f xs) = ?s" by (metis properties_for_sort)
  then show ?thesis by simp
qed

text \<open>The sorted list keeps the contract.\<close>

lemma mset_emplace: "mset (emplace key c q) = add_mset c (mset q)"
  by (induction q) auto

lemma sorted_emplace:
  "sorted_wrt (\<lambda>c d. key (fst c) \<le> key (fst d)) q \<Longrightarrow>
     sorted_wrt (\<lambda>c d. key (fst c) \<le> key (fst d)) (emplace key c q)"
proof (induction q)
  case (Cons d q)
  have "set (emplace key c q) = insert c (set q)" by (metis mset_emplace set_mset_add_mset_insert set_mset_mset)
  then show ?case using Cons by (auto simp: candidate_less_def)
qed simp

interpretation min_candidate: candidate_queue "[]" "emplace key" hd tl mset
    "sorted_wrt (\<lambda>c d. key (fst c) \<le> key (fst d))" key for key :: "'a \<Rightarrow> 'k::linorder"
proof unfold_locales
  fix q :: "('a \<times> nat) list" and c
  assume s: "sorted_wrt (\<lambda>c d. key (fst c) \<le> key (fst d)) q"
  show "sorted_wrt (\<lambda>c d. key (fst c) \<le> key (fst d)) (emplace key c q) \<and>
      mset (emplace key c q) = add_mset c (mset q)"
    using sorted_emplace [OF s] mset_emplace by blast
  assume "mset q \<noteq> {#}"
  then obtain d ds where "q = d # ds" by (cases q) auto
  then show "hd q \<in># mset q \<and> (\<forall>c\<in>#mset q. key (fst (hd q)) \<le> key (fst c))"
    "sorted_wrt (\<lambda>c d. key (fst c) \<le> key (fst d)) (tl q) \<and> mset (tl q) = mset q - {#hd q#}"
    using s by auto
qed auto

lemma top_k_min_result:
  assumes heap: "is_min_heap key xs"
  shows "\<exists>ys rest. top_k_min key xs k result = result @ ys \<and> mset xs = mset ys + mset rest \<and>
           map key ys = take k (sort (map key xs))"
proof (cases "xs = [] \<or> k = 0")
  case True
  then show ?thesis by (intro exI [of _ "[]"] exI [of _ xs]) (auto simp: top_k_min_def)
next
  case False
  let ?n = "length xs"
  have "frontier ?n {} = {0}" using False by (auto simp: frontier_def)
  moreover have "parent_closed ?n {}" by (simp add: parent_closed_def)
  ultimately obtain I where I: "top_k_loop (emplace key) hd tl xs (min ?n k) (emplace key (xs ! 0, 0) []) = map ((!) xs) I"
      "distinct I" "length I = min ?n k" "set I \<subseteq> {..<?n}" "sorted (map (\<lambda>i. key (xs ! i)) I)"
      "\<forall>i\<in>set I. \<forall>j<?n. j \<notin> set I \<longrightarrow> key (xs ! i) \<le> key (xs ! j)"
    using min_candidate.loop_takes_least [OF heap, of "{}" "emplace key (xs ! 0, 0) []" "min ?n k"] by auto
  define ys where "ys = map ((!) xs) I"
  define zs where "zs = map ((!) xs) (sorted_list_of_set ({..<?n} - set I))"
  have "mset ys = image_mset ((!) xs) (mset_set (set I))"
    using I(2) by (simp add: ys_def mset_set_set)
  moreover have "mset zs = image_mset ((!) xs) (mset_set ({..<?n} - set I))"
  proof -
    have "mset (sorted_list_of_set ({..<?n} - set I)) = mset_set ({..<?n} - set I)"
      using mset_set_set [OF distinct_sorted_list_of_set, of "{..<?n} - set I"] by simp
    then show ?thesis by (simp add: zs_def)
  qed
  moreover have "mset_set {..<?n} = mset_set (set I) + mset_set ({..<?n} - set I)"
    using I(4) by (metis Diff_disjoint finite_Diff finite_lessThan finite_subset mset_set_Union sup.absorb_iff2 Un_Diff_cancel)
  moreover have "mset xs = image_mset ((!) xs) (mset_set {..<?n})"
    by (metis map_nth mset_map mset_upt lessThan_atLeast0 atLeast_upt mset_set_set distinct_upt)
  ultimately have split: "mset xs = mset ys + mset zs" by simp
  have "map key ys = take (length ys) (sort (map key xs))"
    by (rule take_sort [OF _ split]) (use I(5,6) in \<open>auto simp: ys_def zs_def comp_def\<close>)
  moreover have "take (length ys) (sort (map key xs)) = take k (sort (map key xs))"
    using I(3) by (simp add: ys_def min_def)
  ultimately show ?thesis
    using False I(1) split by (intro exI [of _ ys] exI [of _ zs]) (simp add: top_k_min_def Let_def ys_def)
qed

section \<open>The drivers of main.cc\<close>

definition get_top_k_min_and_display :: "('a \<Rightarrow> 'k::linorder) \<Rightarrow> 'a list \<Rightarrow> nat \<Rightarrow> 'a list" where
  "get_top_k_min_and_display key h n = top_k_min key h n []"

text \<open>The lines it prints.\<close>

definition display_lines :: "('a \<Rightarrow> bytes) \<Rightarrow> nat \<Rightarrow> 'a list \<Rightarrow> bytes list" where
  "display_lines print n result = [lit (''top '' @ show_nat n @ '':'')] @ map print result @ [lit ''top end'']"

text \<open>The three displays of the driver, for the heap array \<open>h\<close> after the pushes and \<open>h'\<close> after the pops.\<close>

definition TestMinHeapTopK :: "u32 list \<Rightarrow> u32 list \<Rightarrow> u32 list list" where
  "TestMinHeapTopK h h' =
     [get_top_k_min_and_display id h 3, get_top_k_min_and_display id h 8, get_top_k_min_and_display id h' 8]"

definition TestMinHeapTopKWithStruct :: "KeyValue list \<Rightarrow> KeyValue list \<Rightarrow> KeyValue list list" where
  "TestMinHeapTopKWithStruct mh mh' =
     [get_top_k_min_and_display kv_value mh 1, get_top_k_min_and_display kv_value mh 3,
      get_top_k_min_and_display kv_value mh 30, get_top_k_min_and_display kv_value mh' 3]"

definition pushed_values :: "u32 list" where
  "pushed_values = [3, 1, 4, 5, 2, 6, 0, 10, 11, 12, 12, 33, 15]"

definition emplaced_pairs :: "KeyValue list" where
  "emplaced_pairs = map (\<lambda>(k, v). \<lparr>kv_key = lit [k], kv_value = v\<rparr>)
     [(CHR ''a'', 1), (CHR ''b'', 10), (CHR ''c'', 2), (CHR ''d'', 3), (CHR ''e'', 30), (CHR ''f'', 9),
      (CHR ''g'', 19), (CHR ''h'', 8)]"

lemma TestMinHeapTopKWithStruct_displays:
  assumes "is_min_heap kv_value h" and "mset h = mset emplaced_pairs"
    and "is_min_heap kv_value h'" and "image_mset kv_value (mset h') = {#9, 10, 19, 30#}"
  shows "map (map kv_value) (TestMinHeapTopKWithStruct h h') =
    [[1], [1, 2, 3], [1, 2, 3, 8, 9, 10, 19, 30], [9, 10, 19]]"
proof -
  have s: "sort (map kv_value h) = [1, 2, 3, 8, 9, 10, 19, 30]"
    by (rule properties_for_sort) (simp_all add: assms(2) emplaced_pairs_def)
  have s': "sort (map kv_value h') = [9, 10, 19, 30]"
    by (rule properties_for_sort) (simp_all add: assms(4))
  have "map kv_value (top_k_min kv_value h k []) = take k (sort (map kv_value h))"
      "map kv_value (top_k_min kv_value h' k []) = take k (sort (map kv_value h'))" for k
    using top_k_min_result [OF assms(1), of k "[]"] top_k_min_result [OF assms(3), of k "[]"] by auto
  then show ?thesis by (simp add: TestMinHeapTopKWithStruct_def get_top_k_min_and_display_def s s')
qed

section \<open>Properties\<close>

text \<open>C31: On the array of a min heap, top_k_min appends to the result k elements of the heap (all of
  them, when there are fewer) in increasing order of their keys, and their keys are the first k of
  the sorted keys of the heap.\<close>

theorem top_k_min_takes_least:
  assumes "is_min_heap key heap_data"
  shows "\<exists>ys. top_k_min key heap_data k result = result @ ys \<and> mset ys \<subseteq># mset heap_data \<and>
           map key ys = take k (sort (map key heap_data))"
  using top_k_min_result [OF assms, of k result] by auto

theorem top_k_min_takes_least_witness:
  "\<exists>ys. top_k_min kv_value [\<lparr>kv_key = lit ''a'', kv_value = 1\<rparr>, \<lparr>kv_key = lit ''b'', kv_value = 10\<rparr>,
       \<lparr>kv_key = lit ''c'', kv_value = 2\<rparr>] 2 [] = ys \<and> map kv_value ys = [1, 2]"
proof -
  let ?h = "[\<lparr>kv_key = lit ''a'', kv_value = 1\<rparr>, \<lparr>kv_key = lit ''b'', kv_value = 10\<rparr>,
       \<lparr>kv_key = lit ''c'', kv_value = 2\<rparr>]"
  have "is_min_heap kv_value ?h" by (auto simp: is_min_heap_def less_Suc_eq)
  from top_k_min_takes_least [OF this, of 2 "[]"] show ?thesis by auto
qed

text \<open>The displays of the driver do not depend on how the library arranges the heap: for every heap
  of the pushed values, and every heap of what three pops leave, they are the expected lists.\<close>

theorem TestMinHeapTopK_displays:
  assumes "is_min_heap id h" and "mset h = mset pushed_values"
    and "is_min_heap id h'" and "mset h' = mset pushed_values - {#0, 1, 2#}"
  shows "TestMinHeapTopK h h' =
    [[0, 1, 2], [0, 1, 2, 3, 4, 5, 6, 10], [3, 4, 5, 6, 10, 11, 12, 12]]"
proof -
  have s: "sort h = [0, 1, 2, 3, 4, 5, 6, 10, 11, 12, 12, 15, 33]"
    by (rule properties_for_sort) (simp_all add: assms(2) pushed_values_def)
  have s': "sort h' = [3, 4, 5, 6, 10, 11, 12, 12, 15, 33]"
    by (rule properties_for_sort) (simp_all add: assms(4) pushed_values_def)
  have "top_k_min id h k [] = take k (sort h)" "top_k_min id h' k [] = take k (sort h')" for k
    using top_k_min_result [OF assms(1), of k "[]"] top_k_min_result [OF assms(3), of k "[]"] by auto
  then show ?thesis by (simp add: TestMinHeapTopK_def get_top_k_min_and_display_def s s')
qed

theorem TestMinHeapTopK_displays_witness:
  "TestMinHeapTopK [0, 1, 2, 3, 4, 5, 6, 10, 11, 12, 12, 15, 33] [3, 4, 5, 6, 10, 11, 12, 12, 15, 33] ! 0 = [0, 1, 2]"
proof -
  have heap: "is_min_heap id xs" if "sorted xs" for xs :: "u32 list"
    using that by (auto simp: is_min_heap_def sorted_iff_nth_mono)
  show ?thesis
    by (subst TestMinHeapTopK_displays) (simp_all add: heap pushed_values_def)
qed

text \<open>The first display of the structures.\<close>

lemma display_lines_one:
  "display_lines print_KeyValue 1 [\<lparr>kv_key = lit ''a'', kv_value = 1\<rparr>] = map lit [''top 1:'', ''{key:a value:1}'', ''top end'']"
  by (simp add: display_lines_def print_KeyValue_def show_nat.simps) code_simp

end
