(* ===== verification/Free_Space.thy ===== *)
theory Free_Space
  imports Bits
begin

unbundle bit_operations_syntax

text \<open>
  \<^verbatim>\<open>example-bitset/main.cc\<close>: the search for a run of free blocks in a \<^verbatim>\<open>std::bitset<N>\<close>, with two
  ways of finding the next zero or one. A bitset is the list of its bits, index 0 first; \<^verbatim>\<open>N\<close> is the
  length of the list.
\<close>

section \<open>The bit-by-bit search\<close>

text \<open>\<^verbatim>\<open>FindFirstZero\<close> and \<^verbatim>\<open>FindFirstOne\<close> differ in the bit they look for.\<close>

function find_bit :: "bool \<Rightarrow> bool list \<Rightarrow> nat \<Rightarrow> nat" where
  "find_bit b space from =
     (if from < length space then (if space ! from = b then from else find_bit b space (from + 1))
      else length space)"
  by auto
termination
  by (relation "measure (\<lambda>(b, space, from). length space - from)") auto

declare find_bit.simps [simp del]

definition FindFirstZero :: "bool list \<Rightarrow> nat \<Rightarrow> nat" where
  "FindFirstZero space from = find_bit False space from"

definition FindFirstOne :: "bool list \<Rightarrow> nat \<Rightarrow> nat" where
  "FindFirstOne space from = find_bit True space from"

section \<open>The search by 64-bit chunks\<close>

definition bitset_shr :: "nat \<Rightarrow> bool list \<Rightarrow> bool list" where
  "bitset_shr k xs = drop k xs @ replicate (min k (length xs)) False"

definition MARSK :: "nat \<Rightarrow> bool list" where
  "MARSK N = map (\<lambda>i. i < 64) [0..<N]"

definition bitset_and :: "bool list \<Rightarrow> bool list \<Rightarrow> bool list" where
  "bitset_and xs ys = map2 (\<and>) xs ys"

fun bits_value :: "bool list \<Rightarrow> u64" where
  "bits_value [] = 0"
| "bits_value (b # xs) = (if b then 1 else 0) OR push_bit 1 (bits_value xs)"

text \<open>\<^verbatim>\<open>to_ullong\<close> throws when a bit beyond the 64th is set.\<close>

definition to_ullong :: "bool list \<Rightarrow> u64 option" where
  "to_ullong xs = (if True \<in> set (drop 64 xs) then None else Some (bits_value xs))"

definition FindFirstZeroUInt64 :: "u64 \<Rightarrow> nat option" where
  "FindFirstZeroUInt64 v = (if v = - 1 then None else Some (ctz (NOT v)))"

definition FindFirstOneUInt64 :: "u64 \<Rightarrow> nat option" where
  "FindFirstOneUInt64 v = (if v = 0 then None else Some (ctz v))"

definition CHUNK_SIZE_64_BITS :: nat where
  "CHUNK_SIZE_64_BITS = 64"

text \<open>The loop of \<^verbatim>\<open>FindFirstZeroV1\<close> and \<^verbatim>\<open>FindFirstOneV1\<close>; the last argument but two counts the chunks
  left, the result \<open>None\<close> is an exception.\<close>

fun find_chunk :: "(u64 \<Rightarrow> nat option) \<Rightarrow> nat \<Rightarrow> nat \<Rightarrow> nat \<Rightarrow> nat \<Rightarrow> bool list \<Rightarrow> nat option" where
  "find_chunk f N from 0 chunk_index space = Some N"
| "find_chunk f N from (Suc left) chunk_index space =
     (case to_ullong (bitset_and space (MARSK N)) of
        None \<Rightarrow> None
      | Some v \<Rightarrow>
          (case f v of
             Some pos \<Rightarrow> Some (pos + chunk_index * CHUNK_SIZE_64_BITS + from)
           | None \<Rightarrow> find_chunk f N from left (chunk_index + 1) (bitset_shr 64 space)))"

definition find_v1 :: "(u64 \<Rightarrow> nat option) \<Rightarrow> bool list \<Rightarrow> nat \<Rightarrow> nat option" where
  "find_v1 f space from =
     (let N = length space;
          n = N - from;
          total_chunk = (n + CHUNK_SIZE_64_BITS - 1) div CHUNK_SIZE_64_BITS
      in find_chunk f N from total_chunk 0 (bitset_shr from space))"

definition FindFirstZeroV1 :: "bool list \<Rightarrow> nat \<Rightarrow> nat option" where
  "FindFirstZeroV1 space from = find_v1 FindFirstZeroUInt64 space from"

definition FindFirstOneV1 :: "bool list \<Rightarrow> nat \<Rightarrow> nat option" where
  "FindFirstOneV1 space from = find_v1 FindFirstOneUInt64 space from"

section \<open>The search for a run\<close>

text \<open>The two finders are arguments, as in the source; the loop may in principle not end.\<close>

partial_function (option) find_run ::
  "(nat \<Rightarrow> nat option) \<Rightarrow> (nat \<Rightarrow> nat option) \<Rightarrow> nat \<Rightarrow> nat \<Rightarrow> nat \<Rightarrow> nat option" where
  "find_run find_zero find_one N cnt cur =
     (if cur \<le> N - cnt then
        (case find_zero cur of
           None \<Rightarrow> None
         | Some first_zero \<Rightarrow>
             if first_zero = N then Some N
             else
               (case find_one (first_zero + 1) of
                  None \<Rightarrow> None
                | Some first_one \<Rightarrow>
                    if first_one - first_zero \<ge> cnt then Some first_zero
                    else find_run find_zero find_one N cnt (first_one + 1)))
      else Some N)"

declare find_run.simps [code]

definition bitset_count :: "bool list \<Rightarrow> nat" where
  "bitset_count space = length (filter id space)"

definition FindContinuousFreeSpace_with ::
  "nat \<Rightarrow> (nat \<Rightarrow> nat option) \<Rightarrow> (nat \<Rightarrow> nat option) \<Rightarrow> bool list \<Rightarrow> nat option" where
  "FindContinuousFreeSpace_with cnt find_zero find_one space =
     (let N = length space in
      if cnt = 0 then Some N
      else if N - bitset_count space < cnt then Some N
      else find_run find_zero find_one N cnt 0)"

definition FindContinuousFreeSpace :: "nat \<Rightarrow> bool list \<Rightarrow> nat option" where
  "FindContinuousFreeSpace cnt space =
     FindContinuousFreeSpace_with cnt (\<lambda>n. Some (FindFirstZero space n)) (\<lambda>n. Some (FindFirstOne space n)) space"

definition FindContinuousFreeSpaceV1 :: "nat \<Rightarrow> bool list \<Rightarrow> nat option" where
  "FindContinuousFreeSpaceV1 cnt space =
     FindContinuousFreeSpace_with cnt (FindFirstZeroV1 space) (FindFirstOneV1 space) space"

text \<open>\<^verbatim>\<open>bitset::set\<close> throws \<^verbatim>\<open>out_of_range\<close>; the positions before the bad one stay marked. The result is
  whether the loop ended normally, and the space.\<close>

fun mark_all :: "bool \<Rightarrow> nat list \<Rightarrow> bool list \<Rightarrow> bool \<times> bool list" where
  "mark_all b [] space = (True, space)"
| "mark_all b (pos # ps) space =
     (if pos < length space then mark_all b ps (space[pos := b]) else (False, space))"

definition MarkSpaceUsed :: "nat list \<Rightarrow> bool list \<Rightarrow> bool \<times> bool list" where
  "MarkSpaceUsed used space = mark_all True used space"

definition MarkSpaceFreed :: "nat list \<Rightarrow> bool list \<Rightarrow> bool \<times> bool list" where
  "MarkSpaceFreed freed space = mark_all False freed space"

section \<open>The contract of a finder\<close>

definition first_at :: "bool \<Rightarrow> bool list \<Rightarrow> nat \<Rightarrow> nat \<Rightarrow> bool" where
  "first_at b space from r \<longleftrightarrow> from \<le> r \<and> r \<le> length space \<and> (r < length space \<longrightarrow> space ! r = b) \<and>
     (\<forall>i. from \<le> i \<longrightarrow> i < r \<longrightarrow> space ! i \<noteq> b)"

lemma first_at_unique: "first_at b space from r \<Longrightarrow> first_at b space from r' \<Longrightarrow> r = r'"
  unfolding first_at_def by (metis nat_neq_iff order_less_le_trans)

lemma first_at_skip:
  assumes "first_at b space (from + 1) r" "space ! from \<noteq> b"
  shows "first_at b space from r"
proof -
  have "space ! i \<noteq> b" if "from \<le> i" "i < r" for i
    using assms that by (cases "i = from") (simp_all add: first_at_def)
  then show ?thesis using assms(1) by (simp add: first_at_def)
qed

lemma find_bit_first: "from \<le> length space \<Longrightarrow> first_at b space from (find_bit b space from)"
proof (induction b space "from" rule: find_bit.induct)
  case (1 b space "from")
  show ?case
  proof (cases "from < length space \<and> space ! from \<noteq> b")
    case True
    then have IH: "first_at b space (from + 1) (find_bit b space (from + 1))" using 1 by simp
    have "find_bit b space from = find_bit b space (from + 1)" using True by (subst find_bit.simps) simp
    then show ?thesis
      using first_at_skip [OF IH] True by simp
  next
    case False
    then show ?thesis using 1(2) by (subst find_bit.simps) (auto simp: first_at_def)
  qed
qed

definition free_run :: "bool list \<Rightarrow> nat \<Rightarrow> nat \<Rightarrow> bool" where
  "free_run space cnt p \<longleftrightarrow> p + cnt \<le> length space \<and> (\<forall>i<cnt. \<not> space ! (p + i))"

text \<open>The result of the search: the start of the first free run, or \<open>N\<close> when there is none.\<close>

definition first_free_run :: "bool list \<Rightarrow> nat \<Rightarrow> nat \<Rightarrow> bool" where
  "first_free_run space cnt r \<longleftrightarrow>
     (if cnt > 0 \<and> (\<exists>p. free_run space cnt p)
      then free_run space cnt r \<and> (\<forall>p<r. \<not> free_run space cnt p)
      else r = length space)"

lemma first_free_run_none:
  "(\<And>p. p + cnt \<le> length space \<Longrightarrow> \<not> free_run space cnt p) \<Longrightarrow> first_free_run space cnt (length space)"
  by (auto simp: first_free_run_def free_run_def)

text \<open>With bit \<open>z\<close> the first zero from \<open>cur\<close> and \<open>w\<close> the first one behind it, no run starts before \<open>z\<close>, and
  when the gap is too short none starts up to \<open>w\<close>.\<close>

lemma no_run_before_zero:
  assumes "\<And>p. p < cur \<Longrightarrow> \<not> free_run space cnt p" and z: "first_at False space cur z"
    and "0 < cnt" "p < z"
  shows "\<not> free_run space cnt p"
proof (cases "p < cur")
  case False
  then have "space ! (p + 0)" using z assms(4) by (auto simp: first_at_def)
  then show ?thesis using assms(3) unfolding free_run_def by blast
qed (use assms(1) in simp)

lemma no_run_in_gap:
  assumes before: "\<And>p. p < z \<Longrightarrow> \<not> free_run space cnt p"
    and w: "w \<le> length space" "w < length space \<Longrightarrow> space ! w" and short: "\<not> cnt \<le> w - z"
    and p: "p < w + 1"
  shows "\<not> free_run space cnt p"
proof (cases "p < z")
  case False
  show ?thesis
  proof
    assume free: "free_run space cnt p"
    then have "w < length space" using short False w(1) by (auto simp: free_run_def)
    moreover have "w - p < cnt" "p + (w - p) = w" using short False p by auto
    ultimately show False using free w(2) unfolding free_run_def by metis
  qed
qed (rule before)

locale finder =
  fixes space :: "bool list"
    and find_zero :: "nat \<Rightarrow> nat option"
    and find_one :: "nat \<Rightarrow> nat option"
  assumes zero: "n \<le> length space \<Longrightarrow> \<exists>r. find_zero n = Some r \<and> first_at False space n r"
    and one: "n \<le> length space \<Longrightarrow> \<exists>r. find_one n = Some r \<and> first_at True space n r"
begin

lemma find_run_first:
  assumes "0 < cnt" "cnt \<le> length space" "\<And>p. p < cur \<Longrightarrow> \<not> free_run space cnt p"
  shows "\<exists>r. find_run find_zero find_one (length space) cnt cur = Some r \<and> first_free_run space cnt r"
  using assms(3)
proof (induction "length space - cur" arbitrary: cur rule: less_induct)
  case less
  let ?N = "length space"
  note run = find_run.simps [of find_zero find_one ?N cnt cur]
  show ?case
  proof (cases "cur \<le> ?N - cnt")
    case False
    then have "\<not> free_run space cnt p" if "p + cnt \<le> ?N" for p using less.prems [of p] that by simp
    then show ?thesis using False first_free_run_none by (subst run) simp
  next
    case cur: True
    obtain z where z: "find_zero cur = Some z" "first_at False space cur z" using zero [of cur] cur
      by (meson diff_le_self le_trans)
    note used = no_run_before_zero [OF less.prems z(2) assms(1)]
    show ?thesis
    proof (cases "z = ?N")
      case True
      then have "\<not> free_run space cnt p" if "p + cnt \<le> ?N" for p using used [of p] that assms(1) by simp
      then show ?thesis using True z(1) cur first_free_run_none by (subst run) simp
    next
      case False
      then have zN: "z < ?N" "\<not> space ! z" "cur \<le> z" using z(2) by (auto simp: first_at_def)
      obtain w where w: "find_one (z + 1) = Some w" "first_at True space (z + 1) w"
        using one [of "z + 1"] zN by auto
      have wz: "z < w" "w \<le> ?N" "w < ?N \<Longrightarrow> space ! w" using w(2) by (auto simp: first_at_def)
      have zeros: "\<not> space ! i" if "z \<le> i" "i < w" for i
        using w(2) zN(2) that by (cases "i = z") (auto simp: first_at_def)
      show ?thesis
      proof (cases "cnt \<le> w - z")
        case True
        then have "free_run space cnt z" using zeros wz by (auto simp: free_run_def)
        then have "first_free_run space cnt z" using used assms(1) by (auto simp: first_free_run_def)
        then show ?thesis using True z(1) w(1) False cur by (subst run) simp
      next
        case short: False
        have "?N - (w + 1) < ?N - cur" using wz zN by linarith
        then obtain r where "find_run find_zero find_one ?N cnt (w + 1) = Some r" "first_free_run space cnt r"
          using less.hyps [of "w + 1"] no_run_in_gap [OF used wz(2,3) short] by blast
        then show ?thesis using short z(1) w(1) False cur by (subst run) simp
      qed
    qed
  qed
qed

lemma zeros_bound: "free_run space cnt p \<Longrightarrow> cnt \<le> length space - bitset_count space"
proof -
  assume free: "free_run space cnt p"
  have "{p..<p + cnt} \<subseteq> {i. i < length space \<and> \<not> space ! i}"
    using free unfolding free_run_def by (auto, metis le_add_diff_inverse nat_add_left_cancel_less)
  then have "cnt \<le> card {i. i < length space \<and> \<not> space ! i}"
    using card_mono [of "{i. i < length space \<and> \<not> space ! i}" "{p..<p + cnt}"] by simp
  also have "\<dots> = length (filter (\<lambda>b. \<not> b) space)" by (simp add: length_filter_conv_card)
  also have "\<dots> = length space - bitset_count space"
    using sum_length_filter_compl [of id space] by (simp add: bitset_count_def)
  finally show ?thesis .
qed

lemma search_first:
  "\<exists>r. FindContinuousFreeSpace_with cnt find_zero find_one space = Some r \<and> first_free_run space cnt r"
proof (cases "cnt = 0 \<or> length space - bitset_count space < cnt")
  case True
  then have "cnt = 0 \<or> (\<forall>p. \<not> free_run space cnt p)" using zeros_bound [of cnt] by (auto simp: not_le [symmetric])
  then show ?thesis using True by (auto simp: FindContinuousFreeSpace_with_def Let_def first_free_run_def)
next
  case False
  then show ?thesis
    using find_run_first [of cnt 0] by (auto simp: FindContinuousFreeSpace_with_def Let_def)
qed

end

interpretation bitwise: finder space "\<lambda>n. Some (FindFirstZero space n)" "\<lambda>n. Some (FindFirstOne space n)" for space
  by unfold_locales (auto simp: FindFirstZero_def FindFirstOne_def intro: find_bit_first)

section \<open>The chunks\<close>

text \<open>What a 64-bit finder for the bit \<open>b\<close> promises.\<close>

definition word_finder :: "bool \<Rightarrow> (u64 \<Rightarrow> nat option) \<Rightarrow> bool" where
  "word_finder b f \<longleftrightarrow> (\<forall>v.
     (case f v of
        None \<Rightarrow> \<forall>i<64. bit v i \<noteq> b
      | Some p \<Rightarrow> p < 64 \<and> bit v p = b \<and> (\<forall>i<p. bit v i \<noteq> b)))"

lemma word_finder_one: "word_finder True FindFirstOneUInt64"
  using ctz_less bit_ctz below_ctz by (auto simp: word_finder_def FindFirstOneUInt64_def)

lemma word_finder_zero: "word_finder False FindFirstZeroUInt64"
  unfolding word_finder_def
proof
  fix v :: u64
  have bits: "bit (NOT v) i \<longleftrightarrow> \<not> bit v i" if "i < 64" for i using that by (simp add: bit_not_iff)
  show "case FindFirstZeroUInt64 v of None \<Rightarrow> \<forall>i<64. bit v i \<noteq> False
      | Some p \<Rightarrow> p < 64 \<and> bit v p = False \<and> (\<forall>i<p. bit v i \<noteq> False)"
  proof (cases "v = - 1")
    case True
    then show ?thesis by (simp add: FindFirstZeroUInt64_def bit_minus_1_iff)
  next
    case False
    then have nz: "NOT v \<noteq> 0" by (metis bit.double_compl bit.compl_zero)
    have lt: "ctz (NOT v) < 64" using ctz_less [OF nz] by simp
    moreover have "\<not> bit v (ctz (NOT v))" using bit_ctz [OF nz] bits [OF lt] by simp
    moreover have "bit v i" if "i < ctz (NOT v)" for i using below_ctz [OF nz that] bits [of i] that lt by simp
    ultimately show ?thesis using False by (simp add: FindFirstZeroUInt64_def)
  qed
qed

lemma bit_bits_value: "bit (bits_value xs) i \<longleftrightarrow> i < 64 \<and> i < length xs \<and> xs ! i"
proof (induction xs arbitrary: i)
  case (Cons b xs)
  have "bit (bits_value (b # xs)) i \<longleftrightarrow> b \<and> i = 0 \<or> 1 \<le> i \<and> i < 64 \<and> bit (bits_value xs) (i - 1)"
    by (simp only: bits_value.simps bit_or_iff bit_push_bit_iff) (auto simp: bit_1_iff)
  then show ?case by (cases i) (auto simp: Cons.IH)
qed simp

text \<open>The bits of a bitset, zeros beyond its end.\<close>

definition padded :: "bool list \<Rightarrow> nat \<Rightarrow> bool" where
  "padded xs i \<longleftrightarrow> i < length xs \<and> xs ! i"

lemma length_shr [simp]: "length (bitset_shr k xs) = length xs"
  by (simp add: bitset_shr_def)

lemma padded_shr: "padded (bitset_shr k xs) i \<longleftrightarrow> padded xs (k + i)"
  by (auto simp: padded_def bitset_shr_def nth_append min_def split: if_splits)

lemma chunk_value:
  "\<exists>v. to_ullong (bitset_and xs (MARSK (length xs))) = Some v \<and> (\<forall>i<64. bit v i \<longleftrightarrow> padded xs i)"
proof -
  let ?ys = "bitset_and xs (MARSK (length xs))"
  have len: "length ?ys = length xs" by (simp add: bitset_and_def MARSK_def)
  have at: "?ys ! i \<longleftrightarrow> xs ! i \<and> i < 64" if "i < length xs" for i
    using that by (simp add: bitset_and_def MARSK_def)
  have "True \<notin> set (drop 64 ?ys)" by (auto simp: in_set_conv_nth len at)
  then show ?thesis
    by (auto simp: to_ullong_def bit_bits_value len at padded_def)
qed

text \<open>The word \<open>v\<close> holds the bits of \<open>space\<close> from \<open>off\<close> on.\<close>

definition word_at :: "bool list \<Rightarrow> nat \<Rightarrow> u64 \<Rightarrow> bool" where
  "word_at space off v \<longleftrightarrow> (\<forall>i<64. bit v i \<longleftrightarrow> padded space (off + i))"

lemma word_at_differs:
  assumes "word_at space off v" "\<forall>j<k. bit v j \<noteq> b" "k \<le> 64"
    and "off \<le> i" "i < off + k" "i < length space"
  shows "space ! i \<noteq> b"
proof -
  have "i - off < k" using assms(4,5) by simp
  then have "bit v (i - off) \<noteq> b" "i - off < 64" using assms(2,3) by auto
  then show ?thesis using assms(1,4,6) by (simp add: word_at_def padded_def)
qed

lemma word_at_hit:
  assumes at: "word_at space off v" and p: "p < 64" "bit v p = b" "\<forall>i<p. bit v i \<noteq> b"
    and off: "from \<le> off" "off < length space"
    and before: "\<And>i. from \<le> i \<Longrightarrow> i < off \<Longrightarrow> i < length space \<Longrightarrow> space ! i \<noteq> b"
  shows "first_at b space from (off + p)"
proof -
  have le: "off + p \<le> length space"
  proof (rule ccontr)
    assume "\<not> off + p \<le> length space"
    then have far: "length space - off < p" "\<not> padded space (off + (length space - off))" "\<not> padded space (off + p)"
      using off by (simp_all add: padded_def)
    then have "bit v (length space - off) \<noteq> b" "length space - off < 64" using p by auto
    then show False using at p(1,2) far(2,3) by (simp add: word_at_def)
  qed
  have "space ! (off + p) = b" if "off + p < length space"
    using at p(1,2) that by (simp add: word_at_def padded_def)
  moreover have "space ! i \<noteq> b" if "from \<le> i" "i < off + p" for i
    using before [of i] word_at_differs [OF at p(3), of i] that le p(1) by (cases "i < off") auto
  ultimately show ?thesis using le off(1) by (simp add: first_at_def)
qed

lemma find_chunk_first:
  assumes f: "word_finder b f" and N: "N = length space" "from \<le> N"
  shows "length xs = N \<Longrightarrow> (\<And>i. padded xs i \<longleftrightarrow> padded space (from + 64 * ci + i)) \<Longrightarrow>
    N \<le> from + 64 * (ci + left) \<Longrightarrow> (0 < left \<Longrightarrow> from + 64 * ci + 64 * (left - 1) < N) \<Longrightarrow>
    (\<And>i. from \<le> i \<Longrightarrow> i < from + 64 * ci \<Longrightarrow> i < N \<Longrightarrow> space ! i \<noteq> b) \<Longrightarrow>
    \<exists>r. find_chunk f N from left ci xs = Some r \<and> first_at b space from r"
proof (induction left arbitrary: ci xs)
  case 0
  then show ?case using N by (auto simp: first_at_def)
next
  case (Suc left)
  obtain v where v: "to_ullong (bitset_and xs (MARSK N)) = Some v" "\<forall>i<64. bit v i \<longleftrightarrow> padded xs i"
    using chunk_value [of xs] Suc.prems(1) by auto
  define off where "off = from + 64 * ci"
  have at: "word_at space off v" using v(2) Suc.prems(2) by (simp add: word_at_def off_def)
  have spec: "case f v of None \<Rightarrow> \<forall>i<64. bit v i \<noteq> b
      | Some p \<Rightarrow> p < 64 \<and> bit v p = b \<and> (\<forall>i<p. bit v i \<noteq> b)"
    using f unfolding word_finder_def by blast
  show ?case
  proof (cases "f v")
    case (Some p)
    then have "first_at b space from (off + p)"
      using spec Suc.prems(4,5) N(1) by (intro word_at_hit [OF at]) (simp_all add: off_def)
    moreover have "find_chunk f N from (Suc left) ci xs = Some (off + p)"
      by (simp add: v(1) Some) (simp add: off_def CHUNK_SIZE_64_BITS_def)
    ultimately show ?thesis by blast
  next
    case None
    then have no: "\<forall>j<64. bit v j \<noteq> b" using spec by simp
    have "\<exists>r. find_chunk f N from left (ci + 1) (bitset_shr 64 xs) = Some r \<and> first_at b space from r"
    proof (rule Suc.IH)
      show "length (bitset_shr 64 xs) = N" by (simp add: Suc.prems(1))
      show "padded (bitset_shr 64 xs) i \<longleftrightarrow> padded space (from + 64 * (ci + 1) + i)" for i
        using Suc.prems(2) [of "64 + i"] by (simp add: padded_shr ac_simps)
      show "N \<le> from + 64 * (ci + 1 + left)" using Suc.prems(3) by simp
      show "from + 64 * (ci + 1) + 64 * (left - 1) < N" if "0 < left"
        using Suc.prems(4) that by (cases left) simp_all
      show "space ! i \<noteq> b" if "from \<le> i" "i < from + 64 * (ci + 1)" "i < N" for i
        using Suc.prems(5) [of i] word_at_differs [OF at no, of i] that N(1)
        by (cases "i < off") (auto simp: off_def)
    qed
    then show ?thesis using v(1) None by simp
  qed
qed

lemma find_v1_first:
  assumes "word_finder b f" "from \<le> length space"
  shows "\<exists>r. find_v1 f space from = Some r \<and> first_at b space from r"
proof -
  define t where "t = (length space - from + 64 - 1) div 64"
  have t: "length space \<le> from + 64 * t" "0 < t \<Longrightarrow> from + 64 * (t - 1) < length space"
    using assms(2) unfolding t_def by linarith+
  show ?thesis
    unfolding find_v1_def Let_def CHUNK_SIZE_64_BITS_def t_def [symmetric]
    by (rule find_chunk_first [OF assms(1) refl assms(2)]) (use t in \<open>simp_all add: padded_shr\<close>)
qed

interpretation chunked: finder space "FindFirstZeroV1 space" "FindFirstOneV1 space" for space
  by unfold_locales
    (simp_all add: FindFirstZeroV1_def FindFirstOneV1_def find_v1_first word_finder_zero word_finder_one)

lemma first_free_run_unique:
  assumes "first_free_run space cnt r" "first_free_run space cnt r'"
  shows "r = r'"
proof (cases "cnt > 0 \<and> (\<exists>p. free_run space cnt p)")
  case True
  then have "free_run space cnt r" "free_run space cnt r'" "\<forall>p<r. \<not> free_run space cnt p" "\<forall>p<r'. \<not> free_run space cnt p"
    using assms by (simp_all add: first_free_run_def)
  then show ?thesis by (metis nat_neq_iff)
next
  case False
  then have "r = length space" "r' = length space" using assms unfolding first_free_run_def by argo+
  then show ?thesis by simp
qed

lemma mark_all_result:
  "\<forall>p\<in>set ps. p < length space \<Longrightarrow>
     fst (mark_all b ps space) \<and> length (snd (mark_all b ps space)) = length space \<and>
     (\<forall>i<length space. snd (mark_all b ps space) ! i = (if i \<in> set ps then b else space ! i))"
proof (induction ps arbitrary: space)
  case (Cons p ps)
  have "\<forall>q\<in>set ps. q < length (space[p := b])" using Cons.prems by simp
  from Cons.IH [OF this] show ?case using Cons.prems by (auto simp: nth_list_update)
qed simp

lemma mark_all_error: "\<exists>p\<in>set ps. length space \<le> p \<Longrightarrow> \<not> fst (mark_all b ps space)"
proof (induction ps arbitrary: space)
  case (Cons p ps)
  show ?case using Cons.IH [of "space[p := b]"] Cons.prems by auto
qed simp

section \<open>The drivers of main.cc\<close>

text \<open>A bitset from a string: the last character is bit 0.\<close>

definition bitset_of :: "string \<Rightarrow> bool list" where
  "bitset_of s = map (\<lambda>c. c = CHR ''1'') (rev s)"

definition TestMetaDataLayout :: bool where
  "TestMetaDataLayout \<longleftrightarrow>
     (let N = 10;
          tmp = bitset_of ''0000000000'';
          tmp1 = bitset_of ''1100100010'';
          s2 = snd (MarkSpaceFreed [8, 9] (snd (MarkSpaceUsed [3, 6] tmp1)))
      in FindContinuousFreeSpace 10 tmp = Some 0 \<and> FindContinuousFreeSpace 11 tmp = Some N \<and>
         FindContinuousFreeSpace 10 tmp1 = Some N \<and> FindContinuousFreeSpace 3 tmp1 = Some 2 \<and>
         FindContinuousFreeSpace 3 s2 = Some 7 \<and> FindContinuousFreeSpace 4 s2 = Some N)"

definition TestMetaDataLayoutV1 :: bool where
  "TestMetaDataLayoutV1 \<longleftrightarrow>
     (let N = 140;
          tmp = bitset_of (''000000110000000'' @ replicate 65 CHR ''1'') @ replicate 60 False;
          tmp1 = bitset_of (replicate 140 CHR ''1'');
          s1 = snd (MarkSpaceFreed [138, 137] tmp1);
          s2 = snd (MarkSpaceFreed [139] s1)
      in FindContinuousFreeSpaceV1 8 tmp = Some 74 \<and> FindContinuousFreeSpaceV1 4 tmp = Some 65 \<and>
         FindContinuousFreeSpaceV1 1 tmp1 = Some N \<and> FindContinuousFreeSpaceV1 2 s1 = Some 137 \<and>
         FindContinuousFreeSpaceV1 3 s1 = Some N \<and> FindContinuousFreeSpaceV1 3 s2 = Some 137)"

lemma V1_is_bitwise: "FindContinuousFreeSpaceV1 cnt space = FindContinuousFreeSpace cnt space"
  using bitwise.search_first [of cnt space] chunked.search_first [of cnt space] first_free_run_unique
  unfolding FindContinuousFreeSpaceV1_def FindContinuousFreeSpace_def by metis

lemma TestMetaDataLayout_passes: TestMetaDataLayout
  by code_simp

lemma TestMetaDataLayoutV1_passes: TestMetaDataLayoutV1
  unfolding TestMetaDataLayoutV1_def V1_is_bitwise by code_simp

section \<open>Properties\<close>

text \<open>C22: FindContinuousFreeSpace always returns: the start of the first run of cnt free blocks, or N when
  there is none or cnt is 0.\<close>

theorem free_space_is_first_run:
  "\<exists>r. FindContinuousFreeSpace cnt space = Some r \<and>
     (if cnt > 0 \<and> (\<exists>p. p + cnt \<le> length space \<and> (\<forall>i<cnt. \<not> space ! (p + i)))
      then free_run space cnt r \<and> (\<forall>p<r. \<not> free_run space cnt p)
      else r = length space)"
  using bitwise.search_first [of cnt space]
  unfolding FindContinuousFreeSpace_def first_free_run_def free_run_def by blast

theorem free_space_is_first_run_witness:
  "FindContinuousFreeSpace 2 [True, False, True, False, False] = Some 3"
proof -
  let ?s = "[True, False, True, False, False]"
  have run: "free_run ?s 2 3" by (simp add: free_run_def less_Suc_eq numeral_eq_Suc)
  have none: "\<not> free_run ?s 2 p" if "p < 3" for p
  proof -
    have "p = 0 \<or> p = 1 \<or> p = 2" using that by linarith
    then show ?thesis by (auto simp: free_run_def numeral_eq_Suc)
  qed
  have ex: "(0::nat) < 2 \<and> (\<exists>p. p + 2 \<le> length ?s \<and> (\<forall>i<2. \<not> ?s ! (p + i)))"
    using run unfolding free_run_def by (intro conjI exI [of _ 3]) simp_all
  obtain r where r: "FindContinuousFreeSpace 2 ?s = Some r" "free_run ?s 2 r" "\<forall>p<r. \<not> free_run ?s 2 p"
    using free_space_is_first_run [of 2 ?s] unfolding if_P [OF ex] by blast
  then have "r = 3" using run none by (metis linorder_neqE_nat)
  then show ?thesis using r(1) by simp
qed

text \<open>C26: The search by 64-bit chunks is equivalent to the search bit by bit, for every size of the bitset
  and every position; no conversion to 64 bits overflows.\<close>

theorem chunked_search_equivalent:
  "FindContinuousFreeSpaceV1 cnt space = FindContinuousFreeSpace cnt space \<and>
   (from \<le> length space \<longrightarrow> FindFirstZeroV1 space from = Some (FindFirstZero space from) \<and>
      FindFirstOneV1 space from = Some (FindFirstOne space from))"
proof (intro conjI impI)
  show "FindContinuousFreeSpaceV1 cnt space = FindContinuousFreeSpace cnt space" by (rule V1_is_bitwise)
  assume f: "from \<le> length space"
  show "FindFirstZeroV1 space from = Some (FindFirstZero space from)"
    using chunked.zero [OF f] find_bit_first [OF f] first_at_unique unfolding FindFirstZero_def by metis
  show "FindFirstOneV1 space from = Some (FindFirstOne space from)"
    using chunked.one [OF f] find_bit_first [OF f] first_at_unique unfolding FindFirstOne_def by metis
qed

theorem chunked_search_equivalent_witness:
  "FindFirstZeroV1 [True, False] 0 = Some (FindFirstZero [True, False] 0)"
  using chunked_search_equivalent [of 1 "[True, False]" 0] by simp

text \<open>MarkSpaceUsed and MarkSpaceFreed set exactly the given blocks; a position outside the bitset is
  refused with an exception.\<close>

theorem mark_space_sets_blocks:
  "(if \<forall>p\<in>set ps. p < length space
    then fst (MarkSpaceUsed ps space) \<and> fst (MarkSpaceFreed ps space) \<and>
      length (snd (MarkSpaceUsed ps space)) = length space \<and>
      (\<forall>i<length space. snd (MarkSpaceUsed ps space) ! i = (i \<in> set ps \<or> space ! i) \<and>
        snd (MarkSpaceFreed ps space) ! i = (i \<notin> set ps \<and> space ! i))
    else \<not> fst (MarkSpaceUsed ps space) \<and> \<not> fst (MarkSpaceFreed ps space))"
  using mark_all_result [of ps space] mark_all_error [of ps space]
  by (auto simp: MarkSpaceUsed_def MarkSpaceFreed_def not_less)

theorem mark_space_sets_blocks_witness:
  "snd (MarkSpaceFreed [8] (replicate 10 True)) ! 8 = False"
  using mark_space_sets_blocks [of "[8]" "replicate 10 True"] by auto

end
