(* ===== verification/Dynamic_Bits.thy ===== *)
theory Dynamic_Bits
  imports Bits "HOL-Library.Monad_Syntax"
begin

unbundle bit_operations_syntax

text \<open>
  \<^verbatim>\<open>example-dynamic-bits/dynamic_bits.{h,cc}\<close>: a bitset with index levels. Level 0 holds the bits, a
  bit of each further level says whether a word of the level below is nonzero. \<^verbatim>\<open>size_t\<close> is \<open>u64\<close>;
  the places where the source stores into \<^verbatim>\<open>unsigned\<close> are cut to 32 bits. An index outside a vector
  is undefined: \<open>None\<close>.
\<close>

section \<open>The bitset\<close>

definition bits_per_int :: nat where "bits_per_int = 64"
definition level_shift :: nat where "level_shift = 6"
definition nopos :: u64 where "nopos = - 1"

lemma level_shift_is_log2: "log2ceil (of_nat bits_per_int :: u64) = Some level_shift"
  by code_simp

record DynamicBits =
  levels :: "u64 list list"
  nr_bits :: u64

definition mask_lower_bits :: "nat \<Rightarrow> u64" where
  "mask_lower_bits n = push_bit n 1 - 1"

definition mask_higer_bits :: "nat \<Rightarrow> u64" where
  "mask_higer_bits n = NOT (mask_lower_bits n)"

definition level_idx :: "nat \<Rightarrow> u64 \<Rightarrow> nat" where
  "level_idx level n = unat (drop_bit ((level + 1) * level_shift) n)"

definition level_remainder :: "nat \<Rightarrow> u64 \<Rightarrow> nat" where
  "level_remainder level n = unat (drop_bit (level * level_shift) n AND of_nat (bits_per_int - 1))"

definition div_ceil :: "nat \<Rightarrow> nat \<Rightarrow> nat" where
  "div_ceil num den = (num + den - 1) div den"

fun make_levels :: "nat \<Rightarrow> u64 \<Rightarrow> u64 list list option" where
  "make_levels 0 level_bits = Some []"
| "make_levels (Suc i) level_bits =
     (case align_up level_bits (of_nat bits_per_int) of
        None \<Rightarrow> None
      | Some a \<Rightarrow>
          (let level_words = ucast (a div of_nat bits_per_int) :: u32
           in map_option (Cons (replicate (unat level_words) 0)) (make_levels i (ucast level_words))))"

definition DynamicBits_new :: "u64 \<Rightarrow> DynamicBits option" where
  "DynamicBits_new n =
     (case Option.bind (align_up n (of_nat bits_per_int)) log2ceil of
        None \<Rightarrow> None
      | Some k \<Rightarrow> map_option (\<lambda>ls. \<lparr>levels = ls, nr_bits = n\<rparr>) (make_levels (div_ceil k level_shift) n))"

definition vec_at :: "'a list \<Rightarrow> nat \<Rightarrow> 'a option" where
  "vec_at xs i = (if i < length xs then Some (xs ! i) else None)"

definition bit_of :: "u64 \<Rightarrow> u64" where
  "bit_of n = push_bit (unat (n mod of_nat bits_per_int)) 1"

definition test_bit :: "u64 \<Rightarrow> DynamicBits \<Rightarrow> bool option" where
  "test_bit n s =
     (case vec_at (levels s) 0 of
        None \<Rightarrow> None
      | Some ws \<Rightarrow> map_option (\<lambda>w. w AND bit_of n \<noteq> 0) (vec_at ws (unat (n div of_nat bits_per_int))))"

fun set_levels :: "u64 \<Rightarrow> u64 list list \<Rightarrow> u64 list list option" where
  "set_levels n [] = Some []"
| "set_levels n (level # rest) =
     (let idx = ucast (n div of_nat bits_per_int) :: u32 in
      case vec_at level (unat idx) of
        None \<Rightarrow> None
      | Some old \<Rightarrow>
          (let level' = level[unat idx := old OR bit_of n]
           in if old \<noteq> 0 then Some (level' # rest)
              else map_option (Cons level') (set_levels (ucast idx) rest)))"

definition set_bit_at :: "u64 \<Rightarrow> DynamicBits \<Rightarrow> DynamicBits option" where
  "set_bit_at n s = map_option (\<lambda>ls. s\<lparr>levels := ls\<rparr>) (set_levels n (levels s))"

fun clear_levels :: "u64 \<Rightarrow> u64 list list \<Rightarrow> u64 list list option" where
  "clear_levels n [] = Some []"
| "clear_levels n (level # rest) =
     (let idx = ucast (n div of_nat bits_per_int) :: u32 in
      case vec_at level (unat idx) of
        None \<Rightarrow> None
      | Some old \<Rightarrow>
          (let level' = level[unat idx := old AND NOT (bit_of n)]
           in if old = 0 \<or> level' ! unat idx \<noteq> 0 then Some (level' # rest)
              else map_option (Cons level') (clear_levels (ucast idx) rest)))"

definition clear_bit_at :: "u64 \<Rightarrow> DynamicBits \<Rightarrow> DynamicBits option" where
  "clear_bit_at n s = map_option (\<lambda>ls. s\<lparr>levels := ls\<rparr>) (clear_levels n (levels s))"

text \<open>The loops of \<^verbatim>\<open>find_first_set\<close> and \<^verbatim>\<open>find_last_set\<close> over the levels from the top.\<close>

fun first_loop :: "u64 list list \<Rightarrow> u64 \<Rightarrow> u64 option" where
  "first_loop [] pos = Some pos"
| "first_loop (vv # rest) pos =
     (case vec_at vv (unat pos) of
        None \<Rightarrow> None
      | Some v \<Rightarrow>
          if v \<noteq> 0 then first_loop rest (pos * of_nat bits_per_int + of_nat (ctz v)) else Some nopos)"

definition find_first_set :: "DynamicBits \<Rightarrow> u64 option" where
  "find_first_set s = first_loop (rev (levels s)) 0"

fun last_loop :: "u64 list list \<Rightarrow> u64 \<Rightarrow> u64 option" where
  "last_loop [] pos = Some pos"
| "last_loop (vv # rest) pos =
     (case vec_at vv (unat pos) of
        None \<Rightarrow> None
      | Some v \<Rightarrow>
          if v \<noteq> 0 then last_loop rest (pos * of_nat bits_per_int + of_nat (bits_per_int - 1 - clz v))
          else Some nopos)"

definition find_last_set :: "DynamicBits \<Rightarrow> u64 option" where
  "find_last_set s = last_loop (rev (levels s)) 0"

text \<open>\<^verbatim>\<open>find_next_set\<close>: the word looked at, the ascent (the first argument counts the levels left; the
  inner option is \<^verbatim>\<open>nopos\<close>) and the descent.\<close>

definition masked_word :: "DynamicBits \<Rightarrow> nat \<Rightarrow> u64 \<Rightarrow> u64 option" where
  "masked_word s level n =
     map_option (\<lambda>v. v AND mask_higer_bits (level_remainder level n))
       (Option.bind (vec_at (levels s) level) (\<lambda>ws. vec_at ws (level_idx level n)))"

fun next_up :: "nat \<Rightarrow> DynamicBits \<Rightarrow> nat \<Rightarrow> u64 \<Rightarrow> (nat \<times> u64) option option" where
  "next_up 0 s level n = Some None"
| "next_up (Suc left) s level n =
     (if n \<ge> nr_bits s then Some None
      else
        (case masked_word s level n of
           None \<Rightarrow> None
         | Some v \<Rightarrow>
             if v \<noteq> 0 then Some (Some (level, n))
             else
               (case align_up n (push_bit ((level + 1) * level_shift) 1) of
                  None \<Rightarrow> None
                | Some n' \<Rightarrow> next_up left s (level + 1) n')))"

definition down_step :: "DynamicBits \<Rightarrow> nat \<Rightarrow> u64 \<Rightarrow> u64 option" where
  "down_step s level n =
     (case masked_word s level n of
        None \<Rightarrow> None
      | Some v \<Rightarrow>
          (case (align_down n (push_bit (level_shift * (level + 1)) 1), count_trailing_zeros v) of
             (Some m, Some c) \<Rightarrow> Some (m + ucast (push_bit (level * level_shift) (of_nat c) :: u32))
           | _ \<Rightarrow> None))"

fun next_down :: "DynamicBits \<Rightarrow> nat \<Rightarrow> u64 \<Rightarrow> u64 option" where
  "next_down s 0 n = down_step s 0 n"
| "next_down s (Suc level) n = Option.bind (down_step s (Suc level) n) (next_down s level)"

definition find_next_set :: "u64 \<Rightarrow> DynamicBits \<Rightarrow> u64 option" where
  "find_next_set n s =
     (case next_up (length (levels s)) s 0 (n + 1) of
        None \<Rightarrow> None
      | Some None \<Rightarrow> Some nopos
      | Some (Some (level, m)) \<Rightarrow> next_down s level m)"

section \<open>The set of a level\<close>

definition wset :: "u64 list \<Rightarrow> nat set" where
  "wset ws = {j. j div 64 < length ws \<and> bit (ws ! (j div 64)) (j mod 64)}"

lemma finite_wset [simp]: "finite (wset ws)"
proof (rule finite_subset)
  show "wset ws \<subseteq> {..<64 * length ws}" by (auto simp: wset_def)
qed simp

lemma word_zero_iff: "i < length ws \<Longrightarrow> ws ! i = 0 \<longleftrightarrow> (\<forall>j\<in>wset ws. j div 64 \<noteq> i)"
proof
  assume i: "i < length ws" and "\<forall>j\<in>wset ws. j div 64 \<noteq> i"
  then have none: "\<not> bit (ws ! i) b" if "b < 64" for b
    using that by (auto simp: wset_def dest: spec [of _ "64 * i + b"])
  show "ws ! i = 0" using none by (intro bit_word_eqI) simp
qed (auto simp: wset_def)

lemma wset_update:
  "i < length ws \<Longrightarrow> j \<in> wset (ws[i := w]) \<longleftrightarrow> (if j div 64 = i then bit w (j mod 64) else j \<in> wset ws)"
  by (simp add: wset_def nth_list_update)

lemma bit_one_at: "k < 64 \<Longrightarrow> bit (push_bit b 1 :: u64) k \<longleftrightarrow> k = b"
  by (simp only: bit_push_bit_iff) (auto simp: bit_1_iff)

lemma wset_or:
  assumes "i < length ws" "b < 64"
  shows "wset (ws[i := ws ! i OR push_bit b 1]) = insert (64 * i + b) (wset ws)"
proof (rule set_eqI)
  fix j
  have "j = 64 * i + b \<longleftrightarrow> j div 64 = i \<and> j mod 64 = b" using assms(2) by auto
  moreover have "j \<in> wset ws \<longleftrightarrow> bit (ws ! i) (j mod 64)" if "j div 64 = i" using that assms(1) by (simp add: wset_def)
  ultimately show "j \<in> wset (ws[i := ws ! i OR push_bit b 1]) \<longleftrightarrow> j \<in> insert (64 * i + b) (wset ws)"
    unfolding wset_update [OF assms(1)] by (simp only: bit_or_iff bit_one_at [OF mod_less_divisor]) auto
qed

lemma wset_andnot:
  assumes "i < length ws" "b < 64"
  shows "wset (ws[i := ws ! i AND NOT (push_bit b 1)]) = wset ws - {64 * i + b}"
proof (rule set_eqI)
  fix j
  have "j = 64 * i + b \<longleftrightarrow> j div 64 = i \<and> j mod 64 = b" using assms(2) by auto
  moreover have "j \<in> wset ws \<longleftrightarrow> bit (ws ! i) (j mod 64)" if "j div 64 = i" using that assms(1) by (simp add: wset_def)
  moreover have "bit (NOT (push_bit b 1) :: u64) (j mod 64) \<longleftrightarrow> j mod 64 \<noteq> b"
    using bit_one_at [of "j mod 64" b] by (simp only: bit_not_iff) simp
  ultimately show "j \<in> wset (ws[i := ws ! i AND NOT (push_bit b 1)]) \<longleftrightarrow> j \<in> wset ws - {64 * i + b}"
    unfolding wset_update [OF assms(1)] by (simp only: bit_and_iff) simp
qed

text \<open>Each level is the image of the one below; level sizes shrink to one word.\<close>

fun chain :: "u64 list list \<Rightarrow> bool" where
  "chain (ws # ws' # rest) \<longleftrightarrow> wset ws' = (\<lambda>j. j div 64) ` wset ws \<and> chain (ws' # rest)"
| "chain _ \<longleftrightarrow> True"

fun fits :: "nat \<Rightarrow> u64 list list \<Rightarrow> bool" where
  "fits m [] \<longleftrightarrow> m = 1"
| "fits m (ws # rest) \<longleftrightarrow> 0 < m \<and> m \<le> 2 ^ 30 \<and> length ws = (m + 63) div 64 \<and> wset ws \<subseteq> {..<m} \<and> fits (length ws) rest"

lemma bit_of_unat: "bit_of n = push_bit (unat n mod 64) 1"
  by (simp add: bit_of_def bits_per_int_def unat_mod)

lemma ucast_up: "unat (ucast (w :: u32) :: u64) = unat w"
proof -
  have "unat w < 2 ^ 32" using unsigned_less [of w] by simp
  then show ?thesis by (simp add: unsigned_ucast_eq take_bit_nat_eq_self)
qed

lemma idx_unat:
  assumes "unat n < 2 ^ 30"
  shows "unat (ucast (n div of_nat bits_per_int :: u64) :: u32) = unat n div 64"
    and "unat (ucast (ucast (n div of_nat bits_per_int :: u64) :: u32) :: u64) = unat n div 64"
proof -
  have d: "unat (n div of_nat bits_per_int) = unat n div 64" by (simp add: bits_per_int_def unat_div)
  show e: "unat (ucast (n div of_nat bits_per_int :: u64) :: u32) = unat n div 64"
    using assms by (simp add: unsigned_ucast_eq take_bit_nat_eq_self d)
  show "unat (ucast (ucast (n div of_nat bits_per_int :: u64) :: u32) :: u64) = unat n div 64"
    unfolding ucast_up e ..
qed

lemma set_levels_correct:
  assumes "chain ls" "fits m ls" "unat n < m" "ls \<noteq> []"
  shows "\<exists>ls'. set_levels n ls = Some ls' \<and> chain ls' \<and> fits m ls' \<and> ls' \<noteq> [] \<and>
           wset (hd ls') = insert (unat n) (wset (hd ls))"
  using assms
proof (induction ls arbitrary: n m)
  case (Cons ws rest)
  have m: "m \<le> 2 ^ 30" "length ws = (m + 63) div 64" "wset ws \<subseteq> {..<m}" "fits (length ws) rest" "0 < m"
    using Cons.prems(2) by auto
  let ?i = "unat n div 64"
  have n: "unat n < 2 ^ 30" using m(1) Cons.prems(3) by simp
  have i: "?i < length ws" using Cons.prems(3) m(2) by linarith
  define ws' where "ws' = ws[?i := ws ! ?i OR bit_of n]"
  have ws': "wset ws' = insert (unat n) (wset ws)" "length ws' = length ws"
    using wset_or [OF i, of "unat n mod 64"] by (simp_all add: ws'_def bit_of_unat)
  have m': "wset ws' \<subseteq> {..<m}" using ws'(1) m(3) Cons.prems(3) by simp
  have step: "set_levels n (ws # rest) =
      (if ws ! ?i \<noteq> 0 then Some (ws' # rest)
       else map_option (Cons ws') (set_levels (ucast (ucast (n div of_nat bits_per_int) :: u32)) rest))"
    using i by (simp add: Let_def vec_at_def idx_unat [OF n] ws'_def)
  show ?case
  proof (cases "ws ! ?i \<noteq> 0 \<or> rest = []")
    case True
    have "chain (ws' # rest)"
    proof (cases rest)
      case (Cons ws2 rest2)
      then obtain j where "j \<in> wset ws" "j div 64 = ?i" using True word_zero_iff [OF i] by auto
      then have "unat n div 64 \<in> (\<lambda>j. j div 64) ` wset ws" by (metis imageI)
      then have "(\<lambda>j. j div 64) ` wset ws' = (\<lambda>j. j div 64) ` wset ws"
        by (simp add: ws'(1) insert_absorb)
      then show ?thesis using Cons.prems(1) Cons by simp
    qed simp
    then show ?thesis using True step ws' m m' by (cases "rest = []") auto
  next
    case False
    let ?n' = "ucast (ucast (n div of_nat bits_per_int) :: u32) :: u64"
    obtain ws2 rest2 where r: "rest = ws2 # rest2" using False by (cases rest) auto
    have up: "wset ws2 = (\<lambda>j. j div 64) ` wset ws" "chain rest" using Cons.prems(1) r by simp_all
    obtain rest' where r': "set_levels ?n' rest = Some rest'" "chain rest'" "fits (length ws) rest'" "rest' \<noteq> []"
        "wset (hd rest') = insert (unat ?n') (wset (hd rest))"
      using Cons.IH [OF up(2) m(4), of ?n'] i False idx_unat(2) [OF n] by auto
    have "wset (hd rest') = (\<lambda>j. j div 64) ` wset ws'"
      using r'(5) up(1) r by (simp add: ws'(1) idx_unat(2) [OF n])
    then have "chain (ws' # rest')" using r'(2,4) by (cases rest') auto
    then show ?thesis using step False r'(1,3) ws' m m' by auto
  qed
qed simp

text \<open>When the word of a cleared bit was zero before or is not zero after, the level above stays as it is.\<close>

lemma summary_kept:
  assumes ws': "wset ws' = wset ws - {n}" and i: "n div 64 < length ws" and i': "n div 64 < length ws'"
    and "ws ! (n div 64) = 0 \<or> ws' ! (n div 64) \<noteq> 0"
  shows "(\<lambda>j. j div 64) ` wset ws' = (\<lambda>j. j div 64) ` wset ws"
proof (cases "ws ! (n div 64) = 0")
  case True
  then have "n \<notin> wset ws" using word_zero_iff [OF i] by blast
  then show ?thesis by (simp add: ws')
next
  case False
  then obtain j where "j \<in> wset ws'" "j div 64 = n div 64"
    using assms(4) word_zero_iff [OF i'] by auto
  then show ?thesis unfolding ws' by (auto simp: image_iff) (metis DiffI singletonD)
qed

lemma chain_same_words:
  assumes "chain (ws # rest)" and "wset ws' = wset ws - {n}"
    and "rest \<noteq> [] \<Longrightarrow> (\<lambda>j. j div 64) ` wset ws' = (\<lambda>j. j div 64) ` wset ws"
  shows "chain (ws' # rest)"
  using assms(1,3) by (cases rest) auto

lemma clear_levels_correct:
  assumes "chain ls" "fits m ls" "unat n < m" "ls \<noteq> []"
  shows "\<exists>ls'. clear_levels n ls = Some ls' \<and> chain ls' \<and> fits m ls' \<and> ls' \<noteq> [] \<and>
           wset (hd ls') = wset (hd ls) - {unat n}"
  using assms
proof (induction ls arbitrary: n m)
  case (Cons ws rest)
  have m: "m \<le> 2 ^ 30" "length ws = (m + 63) div 64" "wset ws \<subseteq> {..<m}" "fits (length ws) rest" "0 < m"
    using Cons.prems(2) by auto
  let ?i = "unat n div 64"
  have n: "unat n < 2 ^ 30" using m(1) Cons.prems(3) by simp
  have i: "?i < length ws" using Cons.prems(3) m(2) by linarith
  define ws' where "ws' = ws[?i := ws ! ?i AND NOT (bit_of n)]"
  have ws': "wset ws' = wset ws - {unat n}" "length ws' = length ws"
    using wset_andnot [OF i, of "unat n mod 64"] by (simp_all add: ws'_def bit_of_unat)
  have m': "wset ws' \<subseteq> {..<m}" using ws'(1) m(3) by blast
  have step: "clear_levels n (ws # rest) =
      (if ws ! ?i = 0 \<or> ws' ! ?i \<noteq> 0 then Some (ws' # rest)
       else map_option (Cons ws') (clear_levels (ucast (ucast (n div of_nat bits_per_int) :: u32)) rest))"
    using i by (simp add: Let_def vec_at_def idx_unat [OF n] ws'_def)
  have i': "?i < length ws'" using i ws'(2) by simp
  show ?case
  proof (cases "ws ! ?i = 0 \<or> ws' ! ?i \<noteq> 0 \<or> rest = []")
    case True
    have "chain (ws' # rest)"
      using chain_same_words [OF Cons.prems(1) ws'(1) summary_kept [OF ws'(1) i i']] True by blast
    then show ?thesis using True step ws' m m' by (cases "rest = []") auto
  next
    case False
    let ?n' = "ucast (ucast (n div of_nat bits_per_int) :: u32) :: u64"
    obtain ws2 rest2 where r: "rest = ws2 # rest2" using False by (cases rest) auto
    have up: "wset ws2 = (\<lambda>j. j div 64) ` wset ws" "chain rest" using Cons.prems(1) r by simp_all
    obtain rest' where r': "clear_levels ?n' rest = Some rest'" "chain rest'" "fits (length ws) rest'" "rest' \<noteq> []"
        "wset (hd rest') = wset (hd rest) - {unat ?n'}"
      using Cons.IH [OF up(2) m(4), of ?n'] i False idx_unat(2) [OF n] by auto
    have "\<forall>j\<in>wset ws'. j div 64 \<noteq> ?i" using False word_zero_iff [OF i'] by simp
    then have "wset (hd rest') = (\<lambda>j. j div 64) ` wset ws'"
      using r'(5) up(1) r by (auto simp: ws'(1) idx_unat(2) [OF n])
    then have "chain (ws' # rest')" using r'(2,4) by (cases rest') auto
    then show ?thesis using step False r'(1,3) ws' m m' by auto
  qed
qed simp

section \<open>First and last\<close>

lemma min_word:
  assumes "wset ws \<noteq> {}"
  defines "pos \<equiv> Min (wset ws) div 64"
  shows "pos < length ws" "ws ! pos \<noteq> 0" "Min (wset ws) = 64 * pos + ctz (ws ! pos)"
proof -
  let ?m = "Min (wset ws)"
  have mem: "?m \<in> wset ws" by (rule Min_in [OF finite_wset assms(1)])
  then have pos: "pos < length ws" and b: "bit (ws ! pos) (?m mod 64)" by (simp_all add: wset_def pos_def)
  show "pos < length ws" by (rule pos)
  show nz: "ws ! pos \<noteq> 0" using b by auto
  have c: "ctz (ws ! pos) < 64" using ctz_less [OF nz] by simp
  then have "64 * pos + ctz (ws ! pos) \<in> wset ws" using bit_ctz [OF nz] pos by (simp add: wset_def)
  then have "?m \<le> 64 * pos + ctz (ws ! pos)" by simp
  moreover have "\<not> ?m mod 64 < ctz (ws ! pos)" using below_ctz [OF nz] b by blast
  moreover have "?m = 64 * pos + ?m mod 64" by (simp add: pos_def)
  ultimately show "?m = 64 * pos + ctz (ws ! pos)" by linarith
qed

lemma max_word:
  assumes "wset ws \<noteq> {}"
  defines "pos \<equiv> Max (wset ws) div 64"
  shows "pos < length ws" "ws ! pos \<noteq> 0" "Max (wset ws) = 64 * pos + (63 - clz (ws ! pos))"
proof -
  let ?m = "Max (wset ws)"
  have mem: "?m \<in> wset ws" by (rule Max_in [OF finite_wset assms(1)])
  then have pos: "pos < length ws" and b: "bit (ws ! pos) (?m mod 64)" by (simp_all add: wset_def pos_def)
  show "pos < length ws" by (rule pos)
  show nz: "ws ! pos \<noteq> 0" using b by auto
  obtain t where t: "bit (ws ! pos) t" "\<And>i. t < i \<Longrightarrow> \<not> bit (ws ! pos) i" using obtain_top_bit [OF nz] by blast
  have tc: "63 - clz (ws ! pos) = t" "t < 64" using clz_top [OF t] by simp_all
  then have "64 * pos + t \<in> wset ws" using t(1) pos by (simp add: wset_def)
  then have "64 * pos + t \<le> ?m" by simp
  moreover have "\<not> t < ?m mod 64" using t(2) b by blast
  moreover have "?m = 64 * pos + ?m mod 64" by (simp add: pos_def)
  ultimately show "?m = 64 * pos + (63 - clz (ws ! pos))" using tc by linarith
qed

lemma mono_div64: "mono (\<lambda>j::nat. j div 64)"
  by (simp add: monoI div_le_mono)

lemma small_of_nat: "k < 2 ^ 30 \<Longrightarrow> unat (of_nat k :: u64) = k"
  by (rule of_nat_inverse) simp_all

lemma top_word: "length ws = 1 \<Longrightarrow> ws ! 0 = 0 \<longleftrightarrow> wset ws = {}"
  using word_zero_iff [of 0 ws] by (auto simp: wset_def)

lemma first_loop_correct:
  assumes "chain ls" "fits m ls" "ls \<noteq> []"
  shows "first_loop (rev ls @ rest) 0 =
    (if wset (hd ls) = {} then Some nopos else first_loop rest (of_nat (Min (wset (hd ls)))))"
  using assms
proof (induction ls arbitrary: m rest)
  case (Cons ws ls)
  have "chain ls" "fits (length ws) ls" using Cons.prems(1,2) by (cases ls; simp)+
  note IH = Cons.IH [OF this]
  have sub: "wset ws \<subseteq> {..<2 ^ 30}" using Cons.prems(2) by (auto simp: lessThan_def intro: order.strict_trans2)
  show ?case
  proof (cases "wset ws = {}")
    case empty: True
    show ?thesis
    proof (cases ls)
      case Nil
      then show ?thesis using empty Cons.prems(2) top_word [of ws] by (simp add: vec_at_def)
    next
      case (Cons ws2 ls2)
      then have "wset (hd ls) = {}" using Cons.prems(1) empty by simp
      then show ?thesis using IH [of "ws # rest"] Cons empty by simp
    qed
  next
    case False
    define pos where "pos = Min (wset ws) div 64"
    note mw = min_word [OF False, folded pos_def]
    have "Min (wset ws) \<in> wset ws" by (rule Min_in [OF finite_wset False])
    then have small: "pos < 2 ^ 30" using sub unfolding pos_def by (metis div_le_dividend lessThan_iff order.strict_trans1 subsetD)
    have step: "first_loop (ws # rest) (of_nat pos) = first_loop rest (of_nat (Min (wset ws)))"
      using mw by (simp add: vec_at_def small_of_nat [OF small] bits_per_int_def mult.commute)
    show ?thesis
    proof (cases ls)
      case Nil
      then have "pos = 0" using mw(1) Cons.prems(2) by simp
      then show ?thesis using step Nil False by simp
    next
      case (Cons ws2 ls2)
      have im: "wset ws2 = (\<lambda>j. j div 64) ` wset ws" using Cons.prems(1) Cons by simp
      have "Min (wset ws2) = pos"
        unfolding im pos_def by (rule mono_Min_commute [OF mono_div64 finite_wset False, symmetric])
      then show ?thesis
        using IH [of "ws # rest"] Cons False im step by simp
    qed
  qed
qed simp

lemma last_loop_correct:
  assumes "chain ls" "fits m ls" "ls \<noteq> []"
  shows "last_loop (rev ls @ rest) 0 =
    (if wset (hd ls) = {} then Some nopos else last_loop rest (of_nat (Max (wset (hd ls)))))"
  using assms
proof (induction ls arbitrary: m rest)
  case (Cons ws ls)
  have "chain ls" "fits (length ws) ls" using Cons.prems(1,2) by (cases ls; simp)+
  note IH = Cons.IH [OF this]
  have sub: "wset ws \<subseteq> {..<2 ^ 30}" using Cons.prems(2) by (auto simp: lessThan_def intro: order.strict_trans2)
  show ?case
  proof (cases "wset ws = {}")
    case empty: True
    show ?thesis
    proof (cases ls)
      case Nil
      then show ?thesis using empty Cons.prems(2) top_word [of ws] by (simp add: vec_at_def)
    next
      case (Cons ws2 ls2)
      then have "wset (hd ls) = {}" using Cons.prems(1) empty by simp
      then show ?thesis using IH [of "ws # rest"] Cons empty by simp
    qed
  next
    case False
    define pos where "pos = Max (wset ws) div 64"
    note mw = max_word [OF False, folded pos_def]
    have "Max (wset ws) \<in> wset ws" by (rule Max_in [OF finite_wset False])
    then have small: "pos < 2 ^ 30" using sub unfolding pos_def by (metis div_le_dividend lessThan_iff order.strict_trans1 subsetD)
    have step: "last_loop (ws # rest) (of_nat pos) = last_loop rest (of_nat (Max (wset ws)))"
      using mw by (simp add: vec_at_def small_of_nat [OF small] bits_per_int_def mult.commute)
    show ?thesis
    proof (cases ls)
      case Nil
      then have "pos = 0" using mw(1) Cons.prems(2) by simp
      then show ?thesis using step Nil False by simp
    next
      case (Cons ws2 ls2)
      have im: "wset ws2 = (\<lambda>j. j div 64) ` wset ws" using Cons.prems(1) Cons by simp
      have "Max (wset ws2) = pos"
        unfolding im pos_def by (rule mono_Max_commute [OF mono_div64 finite_wset False, symmetric])
      then show ?thesis
        using IH [of "ws # rest"] Cons False im step by simp
    qed
  qed
qed simp

section \<open>Next\<close>

definition db_set :: "DynamicBits \<Rightarrow> nat set" where
  "db_set s = wset (hd (levels s))"

definition db_ok :: "DynamicBits \<Rightarrow> bool" where
  "db_ok s \<longleftrightarrow> chain (levels s) \<and> fits (unat (nr_bits s)) (levels s) \<and> levels s \<noteq> [] \<and> length (levels s) \<le> 5"

lemma chain_nth: "chain ls \<Longrightarrow> Suc l < length ls \<Longrightarrow> wset (ls ! Suc l) = (\<lambda>j. j div 64) ` wset (ls ! l)"
proof (induction ls arbitrary: l rule: chain.induct)
  case (1 ws ws' rest)
  then show ?case by (cases l) auto
qed auto

lemma level_set:
  "chain ls \<Longrightarrow> l < length ls \<Longrightarrow> wset (ls ! l) = (\<lambda>j. j div 64 ^ l) ` wset (hd ls)"
proof (induction l)
  case 0
  then show ?case by (simp add: hd_conv_nth)
next
  case (Suc l)
  have "(j div 64 ^ l) div 64 = j div 64 ^ Suc l" for j :: nat by (metis div_mult2_eq mult.commute power_Suc)
  then show ?case using Suc chain_nth [OF Suc.prems] by (simp add: image_image)
qed

lemma fits_nth: "fits m ls \<Longrightarrow> l < length ls \<Longrightarrow> x < m \<Longrightarrow> x div 64 ^ Suc l < length (ls ! l)"
proof (induction ls arbitrary: m l x)
  case (Cons ws ls)
  have w: "x div 64 < length ws" "fits (length ws) ls" using Cons.prems(1,3) by auto
  show ?case
  proof (cases l)
    case (Suc k)
    have "x div 64 ^ Suc (Suc k) = (x div 64) div 64 ^ Suc k" by (simp only: power_Suc [of 64 "Suc k"] div_mult2_eq)
    then show ?thesis using Cons.IH [OF w(2) _ w(1), of k] Cons.prems(2) Suc by simp
  qed (use w in simp)
qed simp

lemma fits_top: "fits m ls \<Longrightarrow> m \<le> 64 ^ length ls"
proof (induction ls arbitrary: m)
  case (Cons ws ls)
  then have "length ws \<le> 64 ^ length ls" "length ws = (m + 63) div 64" by auto
  then have "m \<le> 64 * 64 ^ length ls" by linarith
  then show ?case by simp
qed simp

lemma fits_contents: "fits m ls \<Longrightarrow> ls \<noteq> [] \<Longrightarrow> wset (hd ls) \<subseteq> {..<m} \<and> m \<le> 2 ^ 30 \<and> 0 < m"
  by (cases ls) auto

lemma pow64: "(2::nat) ^ (6 * l) = 64 ^ l"
  by (simp add: power_mult)

lemma masked_word_bits:
  assumes ok: "db_ok s" and l: "l < length (levels s)" and n: "unat n < unat (nr_bits s)"
  shows "\<exists>v. masked_word s l n = Some v \<and>
    (\<forall>b. bit v b \<longleftrightarrow> b < 64 \<and> unat n div 64 ^ l mod 64 \<le> b \<and>
        64 * (unat n div 64 ^ Suc l) + b \<in> wset (levels s ! l))"
proof -
  let ?i = "unat n div 64 ^ Suc l" and ?r = "unat n div 64 ^ l mod 64"
  have i: "?i < length (levels s ! l)" using fits_nth [OF _ l n] ok by (simp add: db_ok_def)
  have li: "level_idx l n = ?i"
    unfolding level_idx_def level_shift_def unat_drop_bit_div using pow64 [of "Suc l"] by (simp add: mult.commute)
  have m: "(of_nat (bits_per_int - 1) :: u64) = mask 6" by (simp add: bits_per_int_def mask_eq_decr_exp)
  have lr: "level_remainder l n = ?r"
    unfolding level_remainder_def level_shift_def m unat_and_mask_mod unat_drop_bit_div
    using pow64 [of l] by (simp add: mult.commute)
  have low: "mask_lower_bits k = mask k" for k
    by (simp add: mask_lower_bits_def mask_eq_decr_exp push_bit_eq_mult)
  have "bit (mask_higer_bits ?r) b \<longleftrightarrow> ?r \<le> b \<and> b < 64" for b
    unfolding mask_higer_bits_def low by (auto simp: bit_not_iff bit_mask_iff)
  moreover have "bit (levels s ! l ! ?i) b \<longleftrightarrow> 64 * ?i + b \<in> wset (levels s ! l)" if "b < 64" for b
    using i that by (simp add: wset_def)
  ultimately show ?thesis
    using i l unfolding masked_word_def li lr by (auto simp: vec_at_def bit_and_iff)
qed

lemma same_block:
  fixes a :: nat
  assumes "a \<le> b" "b \<le> c" "c div d = a div d"
  shows "b div d = a div d"
  using assms by (metis div_le_mono le_antisym)

lemma div64_Suc: "(x::nat) div 64 ^ Suc l = x div 64 ^ l div 64"
  by (metis div_mult2_eq mult.commute power_Suc)

lemma aligned_le: "64 ^ l dvd (n::nat) \<Longrightarrow> n div 64 ^ l \<le> x div 64 ^ l \<longleftrightarrow> n \<le> x"
proof
  assume "64 ^ l dvd n" and le: "n div 64 ^ l \<le> x div 64 ^ l"
  then have "n = 64 ^ l * (n div 64 ^ l)" by simp
  also have "\<dots> \<le> 64 ^ l * (x div 64 ^ l)" using le by simp
  also have "\<dots> \<le> x" by simp
  finally show "n \<le> x" .
qed (rule div_le_mono)

text \<open>The masked word is nonzero exactly when the block of the position holds an element at or after it.\<close>

lemma masked_word_nonzero:
  assumes ok: "db_ok s" and l: "l < length (levels s)" and n: "unat n < unat (nr_bits s)"
    and al: "64 ^ l dvd unat n" and v: "masked_word s l n = Some v"
  shows "v \<noteq> 0 \<longleftrightarrow> (\<exists>x\<in>db_set s. unat n \<le> x \<and> x div 64 ^ Suc l = unat n div 64 ^ Suc l)"
proof -
  let ?q = "unat n div 64 ^ l"
  have lev: "wset (levels s ! l) = (\<lambda>j. j div 64 ^ l) ` db_set s"
    using level_set [OF _ l] ok by (simp add: db_ok_def db_set_def)
  have bits: "bit v b \<longleftrightarrow> b < 64 \<and> ?q mod 64 \<le> b \<and> 64 * (?q div 64) + b \<in> wset (levels s ! l)" for b
    using masked_word_bits [OF ok l n] v unfolding div64_Suc by simp
  show ?thesis
  proof
    assume "v \<noteq> 0"
    then obtain b where "bit v b" using bit_ctz by blast
    then obtain x where x: "x \<in> db_set s" "x div 64 ^ l = 64 * (?q div 64) + b" and b: "b < 64" "?q mod 64 \<le> b"
      unfolding bits lev by auto
    have "?q \<le> x div 64 ^ l" unfolding x(2) using b(2) mult_div_mod_eq [of 64 ?q] by linarith
    then have "unat n \<le> x" using aligned_le [OF al] by blast
    moreover have "x div 64 ^ Suc l = unat n div 64 ^ Suc l" unfolding div64_Suc x(2) using b(1) by simp
    ultimately show "\<exists>x\<in>db_set s. unat n \<le> x \<and> x div 64 ^ Suc l = unat n div 64 ^ Suc l" using x(1) by blast
  next
    assume "\<exists>x\<in>db_set s. unat n \<le> x \<and> x div 64 ^ Suc l = unat n div 64 ^ Suc l"
    then obtain x where x: "x \<in> db_set s" "unat n \<le> x" "x div 64 ^ l div 64 = ?q div 64"
      unfolding div64_Suc by blast
    let ?j = "x div 64 ^ l"
    have "?q \<le> ?j" using x(2) by (rule div_le_mono)
    then have "?q mod 64 \<le> ?j mod 64" using x(3) mult_div_mod_eq [of 64 ?q] mult_div_mod_eq [of 64 ?j] by linarith
    moreover have "64 * (?q div 64) + ?j mod 64 = ?j" using x(3) mult_div_mod_eq [of 64 ?j] by simp
    ultimately have "bit v (?j mod 64)" unfolding bits lev using x(1) by simp
    then show "v \<noteq> 0" by auto
  qed
qed

text \<open>When the rest of the word at a level is empty, the search goes on behind the word, one level up.\<close>

lemma skip_block:
  assumes "64 ^ k dvd n'" "n \<le> n'" "n' < n + 64 ^ k"
    and none: "\<And>x. x \<in> A \<Longrightarrow> n \<le> x \<Longrightarrow> x div 64 ^ k \<noteq> n div 64 ^ k"
  shows "{x \<in> A. n \<le> x} = {x \<in> A. n' \<le> (x :: nat)}"
proof -
  have "n' \<le> x" if x: "x \<in> A" "n \<le> x" for x
  proof -
    have "n div 64 ^ k < x div 64 ^ k" using none [OF x] div_le_mono [OF x(2), of "64 ^ k"] by linarith
    then have "(n div 64 ^ k + 1) * 64 ^ k \<le> x"
      by (simp only: Suc_eq_plus1 [symmetric] Suc_le_eq less_eq_div_iff_mult_less_eq [symmetric] zero_less_power)
    moreover have e: "(n + 64 ^ k) div 64 ^ k = n div 64 ^ k + 1" by (rule div_add_self2) simp
    have "n' div 64 ^ k \<le> n div 64 ^ k + 1"
      using div_le_mono [OF less_imp_le [OF assms(3)], of "64 ^ k"] unfolding e .
    then have "n' div 64 ^ k * 64 ^ k \<le> (n div 64 ^ k + 1) * 64 ^ k" by (rule mult_le_mono1)
    ultimately show ?thesis unfolding dvd_div_mult_self [OF assms(1)] by (meson le_trans)
  qed
  then show ?thesis using assms(2) by auto
qed

lemma next_up_empty_word:
  assumes ok: "db_ok s" and l: "l < length (levels s)" and n: "unat n < unat (nr_bits s)"
    and v: "masked_word s l n = Some 0"
  obtains n' where "next_up (Suc k) s l n = next_up k s (Suc l) n'"
    "64 ^ Suc l dvd unat n'" "unat n \<le> unat n'" "unat n' < unat n + 64 ^ Suc l"
proof -
  have N: "unat (nr_bits s) \<le> 2 ^ 30" using fits_contents [of "unat (nr_bits s)" "levels s"] ok by (simp_all add: db_ok_def)
  have l5: "Suc l \<le> 5" using l ok by (simp add: db_ok_def)
  then have small: "(64::nat) ^ Suc l \<le> 64 ^ 5" by (intro power_increasing) simp_all
  have p: "(push_bit ((l + 1) * level_shift) 1 :: u64) = 2 ^ (6 * Suc l)"
    by (simp add: level_shift_def push_bit_eq_mult mult.commute)
  have room: "unat n + 2 ^ (6 * Suc l) \<le> 2 ^ LENGTH(64)" using n N small unfolding pow64 by simp
  have "6 * Suc l < LENGTH(64)" using l5 by simp
  from align_up_least [OF this room] obtain n' where n': "align_up n (2 ^ (6 * Suc l)) = Some n'"
      and al: "64 ^ Suc l dvd unat n'" "unat n \<le> unat n'" "unat n' < unat n + 64 ^ Suc l"
    unfolding pow64 by blast
  have "\<not> nr_bits s \<le> n" using n by (simp add: word_le_nat_alt)
  then have "next_up (Suc k) s l n = next_up k s (Suc l) n'" unfolding next_up.simps v p using n' by simp
  then show thesis using al by (rule that)
qed

lemma next_up_correct:
  assumes ok: "db_ok s" and "l < length (levels s)" "k = length (levels s) - l" "64 ^ l dvd unat n"
  shows "next_up k s l n = Some None \<and> {x \<in> db_set s. unat n \<le> x} = {} \<or>
    (\<exists>l' n'. next_up k s l n = Some (Some (l', n')) \<and> l' < length (levels s) \<and> 64 ^ l' dvd unat n' \<and>
       {x \<in> db_set s. unat n \<le> x} = {x \<in> db_set s. unat n' \<le> x} \<and>
       (\<exists>x\<in>db_set s. unat n' \<le> x \<and> x div 64 ^ Suc l' = unat n' div 64 ^ Suc l'))"
  using assms(2-4)
proof (induction k arbitrary: l n)
  case (Suc k)
  let ?L = "length (levels s)"
  have f: "fits (unat (nr_bits s)) (levels s)" "levels s \<noteq> []" using ok by (simp_all add: db_ok_def)
  have N: "db_set s \<subseteq> {..<unat (nr_bits s)}" using fits_contents [OF f] by (simp_all add: db_set_def)
  show ?case
  proof (cases "unat n < unat (nr_bits s)")
    case False
    then have "{x \<in> db_set s. unat n \<le> x} = {}" using N by force
    then show ?thesis using False by (simp add: word_le_nat_alt)
  next
    case True
    obtain v where v: "masked_word s l n = Some v" using masked_word_bits [OF ok Suc.prems(1) True] by blast
    note nz = masked_word_nonzero [OF ok Suc.prems(1) True Suc.prems(3) v]
    have lt: "\<not> nr_bits s \<le> n" using True by (simp add: word_le_nat_alt)
    show ?thesis
    proof (cases "v = 0")
      case False
      then have "next_up (Suc k) s l n = Some (Some (l, n))" using lt v by simp
      moreover have "\<exists>x\<in>db_set s. unat n \<le> x \<and> x div 64 ^ Suc l = unat n div 64 ^ Suc l"
        using False nz by blast
      ultimately show ?thesis using Suc.prems(1,3) by blast
    next
      case zero: True
      then have none: "\<And>x. x \<in> db_set s \<Longrightarrow> unat n \<le> x \<Longrightarrow> x div 64 ^ Suc l \<noteq> unat n div 64 ^ Suc l"
        using nz by blast
      obtain n' where step: "next_up (Suc k) s l n = next_up k s (Suc l) n'"
          and al: "64 ^ Suc l dvd unat n'" "unat n \<le> unat n'" "unat n' < unat n + 64 ^ Suc l"
        using next_up_empty_word [OF ok Suc.prems(1) True v [unfolded zero]] .
      have same: "{x \<in> db_set s. unat n \<le> x} = {x \<in> db_set s. unat n' \<le> x}" using skip_block [OF al none] .
      show ?thesis
      proof (cases "Suc l < ?L")
        case True
        have "k = ?L - Suc l" using Suc.prems(2) by arith
        from Suc.IH [OF True this al(1)] show ?thesis unfolding step same .
      next
        case False
        then have top: "Suc l = ?L" "k = 0" using Suc.prems(1,2) by simp_all
        have "x div 64 ^ Suc l = unat n div 64 ^ Suc l" if "x \<in> db_set s" for x
          using that True N fits_top [OF f(1)] unfolding top(1)
          by (metis div_less less_le_trans lessThan_iff subsetD)
        then have "{x \<in> db_set s. unat n \<le> x} = {}" using none by blast
        then show ?thesis using step top(2) by simp
      qed
    qed
  qed
qed simp

text \<open>The position of the lowest set bit of the masked word is that of the least element, and shifting it to
  its level loses nothing.\<close>

lemma ctz_least:
  assumes ok: "db_ok s" and l: "l < length (levels s)" and al: "64 ^ l dvd unat n" and n: "unat n < unat (nr_bits s)"
    and v: "masked_word s l n = Some v" "v \<noteq> 0"
    and m: "m \<in> db_set s" "unat n \<le> m" "m div 64 ^ l div 64 = unat n div 64 ^ l div 64"
    and least: "\<And>y. y \<in> db_set s \<Longrightarrow> unat n \<le> y \<Longrightarrow> m \<le> y"
  shows "64 * (unat n div 64 ^ l div 64) + ctz v = m div 64 ^ l" "ctz v = m div 64 ^ l mod 64"
proof -
  let ?q = "unat n div 64 ^ l" and ?j = "m div 64 ^ l"
  have lev: "wset (levels s ! l) = (\<lambda>j. j div 64 ^ l) ` db_set s"
    using level_set [OF _ l] ok by (simp add: db_ok_def db_set_def)
  have bits: "bit v b \<longleftrightarrow> b < 64 \<and> ?q mod 64 \<le> b \<and> 64 * (?q div 64) + b \<in> wset (levels s ! l)" for b
    using masked_word_bits [OF ok l n] v(1) unfolding div64_Suc by simp
  have dec: "64 * (?q div 64) + ?j mod 64 = ?j" using m(3) mult_div_mod_eq [of 64 ?j] by simp
  have "?q mod 64 \<le> ?j mod 64" using div_le_mono [OF m(2), of "64 ^ l"] m(3) mult_div_mod_eq [of 64 ?q] dec by linarith
  then have bj: "bit v (?j mod 64)" unfolding bits lev dec using m(1) by simp
  show ctz: "ctz v = ?j mod 64"
  proof (rule ccontr)
    assume "ctz v \<noteq> ?j mod 64"
    then have lt: "ctz v < ?j mod 64" using below_ctz [OF v(2), of "?j mod 64"] bj by linarith
    then obtain y where y: "y \<in> db_set s" "y div 64 ^ l = 64 * (?q div 64) + ctz v" and b: "?q mod 64 \<le> ctz v"
      using bit_ctz [OF v(2)] unfolding bits lev by auto
    have "?q \<le> y div 64 ^ l" unfolding y(2) using b mult_div_mod_eq [of 64 ?q] by linarith
    then have "unat n \<le> y" using aligned_le [OF al] by blast
    then have "?j \<le> y div 64 ^ l" using least y(1) by (intro div_le_mono) simp
    then show False using lt dec y(2) by linarith
  qed
  show "64 * (?q div 64) + ctz v = ?j" unfolding ctz by (rule dec)
qed

lemma unat_level_shift:
  assumes "Suc l \<le> 5" "j < 64"
  shows "unat (ucast (push_bit (l * level_shift) (of_nat j) :: u32) :: u64) = 64 ^ l * j"
proof -
  have "(2::u32) ^ (l * 6) = 64 ^ l" unfolding mult.commute [of l] power_mult by simp
  then have "(push_bit (l * level_shift) (of_nat j) :: u32) = of_nat (64 ^ l * j)"
    by (simp add: level_shift_def push_bit_eq_mult mult.commute)
  moreover have "64 ^ l * j < (2::nat) ^ LENGTH(32)"
  proof -
    have "(64::nat) ^ l \<le> 64 ^ 4" using assms(1) by (intro power_increasing) simp_all
    then have "64 ^ l * j \<le> (64::nat) ^ 4 * 63" using assms(2) by (intro mult_le_mono) simp_all
    then show ?thesis by simp
  qed
  ultimately show ?thesis unfolding ucast_up by (simp only: unsigned_of_nat take_bit_nat_eq_self of_nat_id)
qed

lemma down_step_correct:
  assumes ok: "db_ok s" and l: "l < length (levels s)" and al: "64 ^ l dvd unat n"
    and x: "x \<in> db_set s" "unat n \<le> x" "x div 64 ^ Suc l = unat n div 64 ^ Suc l"
  defines "m \<equiv> Min {x \<in> db_set s. unat n \<le> x}"
  shows "\<exists>n'. down_step s l n = Some n' \<and> unat n' = 64 ^ l * (m div 64 ^ l) \<and> m \<in> db_set s \<and> unat n \<le> unat n'"
proof -
  let ?q = "unat n div 64 ^ l" and ?T = "{x \<in> db_set s. unat n \<le> x}" and ?j = "m div 64 ^ l"
  have "fits (unat (nr_bits s)) (levels s)" "levels s \<noteq> []" using ok by (simp_all add: db_ok_def)
  then have N: "db_set s \<subseteq> {..<unat (nr_bits s)}" "unat (nr_bits s) \<le> 2 ^ 30"
    using fits_contents by (auto simp: db_set_def)
  have fin: "finite ?T" by (simp add: db_set_def)
  have m: "m \<in> db_set s" "unat n \<le> m" "m \<le> x" and least: "\<And>y. y \<in> db_set s \<Longrightarrow> unat n \<le> y \<Longrightarrow> m \<le> y"
    using Min_in [OF fin] x(1,2) Min_le [OF fin] unfolding m_def by auto
  have n: "unat n < unat (nr_bits s)" using x(1,2) N(1) by force
  obtain v where v: "masked_word s l n = Some v" using masked_word_bits [OF ok l n] by blast
  have nz: "v \<noteq> 0" using masked_word_nonzero [OF ok l n al v] x by blast
  have blk: "?j div 64 = ?q div 64" using same_block [OF m(2,3) x(3)] unfolding div64_Suc .
  note ctz = ctz_least [OF ok l al n v nz m(1,2) blk least]
  define a where "a = (n AND NOT (mask (6 * Suc l)) :: u64)"
  define c where "c = (ucast (push_bit (l * level_shift) (of_nat (ctz v)) :: u32) :: u64)"
  have p: "(push_bit (level_shift * (l + 1)) 1 :: u64) = 2 ^ (6 * Suc l)"
    by (simp add: level_shift_def push_bit_eq_mult)
  have ad: "align_down n (push_bit (level_shift * (l + 1)) 1) = Some a"
    unfolding p a_def by (rule align_down_pow2)
  have ua: "unat a = 64 ^ l * (64 * (?q div 64))"
    unfolding a_def and_not_mask_unat pow64 div64_Suc by simp
  have "Suc l \<le> 5" "ctz v < 64" using l ok ctz(2) by (simp_all add: db_ok_def)
  then have uc: "unat c = 64 ^ l * ctz v" unfolding c_def by (rule unat_level_shift)
  have sum: "unat a + unat c = 64 ^ l * ?j" unfolding ua uc by (metis ctz(1) distrib_left)
  have "64 ^ l * ?j \<le> m" by simp
  also have "m < 2 ^ 30" using m(1) N by force
  finally have "unat a + unat c < 2 ^ LENGTH(64)" unfolding sum by simp
  then have "unat (a + c) = 64 ^ l * ?j" using sum unat_add_lem [of a c] by simp
  moreover have "down_step s l n = Some (a + c)"
    using v nz by (simp add: down_step_def ad [simplified] count_trailing_zeros_def c_def)
  moreover have "unat n \<le> 64 ^ l * ?j" using div_le_mono [OF m(2), of "64 ^ l"] al by (metis dvd_mult_div_cancel mult_le_mono2)
  ultimately show ?thesis using m(1) by (intro exI [of _ "a + c"]) simp
qed

lemma next_down_correct:
  assumes ok: "db_ok s"
  shows "l < length (levels s) \<Longrightarrow> 64 ^ l dvd unat n \<Longrightarrow> x \<in> db_set s \<Longrightarrow> unat n \<le> x \<Longrightarrow>
    x div 64 ^ Suc l = unat n div 64 ^ Suc l \<Longrightarrow>
    \<exists>r. next_down s l n = Some r \<and> unat r = Min {x \<in> db_set s. unat n \<le> x}"
proof (induction l arbitrary: n x)
  case 0
  then show ?case using down_step_correct [OF ok, of 0 n x] by auto
next
  case (Suc l)
  define m where "m = Min {x \<in> db_set s. unat n \<le> x}"
  obtain n' where n': "down_step s (Suc l) n = Some n'" "unat n' = 64 ^ Suc l * (m div 64 ^ Suc l)"
      "m \<in> db_set s" "unat n \<le> unat n'"
    using down_step_correct [OF ok Suc.prems] unfolding m_def by blast
  have le: "unat n' \<le> m" unfolding n'(2) by simp
  have "64 ^ l dvd unat n'" unfolding n'(2) by simp
  moreover have "m div 64 ^ Suc l = unat n' div 64 ^ Suc l" unfolding n'(2) by simp
  ultimately obtain r where r: "next_down s l n' = Some r" "unat r = Min {x \<in> db_set s. unat n' \<le> x}"
    using Suc.IH [OF _ _ n'(3) le] Suc.prems(1) by auto
  have fin: "finite {x \<in> db_set s. unat n \<le> x}" "finite {x \<in> db_set s. unat n' \<le> x}" by (simp_all add: db_set_def)
  have "Min {x \<in> db_set s. unat n' \<le> x} = m"
    using n'(3,4) le Min_le [OF fin(1)] by (intro Min_eqI [OF fin(2)]) (auto simp: m_def)
  then show ?case using n'(1) r by (simp add: m_def)
qed

section \<open>Construction\<close>

lemma make_levels_correct:
  "0 < unat m \<Longrightarrow> unat m \<le> 2 ^ 30 \<Longrightarrow> unat m \<le> 64 ^ i \<Longrightarrow>
     \<exists>ls. make_levels i m = Some ls \<and> chain ls \<and> fits (unat m) ls \<and> length ls = i \<and>
       (ls \<noteq> [] \<longrightarrow> wset (hd ls) = {})"
proof (induction i arbitrary: m)
  case (Suc i)
  have ok: "align_ok (of_nat bits_per_int :: u64)" by (simp add: bits_per_int_def align_ok_def)
  obtain a where a: "align_up m (2 ^ 6) = Some a" "unat a = (unat m + 2 ^ 6 - 1) div 2 ^ 6 * 2 ^ 6"
    using align_up_unat [of 6 m] Suc.prems(2) by auto
  define w where "w = (ucast (a div of_nat bits_per_int) :: u32)"
  have "unat (a div of_nat bits_per_int) = (unat m + 63) div 64"
    using a(2) by (simp add: unat_div bits_per_int_def)
  then have uw: "unat w = (unat m + 63) div 64"
    using Suc.prems(2) by (simp add: w_def unsigned_ucast_eq take_bit_nat_eq_self)
  have "0 < unat (ucast w :: u64)" "unat (ucast w :: u64) \<le> 2 ^ 30" "unat (ucast w :: u64) \<le> 64 ^ i"
    unfolding ucast_up uw using Suc.prems by (linarith, linarith, simp)
  from Suc.IH [OF this] obtain ls where ls: "make_levels i (ucast w) = Some ls" "chain ls" "fits (unat w) ls"
      "length ls = i" "ls \<noteq> [] \<longrightarrow> wset (hd ls) = {}"
    unfolding ucast_up by blast
  let ?ws = "replicate (unat w) 0 :: u64 list"
  have empty: "wset ?ws = {}" by (auto simp: wset_def)
  have "make_levels (Suc i) m = Some (?ws # ls)"
    using a(1) ls(1) by (simp add: bits_per_int_def w_def Let_def)
  moreover have "chain (?ws # ls)" using ls(2,5) empty by (cases ls) auto
  moreover have "fits (unat m) (?ws # ls)"
    unfolding fits.simps length_replicate empty using Suc.prems(1,2) ls(3) uw by simp
  moreover have "length (?ws # ls) = Suc i" "wset (hd (?ws # ls)) = {}" using ls(4) empty by simp_all
  ultimately show ?case by blast
qed simp

lemma new_correct:
  assumes "0 < unat n" "unat n \<le> 2 ^ 30"
  shows "\<exists>s. DynamicBits_new n = Some s \<and> db_ok s \<and> nr_bits s = n \<and> db_set s = {}"
proof -
  obtain a where a: "align_up n (2 ^ 6) = Some a" "2 ^ 6 dvd unat a" "unat n \<le> unat a" "unat a < unat n + 2 ^ 6"
    using align_up_least [of 6 n] assms(2) by auto
  have a_pos: "a \<noteq> 0" using a(3) assms(1) by auto
  obtain k where k: "log2ceil a = Some k" "unat a \<le> 2 ^ k" "\<forall>j<k. 2 ^ j < unat a"
    using log2ceil_Some [OF a_pos] by blast
  have "2 ^ 6 \<le> unat a" using a(2,3) assms(1) by (auto dest: dvd_imp_le)
  then have "6 \<le> k" using k(2) by (metis le_trans power_le_imp_le_exp one_less_numeral_iff semiring_norm(76))
  have a30: "unat a \<le> 2 ^ 30" using a(2,4) assms(2) by (auto elim!: dvdE)
  have "k \<le> 30"
  proof (rule ccontr)
    assume "\<not> k \<le> 30"
    then have "2 ^ 30 < unat a" using k(3) [rule_format, of 30] by simp
    then show False using a30 by simp
  qed
  define L where "L = div_ceil k level_shift"
  have L: "k \<le> 6 * L" "1 \<le> L" "L \<le> 5"
    using \<open>6 \<le> k\<close> \<open>k \<le> 30\<close> by (simp_all add: L_def div_ceil_def level_shift_def)
  have "(2::nat) ^ k \<le> 2 ^ (6 * L)" using L(1) by (intro power_increasing) simp_all
  then have "unat n \<le> 64 ^ L" using a(3) k(2) unfolding pow64 by linarith
  from make_levels_correct [OF assms this] obtain ls where ls: "make_levels L n = Some ls" "chain ls"
      "fits (unat n) ls" "length ls = L" "ls \<noteq> [] \<longrightarrow> wset (hd ls) = {}"
    by blast
  have "DynamicBits_new n = Some \<lparr>levels = ls, nr_bits = n\<rparr>"
    using a(1) k(1) ls(1) by (simp add: DynamicBits_new_def bits_per_int_def L_def)
  moreover have "ls \<noteq> []" using ls(4) L(2) by auto
  ultimately show ?thesis using ls L(3) by (auto simp: db_ok_def db_set_def)
qed

section \<open>Runs against a set of numbers\<close>

datatype bits_op = BSet u64 | BClear u64 | BTest u64 | BFirst | BLast | BNext u64

datatype bits_res = RUnit | RBool bool | RPos u64

fun bits_step :: "bits_op \<Rightarrow> DynamicBits \<Rightarrow> (bits_res \<times> DynamicBits) option" where
  "bits_step (BSet n) s = map_option (Pair RUnit) (set_bit_at n s)"
| "bits_step (BClear n) s = map_option (Pair RUnit) (clear_bit_at n s)"
| "bits_step (BTest n) s = map_option (\<lambda>b. (RBool b, s)) (test_bit n s)"
| "bits_step BFirst s = map_option (\<lambda>p. (RPos p, s)) (find_first_set s)"
| "bits_step BLast s = map_option (\<lambda>p. (RPos p, s)) (find_last_set s)"
| "bits_step (BNext n) s = map_option (\<lambda>p. (RPos p, s)) (find_next_set n s)"

text \<open>The position of an extreme element, \<^verbatim>\<open>nopos\<close> when there is none.\<close>

definition pos_of :: "(nat set \<Rightarrow> nat) \<Rightarrow> nat set \<Rightarrow> u64" where
  "pos_of f A = (if A = {} then nopos else of_nat (f A))"

text \<open>The argument of \<^verbatim>\<open>find_next_set\<close> is incremented with wrap-around: from -1 it finds the first.\<close>

fun set_step :: "bits_op \<Rightarrow> nat set \<Rightarrow> bits_res \<times> nat set" where
  "set_step (BSet n) A = (RUnit, insert (unat n) A)"
| "set_step (BClear n) A = (RUnit, A - {unat n})"
| "set_step (BTest n) A = (RBool (unat n \<in> A), A)"
| "set_step BFirst A = (RPos (pos_of Min A), A)"
| "set_step BLast A = (RPos (pos_of Max A), A)"
| "set_step (BNext n) A = (RPos (pos_of Min {x \<in> A. unat (n + 1) \<le> x}), A)"

fun in_range :: "u64 \<Rightarrow> bits_op \<Rightarrow> bool" where
  "in_range N (BSet n) = (n < N)"
| "in_range N (BClear n) = (n < N)"
| "in_range N (BTest n) = (n < N)"
| "in_range N _ = True"

lemma test_bit_correct:
  assumes "db_ok s" "n < nr_bits s"
  shows "test_bit n s = Some (unat n \<in> db_set s)"
proof -
  obtain ws rest where ls: "levels s = ws # rest" using assms(1) by (cases "levels s") (auto simp: db_ok_def)
  have n: "unat n < unat (nr_bits s)" using assms(2) by (simp add: word_less_nat_alt)
  have i: "unat n div 64 < length ws" using assms(1) n by (auto simp: db_ok_def ls)
  have d: "unat (n div of_nat bits_per_int) = unat n div 64" by (simp add: bits_per_int_def unat_div)
  have "(w AND push_bit k 1 \<noteq> 0) = bit w k" if "k < 64" for w :: u64 and k
    using that by (simp add: bit_iff_and_push_bit_not_eq_0)
  then show ?thesis
    using i by (simp add: test_bit_def vec_at_def ls d bit_of_unat db_set_def wset_def)
qed

lemma find_next_correct:
  assumes ok: "db_ok s"
  shows "find_next_set n s = Some (pos_of Min {x \<in> db_set s. unat (n + 1) \<le> x})"
proof -
  have "0 < length (levels s)" using ok by (simp add: db_ok_def)
  from next_up_correct [OF ok this, of "length (levels s)" "n + 1"]
  consider "next_up (length (levels s)) s 0 (n + 1) = Some None" "{x \<in> db_set s. unat (n + 1) \<le> x} = {}"
    | l' n' x where "next_up (length (levels s)) s 0 (n + 1) = Some (Some (l', n'))" "l' < length (levels s)"
        "64 ^ l' dvd unat n'" "{x \<in> db_set s. unat (n + 1) \<le> x} = {x \<in> db_set s. unat n' \<le> x}"
        "x \<in> db_set s" "unat n' \<le> x" "x div 64 ^ Suc l' = unat n' div 64 ^ Suc l'"
    by auto
  then show ?thesis
  proof cases
    case 1
    then show ?thesis by (simp add: find_next_set_def pos_of_def)
  next
    case 2
    obtain r where r: "next_down s l' n' = Some r" "unat r = Min {x \<in> db_set s. unat n' \<le> x}"
      using next_down_correct [OF ok 2(2,3,5,6,7)] by blast
    have ne: "{x \<in> db_set s. unat n' \<le> x} \<noteq> {}" using 2(5,6) by blast
    have "pos_of Min {x \<in> db_set s. unat (n + 1) \<le> x} = of_nat (unat r)"
      unfolding pos_of_def 2(4) r(2) using ne by (rule if_not_P)
    then show ?thesis by (simp add: find_next_set_def 2(1) r(1))
  qed
qed

lemma find_ends_correct:
  assumes "db_ok s"
  shows "find_first_set s = Some (pos_of Min (db_set s))" "find_last_set s = Some (pos_of Max (db_set s))"
proof -
  have ok: "chain (levels s)" "fits (unat (nr_bits s)) (levels s)" "levels s \<noteq> []"
    using assms by (simp_all add: db_ok_def)
  show "find_first_set s = Some (pos_of Min (db_set s))"
    using first_loop_correct [OF ok, of "[]"] unfolding append_Nil2
    by (simp add: find_first_set_def db_set_def pos_of_def)
  show "find_last_set s = Some (pos_of Max (db_set s))"
    using last_loop_correct [OF ok, of "[]"] unfolding append_Nil2
    by (simp add: find_last_set_def db_set_def pos_of_def)
qed

lemma levels_length:
  "set_levels m ls = Some ls' \<Longrightarrow> length ls' = length ls"
  "clear_levels m ls = Some ls' \<Longrightarrow> length ls' = length ls"
  by (induction ls arbitrary: m ls') (auto simp: Let_def split: option.splits if_splits)

lemma set_clear_correct:
  assumes "db_ok s" "n < nr_bits s"
  shows "\<exists>s'. set_bit_at n s = Some s' \<and> db_ok s' \<and> nr_bits s' = nr_bits s \<and> db_set s' = insert (unat n) (db_set s)"
    and "\<exists>s'. clear_bit_at n s = Some s' \<and> db_ok s' \<and> nr_bits s' = nr_bits s \<and> db_set s' = db_set s - {unat n}"
proof -
  have pre: "chain (levels s)" "fits (unat (nr_bits s)) (levels s)" "unat n < unat (nr_bits s)" "levels s \<noteq> []"
    using assms by (simp_all add: db_ok_def word_less_nat_alt)
  show "\<exists>s'. set_bit_at n s = Some s' \<and> db_ok s' \<and> nr_bits s' = nr_bits s \<and> db_set s' = insert (unat n) (db_set s)"
    using set_levels_correct [OF pre] levels_length assms(1) by (fastforce simp: set_bit_at_def db_ok_def db_set_def)
  show "\<exists>s'. clear_bit_at n s = Some s' \<and> db_ok s' \<and> nr_bits s' = nr_bits s \<and> db_set s' = db_set s - {unat n}"
    using clear_levels_correct [OF pre] levels_length assms(1) by (fastforce simp: clear_bit_at_def db_ok_def db_set_def)
qed

interpretation dynamic_bits: op_refinement bits_step set_step db_set
    "\<lambda>s. db_ok s \<and> nr_bits s = N" "\<lambda>op s. in_range N op" for N
proof unfold_locales
  fix s op assume s: "db_ok s \<and> nr_bits s = N" and op: "in_range N op"
  show "\<exists>r s'. bits_step op s = Some (r, s') \<and> (db_ok s' \<and> nr_bits s' = N) \<and> set_step op (db_set s) = (r, db_set s')"
    using s op set_clear_correct [of s] test_bit_correct [of s] find_ends_correct [of s] find_next_correct [of s]
    by (cases op) fastforce+
qed

section \<open>The drivers of main.cc\<close>

definition TestDynamicBitSetFunctional :: "bool option" where
  "TestDynamicBitSetFunctional =
     do { bits \<leftarrow> DynamicBits_new 10000;
          a1 \<leftarrow> test_bit 0 bits;
          bits \<leftarrow> set_bit_at 0 bits;
          a2 \<leftarrow> test_bit 0 bits;
          bits \<leftarrow> clear_bit_at 0 bits;
          a3 \<leftarrow> test_bit 0 bits;
          a4 \<leftarrow> test_bit 9527 bits;
          bits \<leftarrow> set_bit_at 9527 bits;
          a5 \<leftarrow> test_bit 9527 bits;
          pos1 \<leftarrow> find_first_set bits;
          bits \<leftarrow> set_bit_at 231 bits;
          pos2 \<leftarrow> find_first_set bits;
          pos3 \<leftarrow> find_last_set bits;
          bits \<leftarrow> clear_bit_at 9527 bits;
          a6 \<leftarrow> test_bit 9527 bits;
          pos4 \<leftarrow> find_last_set bits;
          Some (\<not> a1 \<and> a2 \<and> \<not> a3 \<and> \<not> a4 \<and> a5 \<and> pos1 = 9527 \<and> pos2 = 231 \<and> pos3 = 9527 \<and> \<not> a6 \<and>
            pos4 = 231) }"

definition TestDynamicBitSetFindNext :: "bool option" where
  "TestDynamicBitSetFindNext =
     do { bits \<leftarrow> DynamicBits_new 10000;
          bits \<leftarrow> set_bit_at 0 bits;
          bits \<leftarrow> set_bit_at 64 bits;
          bits \<leftarrow> set_bit_at 4095 bits;
          bits \<leftarrow> set_bit_at 4096 bits;
          bits \<leftarrow> set_bit_at 9527 bits;
          bits \<leftarrow> set_bit_at 8000 bits;
          p1 \<leftarrow> find_next_set (- 1) bits;
          p2 \<leftarrow> find_next_set 0 bits;
          p3 \<leftarrow> find_next_set 64 bits;
          p4 \<leftarrow> find_next_set 4095 bits;
          p5 \<leftarrow> find_next_set 4096 bits;
          p6 \<leftarrow> find_next_set 8000 bits;
          p7 \<leftarrow> find_next_set 9527 bits;
          Some (p1 = 0 \<and> p2 = 64 \<and> p3 = 4095 \<and> p4 = 4096 \<and> p5 = 8000 \<and> p6 = 9527 \<and> p7 = nopos) }"

lemma TestDynamicBitSetFunctional_passes: "TestDynamicBitSetFunctional = Some True"
  by code_simp

lemma TestDynamicBitSetFindNext_passes: "TestDynamicBitSetFindNext = Some True"
  by code_simp

section \<open>Properties\<close>

text \<open>C20: A bitset of 1 to 2^30 bits behaves as a set of numbers: every sequence of set, clear and test
  within its size and of searches for the first, the last and the next element never leaves its
  vectors, and returns what the set gives; a search that finds nothing returns nopos.\<close>

theorem dynamic_bits_refine_set:
  assumes "0 < N" and "N \<le> 2 ^ 30" and "\<forall>op\<in>set ops. in_range N op"
  shows "\<exists>s0 rs s. DynamicBits_new N = Some s0 \<and> run bits_step ops s0 = Some (rs, s) \<and>
     spec_run set_step ops {} = (rs, db_set s)"
proof -
  have "0 < unat N" "unat N \<le> 2 ^ 30" using assms(1,2) by (simp_all add: word_less_nat_alt word_le_nat_alt)
  from new_correct [OF this] obtain s0 where s0: "DynamicBits_new N = Some s0" "db_ok s0 \<and> nr_bits s0 = N" "db_set s0 = {}"
    by blast
  then show ?thesis using dynamic_bits.run_refines [OF s0(2), of ops] assms(3) by auto
qed

theorem dynamic_bits_refine_set_witness:
  "\<exists>s0 rs s. DynamicBits_new 10000 = Some s0 \<and>
     run bits_step [BSet 9527, BSet 231, BFirst, BLast, BNext 231, BNext 9527] s0 = Some (rs, s) \<and>
     rs = [RUnit, RUnit, RPos 231, RPos 9527, RPos 9527, RPos nopos]"
proof -
  let ?ops = "[BSet 9527, BSet 231, BFirst, BLast, BNext 231, BNext 9527]"
  have "\<forall>op\<in>set ?ops. in_range 10000 op" by simp
  then obtain s0 rs s where s: "DynamicBits_new 10000 = Some s0" "run bits_step ?ops s0 = Some (rs, s)"
      "spec_run set_step ?ops {} = (rs, db_set s)"
    using dynamic_bits_refine_set [of 10000 ?ops] by auto
  have "{x. (x = 231 \<or> x = 9527) \<and> (232 :: nat) \<le> x} = {9527}" "{x. (x = 231 \<or> x = 9527) \<and> (9528 :: nat) \<le> x} = {}"
    by auto
  then have "rs = [RUnit, RUnit, RPos 231, RPos 9527, RPos 9527, RPos nopos]"
    using s(3) by (auto simp: pos_of_def)
  then show ?thesis using s(1,2) by blast
qed

text \<open>A bitset of no bits is built with levels that hold no word, and searching it reads outside a
  vector.\<close>

theorem empty_bitset_reads_out_of_bounds:
  "DynamicBits_new 0 = Some \<lparr>levels = replicate 11 [], nr_bits = 0\<rparr> \<and>
   find_first_set \<lparr>levels = replicate 11 [], nr_bits = 0\<rparr> = None \<and>
   find_last_set \<lparr>levels = replicate 11 [], nr_bits = 0\<rparr> = None"
  by (intro conjI; code_simp)

end
