(* ===== verification/Sections.thy ===== *)
theory Sections
  imports Prelude "HOL-Library.AList" "HOL-Library.Monad_Syntax"
begin

text \<open>
  \<^verbatim>\<open>common/strutils.h\<close> and \<^verbatim>\<open>example-str-utils/section.{h,cc}\<close>: trimming and upper-casing of strings, the
  typed readers of a section of an ini file, and the parser of a whole file. A \<^verbatim>\<open>std::string\<close> is a
  \<open>string\<close>; the hash maps are association lists; the contents of a file are an argument. A failed
  \<^verbatim>\<open>assert\<close> is \<open>None\<close>. The conversions \<^verbatim>\<open>stol\<close>, \<^verbatim>\<open>stoll\<close> and \<^verbatim>\<open>stoul\<close> are the ones of the standard, with
  a 64-bit \<^verbatim>\<open>long\<close>.
\<close>

section \<open>Strings\<close>

abbreviation tab :: char where "tab \<equiv> CHR 0x09"
abbreviation newline :: char where "newline \<equiv> CHR 0x0A"
abbreviation dquote :: char where "dquote \<equiv> CHR 0x22"

definition blank :: "char \<Rightarrow> bool" where
  "blank c \<longleftrightarrow> c = CHR '' '' \<or> c = tab"

definition ltrim :: "string \<Rightarrow> string" where
  "ltrim s = dropWhile blank s"

definition rtrim :: "string \<Rightarrow> string" where
  "rtrim s = rev (dropWhile blank (rev s))"

definition trim :: "string \<Rightarrow> string" where
  "trim s = ltrim (rtrim s)"

definition toupper_char :: "char \<Rightarrow> char" where
  "toupper_char c =
     (let n = of_char c :: nat in if 97 \<le> n \<and> n \<le> 122 then char_of (n - 32) else c)"

definition toupper :: "string \<Rightarrow> string" where
  "toupper s = map toupper_char s"

section \<open>Numbers in strings\<close>

datatype conv_error = invalid_argument | out_of_range

definition isspace :: "char \<Rightarrow> bool" where
  "isspace c \<longleftrightarrow> c = CHR '' '' \<or> 9 \<le> (of_char c :: nat) \<and> (of_char c :: nat) \<le> 13"

definition isdigit :: "char \<Rightarrow> bool" where
  "isdigit c \<longleftrightarrow> 48 \<le> (of_char c :: nat) \<and> (of_char c :: nat) \<le> 57"

definition dec_value :: "string \<Rightarrow> int" where
  "dec_value ds = foldl (\<lambda>v c. 10 * v + (of_char c - 48)) 0 ds"

text \<open>The subject sequence of \<^verbatim>\<open>strtol\<close>, base 10: white space, a sign, digits; what follows is ignored.
  The result is the sign and the magnitude.\<close>

definition split_sign :: "string \<Rightarrow> bool \<times> string" where
  "split_sign s =
     (case s of
        [] \<Rightarrow> (False, [])
      | c # rest \<Rightarrow>
          if c = CHR ''-'' then (True, rest) else if c = CHR ''+'' then (False, rest) else (False, s))"

definition scan_number :: "string \<Rightarrow> (bool \<times> int) option" where
  "scan_number s =
     (case split_sign (dropWhile isspace s) of
        (neg, text) \<Rightarrow>
          (case takeWhile isdigit text of
             [] \<Rightarrow> None
           | d # ds \<Rightarrow> Some (neg, dec_value (d # ds))))"

definition stol :: "string \<Rightarrow> conv_error + u64" where
  "stol s =
     (case scan_number s of
        None \<Rightarrow> Inl invalid_argument
      | Some (neg, m) \<Rightarrow>
          (let z = (if neg then - m else m)
           in if z < - (2 ^ 63) \<or> z > 2 ^ 63 - 1 then Inl out_of_range else Inr (of_int z)))"

definition stoul :: "string \<Rightarrow> conv_error + u64" where
  "stoul s =
     (case scan_number s of
        None \<Rightarrow> Inl invalid_argument
      | Some (neg, m) \<Rightarrow>
          if m \<ge> 2 ^ 64 then Inl out_of_range
          else Inr (of_int (if neg then - m else m)))"

section \<open>A section\<close>

record Section =
  sec_name :: string
  sec_data :: "(string \<times> string) list"

definition Section_new :: Section where
  "Section_new = \<lparr>sec_name = [], sec_data = []\<rparr>"

definition Section_named :: "string \<Rightarrow> Section" where
  "Section_named name = \<lparr>sec_name = name, sec_data = []\<rparr>"

definition Section_Empty :: "Section \<Rightarrow> bool" where
  "Section_Empty s \<longleftrightarrow> sec_name s = []"

definition Section_Clear :: "Section \<Rightarrow> Section" where
  "Section_Clear s = s\<lparr>sec_name := [], sec_data := []\<rparr>"

definition Name :: "Section \<Rightarrow> string" where
  "Name s = sec_name s"

definition SetName :: "string \<Rightarrow> Section \<Rightarrow> Section" where
  "SetName name s = s\<lparr>sec_name := name\<rparr>"

definition Section_Set :: "string \<Rightarrow> string \<Rightarrow> Section \<Rightarrow> Section option" where
  "Section_Set key value s =
     (if Section_Empty s then None else Some (s\<lparr>sec_data := AList.update key value (sec_data s)\<rparr>))"

definition Get_int32 :: "string \<Rightarrow> u32 \<Rightarrow> Section \<Rightarrow> u32" where
  "Get_int32 key dflt s =
     (case map_of (sec_data s) key of
        None \<Rightarrow> dflt
      | Some text \<Rightarrow>
          (case stol text of
             Inl _ \<Rightarrow> dflt
           | Inr val \<Rightarrow>
               if sint val < - (2 ^ 31) \<or> sint val > 2 ^ 31 - 1 then dflt else ucast val))"

definition Get_int64 :: "string \<Rightarrow> u64 \<Rightarrow> Section \<Rightarrow> u64" where
  "Get_int64 key dflt s =
     (case map_of (sec_data s) key of
        None \<Rightarrow> dflt
      | Some text \<Rightarrow>
          (case stol text of
             Inl _ \<Rightarrow> dflt
           | Inr val \<Rightarrow>
               if sint val < - (2 ^ 63) \<or> sint val > 2 ^ 63 - 1 then dflt else val))"

text \<open>\<^verbatim>\<open>long val = std::stoul(...)\<close> is compared, as a signed number, with the limits of \<^verbatim>\<open>uint32_t\<close>.\<close>

definition Get_uint32 :: "string \<Rightarrow> u32 \<Rightarrow> Section \<Rightarrow> u32" where
  "Get_uint32 key dflt s =
     (case map_of (sec_data s) key of
        None \<Rightarrow> dflt
      | Some text \<Rightarrow>
          (case stoul text of
             Inl _ \<Rightarrow> dflt
           | Inr val \<Rightarrow> if sint val < 0 \<or> sint val > 2 ^ 32 - 1 then dflt else ucast val))"

text \<open>Here the limits are \<^verbatim>\<open>uint64_t\<close>, so both comparisons are made on unsigned numbers.\<close>

definition Get_uint64 :: "string \<Rightarrow> u64 \<Rightarrow> Section \<Rightarrow> u64" where
  "Get_uint64 key dflt s =
     (case map_of (sec_data s) key of
        None \<Rightarrow> dflt
      | Some text \<Rightarrow>
          (case stoul text of
             Inl _ \<Rightarrow> dflt
           | Inr val \<Rightarrow> if val < 0 \<or> val > - 1 then dflt else val))"

definition Get_bool :: "string \<Rightarrow> bool \<Rightarrow> Section \<Rightarrow> bool" where
  "Get_bool key dflt s =
     (case map_of (sec_data s) key of
        None \<Rightarrow> dflt
      | Some text \<Rightarrow>
          (let val = toupper text
           in if val = ''TRUE'' then True else if val = ''FALSE'' then False else dflt))"

definition Get_string :: "string \<Rightarrow> string \<Rightarrow> Section \<Rightarrow> string" where
  "Get_string key dflt s = (case map_of (sec_data s) key of None \<Rightarrow> dflt | Some text \<Rightarrow> text)"

section \<open>The parser\<close>

type_synonym Sections = "(string \<times> Section) list"

text \<open>\<^verbatim>\<open>std::unordered_map::emplace\<close> keeps an entry that is there.\<close>

definition sections_emplace :: "string \<Rightarrow> Section \<Rightarrow> Sections \<Rightarrow> Sections" where
  "sections_emplace name s m = (if map_of m name = None then m @ [(name, s)] else m)"

text \<open>\<^verbatim>\<open>std::getline\<close> until it fails: an empty rest is the end of the file.\<close>

fun getlines :: "string \<Rightarrow> string list" where
  "getlines [] = []"
| "getlines (c # cs) =
     (if c = newline then [] # getlines cs
      else (case getlines cs of [] \<Rightarrow> [[c]] | line # rest \<Rightarrow> (c # line) # rest))"

definition find_equal :: "string \<Rightarrow> nat option" where
  "find_equal line =
     (let i = length (takeWhile (\<lambda>c. c \<noteq> CHR ''='') line) in if i < length line then Some i else None)"

text \<open>The three kinds of lines: a header, an entry, and the dispatch on the trimmed line.\<close>

definition start_section :: "string \<Rightarrow> Section \<Rightarrow> Sections \<Rightarrow> Section \<times> Sections" where
  "start_section name cur sections =
     (if \<not> Section_Empty cur
      then (SetName name (Section_Clear cur), sections_emplace (Name cur) cur sections)
      else (SetName name cur, sections))"

definition add_entry :: "string \<Rightarrow> string \<Rightarrow> Section \<Rightarrow> Sections \<Rightarrow> (Section \<times> Sections) option" where
  "add_entry key value cur sections =
     (if key = [] \<or> value = [] then Some (cur, sections)
      else map_option (\<lambda>c. (c, sections)) (Section_Set key value cur))"

definition parse_trimmed :: "string \<Rightarrow> Section \<Rightarrow> Sections \<Rightarrow> (Section \<times> Sections) option" where
  "parse_trimmed line cur sections =
     (if line = [] then Some (cur, sections)
      else if hd line = CHR ''#'' \<or> hd line = dquote then Some (cur, sections)
      else if hd line = CHR ''['' \<and> last line = CHR '']'' then
        Some (start_section (take (length line - 2) (drop 1 line)) cur sections)
      else
        (case find_equal line of
           None \<Rightarrow> Some (cur, sections)
         | Some equal_pos \<Rightarrow>
             add_entry (trim (take equal_pos line)) (trim (drop (equal_pos + 1) line)) cur sections))"

fun parse_line :: "string \<Rightarrow> Section \<times> Sections \<Rightarrow> (Section \<times> Sections) option" where
  "parse_line line (cur, sections) = parse_trimmed (trim line) cur sections"

fun parse_lines :: "string list \<Rightarrow> Section \<times> Sections \<Rightarrow> (Section \<times> Sections) option" where
  "parse_lines [] st = Some st"
| "parse_lines (line # rest) st = Option.bind (parse_line line st) (parse_lines rest)"

text \<open>The file is its contents, \<open>None\<close> when it cannot be opened.\<close>

definition ParseSectionFile :: "string option \<Rightarrow> Sections \<Rightarrow> (bool \<times> Sections) option" where
  "ParseSectionFile file sections =
     (case file of
        None \<Rightarrow> Some (False, sections)
      | Some content \<Rightarrow>
          map_option
            (\<lambda>(cur, sections).
               (True, if \<not> Section_Empty cur then sections_emplace (Name cur) cur sections else sections))
            (parse_lines (getlines content) (Section_new, sections)))"

section \<open>The drivers of main.cc\<close>

definition TestTrimString :: bool where
  "TestTrimString \<longleftrightarrow>
     ''hello'' = trim ''hello'' \<and>
     ''hello'' = trim '' hello'' \<and>
     ''hello'' = trim ''hello '' \<and>
     ''hello'' = trim '' hello '' \<and>
     ''hello'' = trim ''         hello '' \<and>
     ''hello'' = trim ''         hello             '' \<and>
     ''hello'' = trim ([tab] @ ''hello             '') \<and>
     ''hello'' = trim ([tab] @ ''hello          '' @ [tab] @ ''   '') \<and>
     ''hello'' = trim ([tab] @ '' '' @ [tab] @ ''hello       '' @ [tab] @ ''   '' @ [tab] @ ''   '') \<and>
     ''hello'' = trim ([tab] @ '' '' @ [tab] @ ''hello'' @ [tab, tab])"

definition TestIniParser :: "unit option" where
  "TestIniParser =
     do { s \<leftarrow> Section_Set ''t0'' ''124'' (Section_named ''hello'');
          s \<leftarrow> Section_Set ''t1'' ''-124'' s;
          s \<leftarrow> Section_Set ''t2'' ''124'' s;
          assert_that (Get_int32 ''t0'' 0 s = 124);
          assert_that (Get_int64 ''t1'' 0 s = - 124);
          assert_that (Get_uint32 ''t2'' 0 s = 124);
          assert_that (Get_uint64 ''t2'' 0 s = 124);
          s \<leftarrow> Section_Set ''t3'' ''true'' s;
          s \<leftarrow> Section_Set ''t4'' ''TrUE'' s;
          s \<leftarrow> Section_Set ''t5'' ''False'' s;
          s \<leftarrow> Section_Set ''t6'' ''FALSE'' s;
          s \<leftarrow> Section_Set ''t7'' ''false'' s;
          s \<leftarrow> Section_Set ''t8'' ''false1'' s;
          assert_that (Get_bool ''t3'' False s);
          assert_that (Get_bool ''t4'' False s);
          assert_that (\<not> Get_bool ''t5'' True s);
          assert_that (\<not> Get_bool ''t6'' True s);
          assert_that (\<not> Get_bool ''t7'' True s);
          assert_that (Get_bool ''t8'' True s);
          assert_that (Get_bool ''t9'' True s);
          assert_that (\<not> Get_bool ''t9'' False s) }"

definition PrepareIniFile :: string where
  "PrepareIniFile =
     ''    '' @ [dquote] @ '' this is a comment'' @ [newline] @
     ''[section0]'' @ [newline] @
     ''  key0 = value'' @ [newline] @
     ''   # this is a comment'' @ [newline, newline, newline] @
     ''key1      = 124'' @ [newline, newline] @
     ''[section1]'' @ [newline] @
     ''         key0 = True'' @ [newline, newline, newline] @
     [dquote] @ [newline] @
     ''# this is comment'' @ [newline] @
     ''key1='' @ [newline] @
     ''key2=hello world''"

text \<open>\<^verbatim>\<open>sections[name]\<close> gives a default section for a name that is not there.\<close>

definition section_at :: "string \<Rightarrow> Sections \<Rightarrow> Section" where
  "section_at name m = (case map_of m name of None \<Rightarrow> Section_new | Some s \<Rightarrow> s)"

definition TestParseIniFile :: "unit option" where
  "TestParseIniFile =
     do { (okay, sections) \<leftarrow> ParseSectionFile (Some PrepareIniFile) [];
          assert_that okay;
          assert_that (length sections = 2);
          s0 \<leftarrow> Some (section_at ''section0'' sections);
          assert_that (Name s0 = ''section0'');
          assert_that (Get_string ''key0'' [] s0 = ''value'');
          assert_that (Get_int32 ''key1'' 0 s0 = 124);
          assert_that (Get_int32 ''key2'' 0 s0 = 0);
          s1 \<leftarrow> Some (section_at ''section1'' sections);
          assert_that (Name s1 = ''section1'');
          assert_that (Get_bool ''key0'' False s1);
          assert_that (Get_int32 ''key1'' 0 s1 = 0);
          assert_that (Get_string ''key2'' [] s1 = ''hello world'');
          s2 \<leftarrow> Some (section_at ''section2'' sections);
          assert_that (Section_Empty s2) }"

lemma TestTrimString_passes: TestTrimString
  by code_simp

lemma TestIniParser_passes: "TestIniParser = Some ()"
  by code_simp

lemma ParseSectionFile_PrepareIniFile:
  "ParseSectionFile (Some PrepareIniFile) [] =
     Some (True, [(''section0'', \<lparr>sec_name = ''section0'', sec_data = [(''key0'', ''value''), (''key1'', ''124'')]\<rparr>),
       (''section1'', \<lparr>sec_name = ''section1'', sec_data = [(''key0'', ''True''), (''key2'', ''hello world'')]\<rparr>)])"
  by code_simp

lemma TestParseIniFile_passes: "TestParseIniFile = Some ()"
  unfolding TestParseIniFile_def ParseSectionFile_PrepareIniFile by code_simp


section \<open>Trimming\<close>

lemma trim_id: "s \<noteq> [] \<Longrightarrow> \<not> blank (hd s) \<Longrightarrow> \<not> blank (last s) \<Longrightarrow> trim s = s"
proof -
  assume s: "s \<noteq> []" "\<not> blank (hd s)" "\<not> blank (last s)"
  have "dropWhile blank (rev s) = rev s" using s(1,3) by (cases s rule: rev_cases) auto
  moreover have "dropWhile blank s = s" using s(1,2) by (cases s) auto
  ultimately show "trim s = s" by (simp add: trim_def rtrim_def ltrim_def)
qed

lemma dropWhile_split: "\<exists>pre. xs = pre @ dropWhile P xs \<and> (\<forall>x\<in>set pre. P x)"
  by (intro exI [of _ "takeWhile P xs"]) (auto dest: set_takeWhileD)

lemma trim_strips: "\<exists>pre post. s = pre @ trim s @ post \<and> (\<forall>c\<in>set (pre @ post). blank c)"
proof -
  obtain pre where pre: "rtrim s = pre @ trim s" "\<forall>c\<in>set pre. blank c"
    using dropWhile_split [of "rtrim s" blank] unfolding trim_def ltrim_def by blast
  obtain post where post: "rev s = post @ dropWhile blank (rev s)" "\<forall>c\<in>set post. blank c"
    using dropWhile_split [of "rev s" blank] by blast
  have "rev (rev s) = rev (post @ dropWhile blank (rev s))" using post(1) by (rule arg_cong)
  then have "s = rtrim s @ rev post" unfolding rtrim_def rev_append rev_rev_ident .
  then have "s = pre @ trim s @ rev post" unfolding pre(1) append_assoc .
  moreover have "\<forall>c\<in>set (pre @ rev post). blank c" using pre(2) post(2) by (simp add: ball_Un)
  ultimately show ?thesis by blast
qed

section \<open>Decimal numbers\<close>

lemma of_char_digit: "n < 10 \<Longrightarrow> (of_char (char_of (48 + n) :: char) :: nat) = 48 + n"
  by (simp add: of_char_of)

lemma of_char_digit_int: "n < 10 \<Longrightarrow> (of_char (char_of (48 + n :: nat) :: char) :: int) = 48 + int n"
proof -
  assume "n < 10"
  have "(of_char (char_of (48 + n) :: char) :: int) = int (of_char (char_of (48 + n) :: char))"
    by (rule of_nat_of_char [symmetric])
  also have "\<dots> = 48 + int n" unfolding of_char_digit [OF \<open>n < 10\<close>] by simp
  finally show "(of_char (char_of (48 + n :: nat) :: char) :: int) = 48 + int n" .
qed

lemma show_nat_digits: "show_nat n \<noteq> [] \<and> (\<forall>c\<in>set (show_nat n). isdigit c) \<and> dec_value (show_nat n) = int n"
proof (induction n rule: show_nat.induct)
  case (1 n)
  show ?case
  proof (cases "n < 10")
    case True
    then show ?thesis
      by (subst show_nat.simps) (simp add: show_nat.simps isdigit_def dec_value_def of_char_digit of_char_digit_int)
  next
    case False
    have d: "n mod 10 < 10" by simp
    have "10 * int (n div 10) + int (n mod 10) = int n" by (metis mult_div_mod_eq of_nat_add of_nat_mult of_nat_numeral)
    then show ?thesis
      using 1 [OF False] False of_char_digit [OF d] of_char_digit_int [OF d]
      by (subst (1 2 3) show_nat.simps) (auto simp: isdigit_def dec_value_def)
  qed
qed

lemma digit_plain: "isdigit c \<Longrightarrow> \<not> isspace c \<and> c \<noteq> CHR ''-'' \<and> c \<noteq> CHR ''+''"
  by (auto simp: isdigit_def isspace_def)

lemma scan_show_int: "scan_number (show_int z) = Some (z < 0, \<bar>z\<bar>)"
proof -
  have scan: "scan_number (show_nat n) = Some (False, int n)" "scan_number (CHR ''-'' # show_nat n) = Some (True, int n)" for n
  proof -
    have ds: "show_nat n \<noteq> []" "takeWhile isdigit (show_nat n) = show_nat n" "dec_value (show_nat n) = int n"
      using show_nat_digits [of n] by (auto simp: takeWhile_eq_all_conv)
    then obtain d rest where c: "show_nat n = d # rest" by (cases "show_nat n") auto
    have d: "isdigit d" using show_nat_digits [of n] c by simp
    show "scan_number (show_nat n) = Some (False, int n)"
      using ds(2,3) digit_plain [OF d] by (simp add: scan_number_def split_sign_def c)
    show "scan_number (CHR ''-'' # show_nat n) = Some (True, int n)"
      using ds(2,3) by (simp add: scan_number_def split_sign_def isspace_def c)
  qed
  show ?thesis using scan(1) [of "nat z"] scan(2) [of "nat (- z)"] by (auto simp: show_int_def)
qed

lemma stol_show_int:
  "stol (show_int z) = (if - (2 ^ 63) \<le> z \<and> z < 2 ^ 63 then Inr (of_int z) else Inl out_of_range)"
  unfolding stol_def scan_show_int by (auto simp: Let_def)

lemma stoul_show_int: "stoul (show_int z) = (if \<bar>z\<bar> < 2 ^ 64 then Inr (of_int z) else Inl out_of_range)"
  unfolding stoul_def scan_show_int by auto

lemma ucast_of_int: "(ucast (of_int z :: u64) :: u32) = of_int z"
  by transfer simp

lemma sint_of_int: "- (2 ^ 63) \<le> z \<Longrightarrow> z < 2 ^ 63 \<Longrightarrow> sint (of_int z :: u64) = z"
  by (simp add: signed_of_int signed_take_bit_int_eq_self)

lemma sint_u64_small: "sint (w :: u64) < 0 \<or> sint w > 2 ^ 32 - 1 \<longleftrightarrow> \<not> uint w < 2 ^ 32"
proof -
  have u: "0 \<le> uint w" "uint w < 2 ^ 64" using unsigned_less [of w] by simp_all
  have e: "(of_int (uint w) :: u64) = w" "(of_int (uint w - 2 ^ 64) :: u64) = w" by simp_all
  show ?thesis
  proof (cases "uint w < 2 ^ 63")
    case True
    then have "sint w = uint w" using sint_of_int [of "uint w"] u unfolding e by linarith
    then show ?thesis using u by auto
  next
    case False
    then have "sint w = uint w - 2 ^ 64" using sint_of_int [of "uint w - 2 ^ 64"] u unfolding e by (simp del: sint_uint)
    then show ?thesis using u False by auto
  qed
qed

lemma set_lookup: "Section_Set key value s = Some s' \<Longrightarrow> map_of (sec_data s') key = Some value"
  by (auto simp: Section_Set_def update_conv' split: if_splits)


section \<open>What a file means\<close>

text \<open>A line is skipped, a header or an entry; a file is a list of named blocks of entries, the first of
  which has the empty name. Blocks are turned into sections in order: the first block of a name wins,
  within a block the last value of a key.\<close>

datatype line_kind = Skip | Header string | Entry string string

definition kind_of :: "string \<Rightarrow> line_kind" where
  "kind_of raw =
     (let line = trim raw;
          key = trim (takeWhile (\<lambda>c. c \<noteq> CHR ''='') line);
          value = trim (drop 1 (dropWhile (\<lambda>c. c \<noteq> CHR ''='') line))
      in if line = [] \<or> hd line = CHR ''#'' \<or> hd line = dquote then Skip
         else if hd line = CHR ''['' \<and> last line = CHR '']'' then Header (butlast (tl line))
         else if CHR ''='' \<in> set line \<and> key \<noteq> [] \<and> value \<noteq> [] then Entry key value
         else Skip)"

type_synonym block = "string \<times> (string \<times> string) list"

fun blocks_from :: "string \<Rightarrow> (string \<times> string) list \<Rightarrow> line_kind list \<Rightarrow> block list" where
  "blocks_from name es [] = [(name, es)]"
| "blocks_from name es (Skip # ls) = blocks_from name es ls"
| "blocks_from name es (Header n # ls) = (name, es) # blocks_from n [] ls"
| "blocks_from name es (Entry k v # ls) = blocks_from name (es @ [(k, v)]) ls"

definition blocks :: "string \<Rightarrow> block list" where
  "blocks content = blocks_from [] [] (map kind_of (getlines content))"

definition section_of :: "block \<Rightarrow> Section" where
  "section_of b = \<lparr>sec_name = fst b, sec_data = fold (\<lambda>(k, v). AList.update k v) (snd b) []\<rparr>"

definition stray :: "block \<Rightarrow> bool" where
  "stray b \<longleftrightarrow> fst b = [] \<and> snd b \<noteq> []"

definition add_block :: "block \<Rightarrow> Sections \<Rightarrow> Sections" where
  "add_block b m = (if fst b = [] then m else sections_emplace (fst b) (section_of b) m)"

lemma section_of_data: "map_of (sec_data (section_of b)) = map_of (rev (snd b))"
proof -
  have "map_of (fold (\<lambda>(k, v). AList.update k v) es m) = map_of m ++ map_of (rev es)"
    for es and m :: "(string \<times> string) list"
    by (induction es arbitrary: m) (auto simp: update_conv' map_add_def fun_eq_iff split: option.splits)
  then show ?thesis by (simp add: section_of_def)
qed

lemma find_equal_parts:
  "find_equal line =
     (if CHR ''='' \<in> set line then Some (length (takeWhile (\<lambda>c. c \<noteq> CHR ''='') line)) else None)"
proof -
  have "length (takeWhile (\<lambda>c. c \<noteq> CHR ''='') line) < length line \<longleftrightarrow> CHR ''='' \<in> set line"
    by (induction line) auto
  then show ?thesis by (simp add: find_equal_def Let_def)
qed

lemma drop_after_takeWhile: "drop (Suc (length (takeWhile P xs))) xs = drop 1 (dropWhile P xs)"
  using dropWhile_eq_drop [of P xs] by (simp add: drop_Suc tl_drop)

lemma take_takeWhile: "take (length (takeWhile P xs)) xs = takeWhile P xs"
  by (metis takeWhile_eq_take)

lemma header_name: "2 \<le> length line \<Longrightarrow> take (length line - 2) (drop 1 line) = butlast (tl line)"
  by (simp add: butlast_conv_take drop_Suc numeral_2_eq_2)

lemma parse_line_kind:
  "parse_line raw (cur, m) =
     (case kind_of raw of
        Skip \<Rightarrow> Some (cur, m)
      | Header n \<Rightarrow> Some (start_section n cur m)
      | Entry k v \<Rightarrow> map_option (\<lambda>c. (c, m)) (Section_Set k v cur))"
proof -
  let ?line = "trim raw"
  have "2 \<le> length ?line" if "?line \<noteq> []" "hd ?line = CHR ''['' \<and> last ?line = CHR '']''"
    using that by (cases ?line; cases "tl ?line") auto
  then have name: "take (length ?line - 2) (drop 1 ?line) = butlast (tl ?line)"
    if "?line \<noteq> []" "hd ?line = CHR ''['' \<and> last ?line = CHR '']''"
    using that header_name by blast
  show ?thesis
  proof (cases "?line = []")
    case True
    then show ?thesis by (simp add: parse_trimmed_def kind_of_def)
  next
    case False
    then show ?thesis using name
      by (cases "hd ?line = CHR ''[''"; cases "last ?line = CHR '']''")
        (simp_all add: parse_trimmed_def kind_of_def Let_def find_equal_parts add_entry_def
          take_takeWhile drop_after_takeWhile)
  qed
qed

lemma start_section_block:
  assumes "\<not> stray b"
  shows "start_section n (section_of b) m = (section_of (n, []), add_block b m)"
  using assms
  by (auto simp: start_section_def Section_Empty_def SetName_def Section_Clear_def Name_def section_of_def
      add_block_def stray_def)

lemma Section_Set_block:
  "Section_Set k v (section_of (n, es)) = (if n = [] then None else Some (section_of (n, es @ [(k, v)])))"
  by (simp add: Section_Set_def Section_Empty_def section_of_def)

lemma stray_kept: "stray (n, es) \<Longrightarrow> \<exists>b\<in>set (blocks_from n es ls). stray b"
  by (induction n es ls rule: blocks_from.induct) (auto simp: stray_def)

lemma parse_lines_blocks:
  assumes "\<not> stray (n, es)"
  shows "map_option (\<lambda>(cur, m). if \<not> Section_Empty cur then sections_emplace (Name cur) cur m else m)
           (parse_lines ls (section_of (n, es), m)) =
         (if \<exists>b\<in>set (blocks_from n es (map kind_of ls)). stray b then None
          else Some (fold add_block (blocks_from n es (map kind_of ls)) m))"
  using assms
proof (induction ls arbitrary: n es m)
  case Nil
  then show ?case by (simp add: Section_Empty_def Name_def section_of_def add_block_def)
next
  case (Cons l ls)
  show ?case
  proof (cases "kind_of l")
    case Skip
    then show ?thesis using Cons.IH [OF Cons.prems] by (simp add: parse_line_kind del: parse_line.simps)
  next
    case (Header h)
    have "\<not> stray (h, [])" by (simp add: stray_def)
    then show ?thesis using Cons.IH [of h "[]" "add_block (n, es) m"] Header Cons.prems
      by (simp add: parse_line_kind start_section_block del: parse_line.simps)
  next
    case (Entry k v)
    show ?thesis
    proof (cases "n = []")
      case True
      then have "stray (n, es @ [(k, v)])" by (simp add: stray_def)
      from stray_kept [OF this] show ?thesis using Entry True
        by (simp add: parse_line_kind Section_Set_block del: parse_line.simps)
    next
      case False
      then have "\<not> stray (n, es @ [(k, v)])" by (simp add: stray_def)
      then show ?thesis using Cons.IH [of n "es @ [(k, v)]" m] Entry False
        by (simp add: parse_line_kind Section_Set_block del: parse_line.simps)
    qed
  qed
qed

lemma parse_file_blocks:
  "ParseSectionFile (Some content) sections =
     (if \<exists>b\<in>set (blocks content). stray b then None
      else Some (True, fold add_block (blocks content) sections))"
proof -
  have new: "Section_new = section_of ([], [])" by (simp add: Section_new_def section_of_def)
  have ns: "\<not> stray ([], [])" by (simp add: stray_def)
  have "ParseSectionFile (Some content) sections = map_option (Pair True)
      (map_option (\<lambda>(cur, m). if \<not> Section_Empty cur then sections_emplace (Name cur) cur m else m)
         (parse_lines (getlines content) (section_of ([], []), sections)))"
    by (simp add: ParseSectionFile_def new option.map_comp o_def case_prod_unfold)
  then show ?thesis unfolding parse_lines_blocks [OF ns] blocks_def by simp
qed

lemma fold_add_block:
  "map_of (fold add_block bs m) n =
     (case map_of m n of
        Some s \<Rightarrow> Some s
      | None \<Rightarrow> if n = [] then None else map_option (\<lambda>es. section_of (n, es)) (map_of bs n))"
proof (induction bs arbitrary: m)
  case (Cons b bs)
  obtain k es where b: "b = (k, es)" by (cases b)
  have "map_of (add_block b m) n =
      (case map_of m n of Some s \<Rightarrow> Some s | None \<Rightarrow> if n = [] \<or> n \<noteq> k then None else Some (section_of (n, es)))"
    by (auto simp: add_block_def sections_emplace_def b map_add_def split: option.splits)
  then show ?case using Cons.IH [of "add_block b m"] by (auto simp: b split: option.splits)
qed (simp split: option.splits)


section \<open>Writing a file\<close>

definition key_ok :: "string \<Rightarrow> bool" where
  "key_ok k \<longleftrightarrow> k \<noteq> [] \<and> \<not> blank (hd k) \<and> \<not> blank (last k) \<and> CHR ''='' \<notin> set k \<and> newline \<notin> set k \<and>
     hd k \<noteq> CHR ''#'' \<and> hd k \<noteq> dquote \<and> hd k \<noteq> CHR ''[''"

definition value_ok :: "string \<Rightarrow> bool" where
  "value_ok v \<longleftrightarrow> v \<noteq> [] \<and> \<not> blank (hd v) \<and> \<not> blank (last v) \<and> newline \<notin> set v"

definition block_ok :: "block \<Rightarrow> bool" where
  "block_ok b \<longleftrightarrow> fst b \<noteq> [] \<and> newline \<notin> set (fst b) \<and> (\<forall>(k, v)\<in>set (snd b). key_ok k \<and> value_ok v)"

definition block_lines :: "block \<Rightarrow> string list" where
  "block_lines b = (CHR ''['' # fst b @ '']'') # map (\<lambda>(k, v). k @ ''='' @ v) (snd b)"

definition write_ini :: "block list \<Rightarrow> string" where
  "write_ini bs = concat (map (\<lambda>l. l @ [newline]) (concat (map block_lines bs)))"

lemma getlines_append: "newline \<notin> set l \<Longrightarrow> getlines (l @ newline # rest) = l # getlines rest"
  by (induction l) auto

lemma getlines_lines: "\<forall>l\<in>set ls. newline \<notin> set l \<Longrightarrow> getlines (concat (map (\<lambda>l. l @ [newline]) ls)) = ls"
  by (induction ls) (simp_all add: getlines_append)

lemma kind_header: "kind_of (CHR ''['' # n @ '']'') = Header n"
proof -
  have "trim (CHR ''['' # n @ '']'') = CHR ''['' # n @ '']''" by (rule trim_id) (simp_all add: blank_def)
  then show ?thesis by (simp add: kind_of_def Let_def butlast_append)
qed

lemma kind_entry:
  assumes "key_ok k" "value_ok v"
  shows "kind_of (k @ ''='' @ v) = Entry k v"
proof -
  have k: "k \<noteq> []" "trim k = k" "CHR ''='' \<notin> set k" using assms(1) trim_id [of k] by (auto simp: key_ok_def)
  have v: "v \<noteq> []" "trim v = v" using assms(2) trim_id [of v] by (auto simp: value_ok_def)
  have "trim (k @ ''='' @ v) = k @ ''='' @ v"
    using assms by (intro trim_id) (auto simp: key_ok_def value_ok_def)
  moreover have "takeWhile (\<lambda>c. c \<noteq> CHR ''='') (k @ ''='' @ v) = k"
      "dropWhile (\<lambda>c. c \<noteq> CHR ''='') (k @ ''='' @ v) = ''='' @ v"
    using k(3) by (auto simp: takeWhile_append dropWhile_append)
  ultimately show ?thesis using k v assms(1) by (simp add: kind_of_def Let_def key_ok_def)
qed

lemma blocks_from_entries:
  "blocks_from n es (map (\<lambda>(k, v). Entry k v) kvs @ ls) = blocks_from n (es @ kvs) ls"
  by (induction kvs arbitrary: es) auto

lemma blocks_write_ini:
  assumes "\<forall>b\<in>set bs. block_ok b"
  shows "blocks (write_ini bs) = ([], []) # bs"
proof -
  have "newline \<notin> set l" if "l \<in> set (concat (map block_lines bs))" for l
  proof -
    have "\<exists>b\<in>set bs. l \<in> set (block_lines b)" using that by simp
    then obtain b where b: "b \<in> set bs" "l \<in> set (block_lines b)" by blast
    then have "block_ok b" using assms by blast
    then show ?thesis using b(2) by (auto simp: block_lines_def block_ok_def key_ok_def value_ok_def)
  qed
  then have lines: "getlines (write_ini bs) = concat (map block_lines bs)"
    unfolding write_ini_def by (intro getlines_lines) blast
  have kinds: "map kind_of (block_lines b) = Header (fst b) # map (\<lambda>(k, v). Entry k v) (snd b)"
    if "block_ok b" for b
  proof -
    have "kind_of (k @ ''='' @ v) = Entry k v" if "(k, v) \<in> set (snd b)" for k v
      using \<open>block_ok b\<close> that by (intro kind_entry) (auto simp: block_ok_def)
    then show ?thesis unfolding block_lines_def using kind_header [of "fst b"] by auto
  qed
  have "blocks_from n es (map kind_of (concat (map block_lines bs))) = (n, es) # bs" for n es
    using assms
  proof (induction bs arbitrary: n es)
    case (Cons b bs)
    then have "blocks_from n es (map kind_of (concat (map block_lines (b # bs)))) = (n, es) # (fst b, snd b) # bs"
      using Cons.IH [of "fst b" "snd b"] kinds [of b] blocks_from_entries [of "fst b" "[]" "snd b"] by simp
    then show ?case by simp
  qed simp
  then show ?thesis by (simp add: blocks_def lines)
qed

section \<open>Properties\<close>

text \<open>C28: The text of a file is parsed into its blocks: an entry before the first header, or after a header
  with an empty name, fails the assertion of Set; otherwise parsing succeeds, a section that was
  there is kept, and each other name is bound to the first block of that name, in which the last
  value of a key counts.\<close>

theorem parse_binds_first_block:
  "ParseSectionFile (Some content) sections =
     (if \<exists>b\<in>set (blocks content). stray b then None
      else Some (True, fold add_block (blocks content) sections)) \<and>
   map_of (fold add_block (blocks content) sections) n =
     (case map_of sections n of
        Some s \<Rightarrow> Some s
      | None \<Rightarrow> if n = [] then None else map_option (\<lambda>es. section_of (n, es)) (map_of (blocks content) n)) \<and>
   map_of (sec_data (section_of b)) = map_of (rev (snd b))"
  by (intro conjI parse_file_blocks fold_add_block section_of_data)

text \<open>C16: What is written as an ini file is read back: for blocks whose names, keys and values are
  legible, parsing the written file gives each name the entries of its first block.\<close>

theorem ini_file_roundtrip:
  assumes "\<forall>b\<in>set bs. block_ok b"
  shows "\<exists>m. ParseSectionFile (Some (write_ini bs)) [] = Some (True, m) \<and>
    (\<forall>n. map_of m n = map_option (\<lambda>es. section_of (n, es)) (map_of bs n))"
proof -
  have "\<not> (\<exists>b\<in>set (blocks (write_ini bs)). stray b)"
    using assms unfolding blocks_write_ini [OF assms] by (auto simp: stray_def block_ok_def)
  then have "ParseSectionFile (Some (write_ini bs)) [] = Some (True, fold add_block (blocks (write_ini bs)) [])"
    by (simp add: parse_file_blocks)
  moreover have "map_of bs [] = None"
    using assms by (auto simp: map_of_eq_None_iff block_ok_def)
  then have "map_of (fold add_block (blocks (write_ini bs)) []) n =
      map_option (\<lambda>es. section_of (n, es)) (map_of bs n)" for n
    unfolding fold_add_block blocks_write_ini [OF assms] by auto
  ultimately show ?thesis by blast
qed

theorem ini_file_roundtrip_witness:
  "\<exists>m. ParseSectionFile (Some (write_ini [(''net'', [(''port'', ''80''), (''port'', ''81'')])])) [] = Some (True, m) \<and>
     map_option (Get_uint32 ''port'' 0) (map_of m ''net'') = Some 81"
proof -
  let ?bs = "[(''net'', [(''port'', ''80''), (''port'', ''81'')])]"
  have "\<forall>b\<in>set ?bs. block_ok b" by (simp add: block_ok_def key_ok_def value_ok_def blank_def)
  from ini_file_roundtrip [OF this] obtain m where m: "ParseSectionFile (Some (write_ini ?bs)) [] = Some (True, m)"
      "map_of m ''net'' = map_option (\<lambda>es. section_of (''net'', es)) (map_of ?bs ''net'')"
    by blast
  have "Get_uint32 ''port'' 0 (section_of (''net'', [(''port'', ''80''), (''port'', ''81'')])) = 81" by code_simp
  then show ?thesis using m by (intro exI [of _ m]) simp
qed

text \<open>C33: The typed readers of a value set to the decimal text of an integer return the integer when it is
  in the range of their type and the default otherwise; but the unsigned readers also accept
  negative numbers, which wrap around: any above -2^64 for 64 bits, and for 32 bits those that wrap
  into the range.\<close>

theorem typed_get_reads_decimal:
  assumes "Section_Set key (show_int z) s = Some s'"
  shows "Get_int32 key d s' = (if - (2 ^ 31) \<le> z \<and> z < 2 ^ 31 then of_int z else d) \<and>
    Get_int64 key e s' = (if - (2 ^ 63) \<le> z \<and> z < 2 ^ 63 then of_int z else e) \<and>
    Get_uint32 key d s' = (if \<bar>z\<bar> < 2 ^ 64 \<and> z mod 2 ^ 64 < 2 ^ 32 then of_int z else d) \<and>
    Get_uint64 key e s' = (if \<bar>z\<bar> < 2 ^ 64 then of_int z else e)"
proof (intro conjI)
  note look = set_lookup [OF assms]
  show "Get_int32 key d s' = (if - (2 ^ 31) \<le> z \<and> z < 2 ^ 31 then of_int z else d)"
  proof (cases "- (2 ^ 63) \<le> z \<and> z < 2 ^ 63")
    case True
    then show ?thesis using sint_of_int [of z] by (simp add: Get_int32_def look stol_show_int ucast_of_int)
  next
    case False
    then show ?thesis by (auto simp: Get_int32_def look stol_show_int)
  qed
  show "Get_int64 key e s' = (if - (2 ^ 63) \<le> z \<and> z < 2 ^ 63 then of_int z else e)"
    using sint_of_int [of z] by (simp add: Get_int64_def look stol_show_int)
  show "Get_uint32 key d s' = (if \<bar>z\<bar> < 2 ^ 64 \<and> z mod 2 ^ 64 < 2 ^ 32 then of_int z else d)"
  proof -
    have "sint (of_int z :: u64) < 0 \<or> sint (of_int z :: u64) > 2 ^ 32 - 1 \<longleftrightarrow> \<not> z mod 2 ^ 64 < 2 ^ 32"
      using sint_u64_small [of "of_int z :: u64"] by (simp add: uint_word_of_int)
    then show ?thesis by (simp add: Get_uint32_def look stoul_show_int ucast_of_int)
  qed
  show "Get_uint64 key e s' = (if \<bar>z\<bar> < 2 ^ 64 then of_int z else e)"
    by (simp add: Get_uint64_def look stoul_show_int)
qed

theorem typed_get_reads_decimal_witness:
  "Section_Set ''n'' (show_int (- 1)) (Section_named ''s'') \<noteq> None \<and>
   Get_uint64 ''n'' 7 (the (Section_Set ''n'' (show_int (- 1)) (Section_named ''s''))) = 2 ^ 64 - 1"
proof -
  have "Section_Set ''n'' (show_int (- 1)) (Section_named ''s'') =
      Some \<lparr>sec_name = ''s'', sec_data = [(''n'', show_int (- 1))]\<rparr>"
    by (simp add: Section_Set_def Section_Empty_def Section_named_def)
  note this typed_get_reads_decimal [OF this, of 0 7]
  then show ?thesis by simp
qed

end
