(* ===== verification/Writable_File.thy ===== *)
theory Writable_File
  imports Statuses "HOL-Library.Monad_Syntax" "HOL-Library.Sublist"
begin

text \<open>
  \<^verbatim>\<open>example-writablefile/writable_file.{h,cc}\<close>: a buffered file over the system calls \<^verbatim>\<open>open\<close>,
  \<^verbatim>\<open>write\<close>, \<^verbatim>\<open>fsync\<close>, \<^verbatim>\<open>close\<close> and \<^verbatim>\<open>unlink\<close>. What the kernel answers is an argument: a list of
  return values with their \<^verbatim>\<open>errno\<close>, taken one per call (\<^verbatim>\<open>write\<close> takes at most the size it is
  asked for); the calls made are recorded with their answers. \<open>None\<close> is a call that is never
  answered, or a status whose text overflows. File names have no null byte, so that \<^verbatim>\<open>c_str\<close> keeps them.
\<close>

section \<open>System calls\<close>

datatype syscall = Sys_open bytes | Sys_write int bytes | Sys_fsync int | Sys_close int | Sys_unlink bytes

type_synonym answer = "int \<times> int"

record kernel =
  answers :: "answer list"
  calls :: "(syscall \<times> answer) list"
  strerror :: "int \<Rightarrow> string"

definition sys :: "syscall \<Rightarrow> kernel \<Rightarrow> (answer \<times> kernel) option" where
  "sys call k =
     (case answers k of
        [] \<Rightarrow> None
      | a # rest \<Rightarrow> Some (a, k\<lparr>answers := rest, calls := calls k @ [(call, a)]\<rparr>))"

definition sys_write :: "int \<Rightarrow> bytes \<Rightarrow> kernel \<Rightarrow> (answer \<times> kernel) option" where
  "sys_write d bs k =
     (case answers k of
        [] \<Rightarrow> None
      | (r, errno) # rest \<Rightarrow>
          (let a = (min r (int (length bs)), errno)
           in Some (a, k\<lparr>answers := rest, calls := calls k @ [(Sys_write d bs, a)]\<rparr>)))"

definition ENOENT :: int where "ENOENT = 2"
definition EINTR :: int where "EINTR = 4"

section \<open>The file\<close>

definition kWritableFileBufferSize :: nat where "kWritableFileBufferSize = 65536"

text \<open>The buffer is the bytes below \<^verbatim>\<open>pos_\<close>.\<close>

record WritableFileImpl =
  buf :: bytes
  fd :: int
  filename :: bytes
  dirname :: bytes

definition PosixError :: "kernel \<Rightarrow> bytes \<Rightarrow> int \<Rightarrow> status option" where
  "PosixError k name errcode =
     (if errcode = ENOENT then NotFound (Slice name) (slice_of_lit (strerror k errcode))
      else IOError (Slice name) (slice_of_lit (strerror k errcode)))"

definition slash :: byte where "slash = of_char CHR ''/''"

text \<open>\<^verbatim>\<open>rfind\<close> and the part before its position.\<close>

definition Dirname :: "bytes \<Rightarrow> bytes" where
  "Dirname name =
     (if slash \<notin> set name then lit ''.''
      else take (length name - Suc (length (takeWhile (\<lambda>c. c \<noteq> slash) (rev name)))) name)"

definition WritableFileImpl_new :: "bytes \<Rightarrow> int \<Rightarrow> WritableFileImpl" where
  "WritableFileImpl_new name d = \<lparr>buf = [], fd = d, filename = name, dirname = Dirname name\<rparr>"

function WriteUnbuffered :: "WritableFileImpl \<Rightarrow> bytes \<Rightarrow> kernel \<Rightarrow> (status \<times> kernel) option" where
  "WriteUnbuffered f bs k =
     (if bs = [] then Some (OK, k)
      else
        (case sys_write (fd f) bs k of
           None \<Rightarrow> None
         | Some ((write_result, errno), k1) \<Rightarrow>
             if write_result < 0 then
               (if errno = EINTR then WriteUnbuffered f bs k1
                else map_option (\<lambda>s. (s, k1)) (PosixError k1 (filename f) errno))
             else WriteUnbuffered f (drop (nat write_result) bs) k1))"
  by auto
termination
  by (relation "measure (\<lambda>(f, bs, k). length (answers k))") (auto simp: sys_write_def Let_def split: list.splits)

declare WriteUnbuffered.simps [simp del]

definition FlushBuffer :: "WritableFileImpl \<Rightarrow> kernel \<Rightarrow> (status \<times> WritableFileImpl \<times> kernel) option" where
  "FlushBuffer f k = map_option (\<lambda>(r, k1). (r, f\<lparr>buf := []\<rparr>, k1)) (WriteUnbuffered f (buf f) k)"

definition Append_file :: "slice \<Rightarrow> WritableFileImpl \<Rightarrow> kernel \<Rightarrow> (status \<times> WritableFileImpl \<times> kernel) option" where
  "Append_file sl f k =
     (let copy_size = min (slice_size sl) (kWritableFileBufferSize - length (buf f));
          f = f\<lparr>buf := buf f @ take copy_size (data sl)\<rparr>;
          write_data = drop copy_size (data sl)
      in if write_data = [] then Some (OK, f, k)
         else
           do { (r, f, k) \<leftarrow> FlushBuffer f k;
                if \<not> ok r then Some (r, f, k)
                else if length write_data < kWritableFileBufferSize then Some (OK, f\<lparr>buf := write_data\<rparr>, k)
                else do { (r, k) \<leftarrow> WriteUnbuffered f write_data k; Some (r, f, k) } })"

definition Close_file :: "WritableFileImpl \<Rightarrow> kernel \<Rightarrow> (status \<times> WritableFileImpl \<times> kernel) option" where
  "Close_file f k =
     do { (s, f, k) \<leftarrow> FlushBuffer f k;
          ((close_result, errno), k) \<leftarrow> sys (Sys_close (fd f)) k;
          s \<leftarrow> (if close_result < 0 \<and> ok s then PosixError k (filename f) errno else Some s);
          Some (s, f\<lparr>fd := -1\<rparr>, k) }"

definition SyncFd :: "WritableFileImpl \<Rightarrow> kernel \<Rightarrow> (status \<times> kernel) option" where
  "SyncFd f k =
     do { ((r, errno), k) \<leftarrow> sys (Sys_fsync (fd f)) k;
          (if r \<noteq> 0 then Some (OK, k)
           else do { s \<leftarrow> PosixError k (filename f) errno; Some (s, k) }) }"

definition Flush_file :: "WritableFileImpl \<Rightarrow> kernel \<Rightarrow> (status \<times> WritableFileImpl \<times> kernel) option" where
  "Flush_file f k =
     do { (s, f, k) \<leftarrow> FlushBuffer f k;
          (if \<not> ok s then Some (s, f, k)
           else do { (s, k) \<leftarrow> SyncFd f k; Some (s, f, k) }) }"

definition Sync_file :: "WritableFileImpl \<Rightarrow> kernel \<Rightarrow> (status \<times> WritableFileImpl \<times> kernel) option" where
  "Sync_file f k = do { s \<leftarrow> NotSupported (slice_of_lit []) slice_empty_new; Some (s, f, k) }"

definition WritableFileImpl_dtor :: "WritableFileImpl \<Rightarrow> kernel \<Rightarrow> kernel option" where
  "WritableFileImpl_dtor f k =
     (if fd f \<ge> 0 then map_option (\<lambda>(s, f, k). k) (Close_file f k) else Some k)"

section \<open>Whole files\<close>

definition RemoveFile :: "bytes \<Rightarrow> kernel \<Rightarrow> (status \<times> kernel) option" where
  "RemoveFile fname k =
     do { ((r, errno), k) \<leftarrow> sys (Sys_unlink fname) k;
          (if r \<noteq> 0 then do { s \<leftarrow> PosixError k fname errno; Some (s, k) } else Some (OK, k)) }"

definition NewWritableFile :: "bytes \<Rightarrow> kernel \<Rightarrow> (status \<times> WritableFileImpl option \<times> kernel) option" where
  "NewWritableFile fname k =
     do { ((r, errno), k) \<leftarrow> sys (Sys_open fname) k;
          (if r < 0 then do { s \<leftarrow> PosixError k fname errno; Some (s, None, k) }
           else Some (OK, Some (WritableFileImpl_new fname r), k)) }"

definition DoWriteStringToFile :: "slice \<Rightarrow> bytes \<Rightarrow> bool \<Rightarrow> kernel \<Rightarrow> (status \<times> kernel) option" where
  "DoWriteStringToFile sl fname should_sync k =
     do { (s, file, k) \<leftarrow> NewWritableFile fname k;
          (if \<not> ok s then Some (s, k)
           else
             do { f \<leftarrow> file;
                  (s, f, k) \<leftarrow> Append_file sl f k;
                  (s, f, k) \<leftarrow> (if ok s \<and> should_sync then Sync_file f k else Some (s, f, k));
                  (s, f, k) \<leftarrow> (if ok s then Close_file f k else Some (s, f, k));
                  k \<leftarrow> WritableFileImpl_dtor f k;
                  k \<leftarrow> (if \<not> ok s then map_option snd (RemoveFile fname k) else Some k);
                  Some (s, k) }) }"

definition TestWritableFile :: "kernel \<Rightarrow> kernel option" where
  "TestWritableFile k =
     do { (s, file, k) \<leftarrow> NewWritableFile (lit ''./hello.txt'') k;
          assert_that (ok s);
          f \<leftarrow> file;
          (s, f, k) \<leftarrow> Append_file (slice_of_lit ''hello, world'') f k;
          assert_that (ok s);
          (s, f, k) \<leftarrow> Close_file f k;
          assert_that (ok s);
          Some k }"

lemma sys_Cons: "answers k = a # rest \<Longrightarrow> sys call k = Some (a, k\<lparr>answers := rest, calls := calls k @ [(call, a)]\<rparr>)"
  by (simp add: sys_def)

lemma sys_write_Cons:
  "answers k = (r, e) # rest \<Longrightarrow>
     sys_write d bs k = Some ((min r (int (length bs)), e),
       k\<lparr>answers := rest, calls := calls k @ [(Sys_write d bs, (min r (int (length bs)), e))]\<rparr>)"
  by (simp add: sys_write_def Let_def)

lemmas file_defs = NewWritableFile_def Append_file_def FlushBuffer_def Close_file_def Sync_file_def
  WritableFileImpl_dtor_def RemoveFile_def WritableFileImpl_new_def DoWriteStringToFile_def
  kWritableFileBufferSize_def

lemma WriteUnbuffered_Nil [simp]: "WriteUnbuffered f [] k = Some (OK, k)"
  by (simp add: WriteUnbuffered.simps)

lemma WriteUnbuffered_Cons:
  "WriteUnbuffered f (b # bs) k =
     (case sys_write (fd f) (b # bs) k of
        None \<Rightarrow> None
      | Some ((write_result, errno), k1) \<Rightarrow>
          if write_result < 0 then
            (if errno = EINTR then WriteUnbuffered f (b # bs) k1
             else map_option (\<lambda>s. (s, k1)) (PosixError k1 (filename f) errno))
          else WriteUnbuffered f (drop (nat write_result) (b # bs)) k1)"
  by (subst WriteUnbuffered.simps) simp

lemma ok_OK [simp]: "ok OK"
  by (simp add: ok_def OK_def)

lemma TestWritableFile_passes:
  "map_option answers (TestWritableFile \<lparr>answers = [(3, 0), (5, 0), (-1, EINTR), (7, 0), (0, 0)], calls = [],
     strerror = (\<lambda>_. ''error'')\<rparr>) = Some []"
  by (simp add: TestWritableFile_def assert_that_def file_defs sys_Cons sys_write_Cons slice_of_lit_def lit_def data_def
      Let_def WriteUnbuffered_Cons EINTR_def)

section \<open>What reaches the file\<close>

fun accepted_by :: "int \<Rightarrow> syscall \<times> answer \<Rightarrow> bytes" where
  "accepted_by d (Sys_write d' bs, (r, e)) = (if d' = d \<and> r > 0 then take (nat r) bs else [])"
| "accepted_by d _ = []"

definition written :: "int \<Rightarrow> kernel \<Rightarrow> bytes" where
  "written d k = concat (map (accepted_by d) (calls k))"

fun is_write :: "syscall \<Rightarrow> bool" where
  "is_write (Sys_write d bs) = True"
| "is_write _ = False"

definition other_calls :: "kernel \<Rightarrow> (syscall \<times> answer) list" where
  "other_calls k = filter (\<lambda>c. \<not> is_write (fst c)) (calls k)"

lemma PosixError_not_ok: "PosixError k name e = Some s \<Longrightarrow> \<not> ok s"
  by (auto simp: PosixError_def NotFound_def IOError_def ok_def dest!: wf_Status_new split: if_splits)

lemma NotSupported_not_ok: "NotSupported a b = Some s \<Longrightarrow> \<not> ok s"
  by (auto simp: NotSupported_def ok_def dest!: wf_Status_new)

lemma sys_writes_nothing:
  "sys call k = Some (a, k') \<Longrightarrow> (\<And>d' bs. call \<noteq> Sys_write d' bs) \<Longrightarrow> written d k' = written d k"
  by (cases call) (auto simp: sys_def written_def split: list.splits)

lemma sys_write_written:
  "sys_write d bs k = Some ((r, e), k') \<Longrightarrow>
     r \<le> int (length bs) \<and> written d k' = written d k @ take (nat r) bs \<and> other_calls k' = other_calls k"
  by (cases "answers k") (auto simp: sys_write_def written_def other_calls_def Let_def)

text \<open>The four ways a turn of the loop goes: nothing is left, the call was interrupted, it failed, or a
  part of the bytes was taken.\<close>

lemma WriteUnbuffered_turn:
  assumes "WriteUnbuffered f bs k = Some (s, k')"
  obtains (finished) "bs = []" "s = OK" "k' = k"
    | (interrupted) r k1 where "bs \<noteq> []" "sys_write (fd f) bs k = Some ((r, EINTR), k1)" "r < 0"
        "WriteUnbuffered f bs k1 = Some (s, k')"
    | (failed) r e where "bs \<noteq> []" "sys_write (fd f) bs k = Some ((r, e), k')" "r < 0" "e \<noteq> EINTR"
        "PosixError k' (filename f) e = Some s"
    | (part) r e k1 where "bs \<noteq> []" "sys_write (fd f) bs k = Some ((r, e), k1)" "0 \<le> r"
        "WriteUnbuffered f (drop (nat r) bs) k1 = Some (s, k')"
proof (cases "bs = []")
  case True
  then show thesis using assms finished by (simp add: WriteUnbuffered.simps)
next
  case False
  note step = assms [unfolded WriteUnbuffered.simps [of f bs k] if_not_P [OF False]]
  obtain r e k1 where w: "sys_write (fd f) bs k = Some ((r, e), k1)"
    using step by (cases "sys_write (fd f) bs k") auto
  have res: "(if r < 0 then if e = EINTR then WriteUnbuffered f bs k1
        else map_option (\<lambda>s. (s, k1)) (PosixError k1 (filename f) e)
      else WriteUnbuffered f (drop (nat r) bs) k1) = Some (s, k')"
    using step by (simp add: w)
  consider "0 \<le> r" | "r < 0" "e = EINTR" | "r < 0" "e \<noteq> EINTR" by linarith
  then show thesis
  proof cases
    case c: 3
    have "map_option (\<lambda>s. (s, k1)) (PosixError k1 (filename f) e) = Some (s, k')"
      using res unfolding if_P [OF c(1)] if_not_P [OF c(2)] .
    then have "PosixError k1 (filename f) e = Some s" "k' = k1"
      by (cases "PosixError k1 (filename f) e"; simp)+
    then show thesis using failed [OF False _ c] w by simp
  qed (use res part [OF False w] interrupted [OF False] w in simp_all)
qed

lemma prefix_through_drop:
  assumes "prefix pre (drop n bs)"
  shows "prefix (take n bs @ pre) bs" and "take n bs @ pre = bs \<longleftrightarrow> pre = drop n bs"
proof -
  have "prefix (take n bs @ pre) (take n bs @ drop n bs)" using assms by (simp only: same_prefix_prefix)
  then show "prefix (take n bs @ pre) bs" by simp
  show "take n bs @ pre = bs \<longleftrightarrow> pre = drop n bs" by (metis append_take_drop_id same_append_eq)
qed

lemma WriteUnbuffered_written:
  "WriteUnbuffered f bs k = Some (s, k') \<Longrightarrow>
     \<exists>pre. written (fd f) k' = written (fd f) k @ pre \<and> prefix pre bs \<and> (ok s \<longleftrightarrow> pre = bs \<and> s = OK) \<and>
       other_calls k' = other_calls k"
proof (induction f bs k arbitrary: s k' rule: WriteUnbuffered.induct)
  case (1 f bs k)
  from "1.prems" show ?case
  proof (cases rule: WriteUnbuffered_turn)
    case finished
    then show ?thesis by simp
  next
    case (interrupted r k1)
    from "1.IH"(1) [OF this(1,2) refl refl this(3) refl this(4)] show ?thesis
      using sys_write_written [OF interrupted(2)] interrupted(3) by simp
  next
    case (failed r e)
    then show ?thesis using PosixError_not_ok [OF failed(5)] sys_write_written [OF failed(2)]
      by (intro exI [of _ "[]"]) auto
  next
    case (part r e k1)
    then have "\<not> r < 0" by simp
    from "1.IH"(2) [OF part(1,2) refl refl this part(4)]
    obtain pre where pre: "written (fd f) k' = written (fd f) k1 @ pre" "prefix pre (drop (nat r) bs)"
        "ok s \<longleftrightarrow> pre = drop (nat r) bs \<and> s = OK" "other_calls k' = other_calls k1"
      by blast
    then show ?thesis using prefix_through_drop [OF pre(2)] sys_write_written [OF part(2)]
      by (intro exI [of _ "take (nat r) bs @ pre"]) simp
  qed
qed


lemma FlushBuffer_written:
  assumes "FlushBuffer f k = Some (s, f', k')"
  shows "\<exists>pre. written (fd f) k' = written (fd f) k @ pre \<and> prefix pre (buf f) \<and> (ok s \<longleftrightarrow> pre = buf f \<and> s = OK)"
    and "f' = f\<lparr>buf := []\<rparr>"
    and "other_calls k' = other_calls k"
proof -
  obtain s0 k0 where w: "WriteUnbuffered f (buf f) k = Some (s0, k0)" "s0 = s" "f' = f\<lparr>buf := []\<rparr>" "k0 = k'"
    using assms by (cases "WriteUnbuffered f (buf f) k") (auto simp: FlushBuffer_def)
  show "\<exists>pre. written (fd f) k' = written (fd f) k @ pre \<and> prefix pre (buf f) \<and> (ok s \<longleftrightarrow> pre = buf f \<and> s = OK)"
    using WriteUnbuffered_written [OF w(1)] w(2,4) by blast
  show "f' = f\<lparr>buf := []\<rparr>" by (rule w(3))
  show "other_calls k' = other_calls k" using WriteUnbuffered_written [OF w(1)] w(4) by auto
qed

definition buffer_ok :: "WritableFileImpl \<Rightarrow> bool" where
  "buffer_ok f \<longleftrightarrow> length (buf f) \<le> kWritableFileBufferSize"

definition same_file :: "WritableFileImpl \<Rightarrow> WritableFileImpl \<Rightarrow> bool" where
  "same_file f f' \<longleftrightarrow> fd f' = fd f \<and> filename f' = filename f"

lemma buffer_size_pos: "0 < kWritableFileBufferSize"
  by (simp add: kWritableFileBufferSize_def)

lemma Append_file_cases:
  assumes "Append_file sl f k = Some (s, f', k')"
  defines "n \<equiv> min (slice_size sl) (kWritableFileBufferSize - length (buf f))"
  defines "f1 \<equiv> f\<lparr>buf := buf f @ take n (data sl)\<rparr>"
  obtains (fits) "drop n (data sl) = []" "s = OK" "f' = f1" "k' = k"
    | (flush_failed) "FlushBuffer f1 k = Some (s, f', k')" "\<not> ok s"
    | (buffered) s1 f2 where "FlushBuffer f1 k = Some (s1, f2, k')" "ok s1" "s = OK"
        "length (drop n (data sl)) < kWritableFileBufferSize" "f' = f2\<lparr>buf := drop n (data sl)\<rparr>"
    | (unbuffered) s1 k1 where "FlushBuffer f1 k = Some (s1, f', k1)" "ok s1"
        "WriteUnbuffered f' (drop n (data sl)) k1 = Some (s, k')"
proof -
  have a: "(if drop n (data sl) = [] then Some (OK, f1, k)
      else Option.bind (FlushBuffer f1 k) (\<lambda>(r, f, k).
        if \<not> ok r then Some (r, f, k)
        else if length (drop n (data sl)) < kWritableFileBufferSize then Some (OK, f\<lparr>buf := drop n (data sl)\<rparr>, k)
        else Option.bind (WriteUnbuffered f (drop n (data sl)) k) (\<lambda>(r, k). Some (r, f, k)))) = Some (s, f', k')"
    using assms(1) unfolding Append_file_def Let_def n_def f1_def .
  show thesis
  proof (cases "drop n (data sl) = []")
    case True
    then show thesis using a fits by simp
  next
    case False
    then obtain s1 f2 k1 where f: "FlushBuffer f1 k = Some (s1, f2, k1)"
      using a by (cases "FlushBuffer f1 k") auto
    note b = a [unfolded f if_not_P [OF False] bind.simps prod.case]
    show thesis
    proof (cases "ok s1")
      case True
      show thesis
      proof (cases "length (drop n (data sl)) < kWritableFileBufferSize")
        case small: True
        then show thesis using b True f buffered [of s1 f2] by simp
      next
        case large: False
        then show thesis using b True f unbuffered [of s1 k1]
          by (cases "WriteUnbuffered f2 (drop n (data sl)) k1") auto
      qed
    next
      case bad: False
      then show thesis using b f flush_failed by simp
    qed
  qed
qed

lemma Append_file_written:
  assumes "Append_file sl f k = Some (s, f', k')" and "buffer_ok f"
  shows "same_file f f' \<and> buffer_ok f' \<and>
    (if ok s then written (fd f) k' @ buf f' = written (fd f) k @ buf f @ data sl
     else \<exists>pre. written (fd f) k' = written (fd f) k @ pre \<and> prefix pre (buf f @ data sl))"
  using assms(1)
proof (cases rule: Append_file_cases)
  case fits
  let ?n = "min (slice_size sl) (kWritableFileBufferSize - length (buf f))"
  have "take ?n (data sl) = data sl" using fits(1) by simp
  moreover have "length (buf f) + ?n \<le> kWritableFileBufferSize" using assms(2) by (simp add: buffer_ok_def)
  ultimately show ?thesis using fits by (simp add: same_file_def buffer_ok_def)
next
  case flush_failed
  obtain pre where "written (fd f) k' = written (fd f) k @ pre"
      "prefix pre (buf f @ take (min (slice_size sl) (kWritableFileBufferSize - length (buf f))) (data sl))"
    using FlushBuffer_written(1) [OF flush_failed(1)] by auto
  moreover have "prefix (take n (data sl)) (data sl)" for n by (rule take_is_prefix)
  ultimately have "written (fd f) k' = written (fd f) k @ pre \<and> prefix pre (buf f @ data sl)"
    by (meson prefix_order.trans same_prefix_prefix)
  then show ?thesis using flush_failed(2) FlushBuffer_written(2) [OF flush_failed(1)]
    by (auto simp: same_file_def buffer_ok_def)
next
  case buffered
  have "written (fd f) k' = written (fd f) k @ buf f @ take (min (slice_size sl) (kWritableFileBufferSize - length (buf f))) (data sl)"
    using FlushBuffer_written(1) [OF buffered(1)] buffered(2) by auto
  then show ?thesis using buffered(3-5) FlushBuffer_written(2) [OF buffered(1)]
    by (simp add: same_file_def buffer_ok_def)
next
  case (unbuffered s1 k1)
  let ?n = "min (slice_size sl) (kWritableFileBufferSize - length (buf f))"
  have k1: "written (fd f) k1 = written (fd f) k @ buf f @ take ?n (data sl)"
    using FlushBuffer_written(1) [OF unbuffered(1)] unbuffered(2) by auto
  have f': "f' = f\<lparr>buf := []\<rparr>" using FlushBuffer_written(2) [OF unbuffered(1)] by simp
  then obtain pre where pre: "written (fd f) k' = written (fd f) k1 @ pre" "prefix pre (drop ?n (data sl))"
      "ok s \<longleftrightarrow> pre = drop ?n (data sl) \<and> s = OK"
    using WriteUnbuffered_written [OF unbuffered(3)] by auto
  have "prefix (buf f @ take ?n (data sl) @ pre) (buf f @ take ?n (data sl) @ drop ?n (data sl))"
    using pre(2) by (simp only: same_prefix_prefix)
  then have "prefix (buf f @ take ?n (data sl) @ pre) (buf f @ data sl)" by (simp only: append_take_drop_id)
  moreover have "take ?n (data sl) @ pre = data sl" if "pre = drop ?n (data sl)"
    unfolding that by (rule append_take_drop_id)
  ultimately show ?thesis using f' k1 pre by (auto simp: same_file_def buffer_ok_def)
qed

lemma Append_file_calls:
  assumes "Append_file sl f k = Some (s, f', k')"
  shows "other_calls k' = other_calls k"
  using assms
proof (cases rule: Append_file_cases)
  case flush_failed
  then show ?thesis using FlushBuffer_written(3) [OF flush_failed(1)] by simp
next
  case (buffered s1 f2)
  then show ?thesis using FlushBuffer_written(3) [OF buffered(1)] by simp
next
  case (unbuffered s1 k1)
  then show ?thesis
    using FlushBuffer_written(3) [OF unbuffered(1)] WriteUnbuffered_written [OF unbuffered(3)] by auto
qed simp

lemma sys_other_calls: "sys c k = Some (a, k') \<Longrightarrow> \<not> is_write c \<Longrightarrow> other_calls k' = other_calls k @ [(c, a)]"
  by (auto simp: sys_def other_calls_def split: list.splits)

lemma append_grows:
  assumes "Append_file sl f k = Some (s, f', k')"
  shows "\<exists>more. written (fd f) k' = written (fd f) k @ more"
  using assms
proof (cases rule: Append_file_cases)
  case flush_failed
  then show ?thesis using FlushBuffer_written(1) [OF flush_failed(1)] by auto
next
  case (buffered s1 f2)
  then show ?thesis using FlushBuffer_written(1) [OF buffered(1)] by auto
next
  case (unbuffered s1 k1)
  then show ?thesis
    using FlushBuffer_written [OF unbuffered(1)] WriteUnbuffered_written [OF unbuffered(3)] by auto
qed simp

lemma Close_file_written:
  assumes "Close_file f k = Some (s, f', k')"
  shows "fd f' = -1 \<and> filename f' = filename f \<and> (\<exists>a. other_calls k' = other_calls k @ [(Sys_close (fd f), a)]) \<and>
    (\<exists>pre. written (fd f) k' = written (fd f) k @ pre \<and> prefix pre (buf f) \<and> (ok s \<longrightarrow> pre = buf f))"
proof -
  obtain s1 f1 k1 where f: "FlushBuffer f k = Some (s1, f1, k1)"
    using assms by (cases "FlushBuffer f k") (auto simp: Close_file_def)
  note f1 = FlushBuffer_written [OF f]
  obtain r e k2 where c: "sys (Sys_close (fd f1)) k1 = Some ((r, e), k2)"
    using assms by (cases "sys (Sys_close (fd f1)) k1") (auto simp: Close_file_def f)
  have w: "written d k2 = written d k1" for d by (rule sys_writes_nothing [OF c]) simp
  have o: "other_calls k2 = other_calls k @ [(Sys_close (fd f), (r, e))]"
    using sys_other_calls [OF c] f1(2,3) by simp
  have res: "Option.bind (if r < 0 \<and> ok s1 then PosixError k2 (filename f1) e else Some s1)
      (\<lambda>s. Some (s, f1\<lparr>fd := -1\<rparr>, k2)) = Some (s, f', k')"
    using assms by (simp add: Close_file_def f c)
  then have f': "f' = f1\<lparr>fd := -1\<rparr>" "k' = k2" and s: "ok s \<Longrightarrow> ok s1"
    using PosixError_not_ok [of k2 "filename f1" e s]
    by (cases "r < 0 \<and> ok s1"; cases "PosixError k2 (filename f1) e"; auto)+
  then show ?thesis using f1 w o by auto
qed

lemma RemoveFile_calls:
  assumes "RemoveFile fname k = Some (s, k')"
  shows "\<exists>c. other_calls k' = other_calls k @ [(Sys_unlink fname, c)]"
proof -
  obtain c k1 where u: "sys (Sys_unlink fname) k = Some (c, k1)"
    using assms by (cases "sys (Sys_unlink fname) k") (auto simp: RemoveFile_def)
  have "k' = k1" using assms
    by (cases c; cases "fst c = 0"; cases "PosixError k1 fname (snd c)") (auto simp: RemoveFile_def u)
  then show ?thesis using sys_other_calls [OF u] by auto
qed

lemma remove_tail:
  assumes "0 \<le> fd f" and "Option.bind (WritableFileImpl_dtor f k) (\<lambda>k.
      Option.bind (map_option snd (RemoveFile fname k)) (\<lambda>k. Some (s, k))) = Some (s', k')"
  shows "s' = s \<and> (\<exists>b c. other_calls k' = other_calls k @ [(Sys_close (fd f), b), (Sys_unlink fname, c)])"
proof -
  obtain s2 f2 k2 where cl: "Close_file f k = Some (s2, f2, k2)"
    using assms by (cases "Close_file f k") (auto simp: WritableFileImpl_dtor_def)
  then have "WritableFileImpl_dtor f k = Some k2" using assms(1) by (simp add: WritableFileImpl_dtor_def)
  then obtain t where t: "RemoveFile fname k2 = Some (t, k')" "s' = s"
    using assms(2) by (cases "RemoveFile fname k2") auto
  then show ?thesis using Close_file_written [OF cl] RemoveFile_calls [OF t(1)] by auto
qed

text \<open>What follows the opening of the file: append, sync or close, and remove the file if that failed.\<close>

definition write_rest :: "slice \<Rightarrow> bytes \<Rightarrow> bool \<Rightarrow> WritableFileImpl \<Rightarrow> kernel \<Rightarrow> (status \<times> kernel) option" where
  "write_rest sl fname should_sync f k =
     Option.bind (Append_file sl f k) (\<lambda>(s, f, k).
     Option.bind (if ok s \<and> should_sync then Sync_file f k else Some (s, f, k)) (\<lambda>(s, f, k).
     Option.bind (if ok s then Close_file f k else Some (s, f, k)) (\<lambda>(s, f, k).
     Option.bind (WritableFileImpl_dtor f k) (\<lambda>k.
     Option.bind (if \<not> ok s then map_option snd (RemoveFile fname k) else Some k) (\<lambda>k. Some (s, k))))))"

lemma write_rest_failed:
  assumes "write_rest sl fname should_sync f k = Some (s, k')" "0 \<le> fd f" "buffer_ok f"
    and ap: "Append_file sl f k = Some (s1, f1, k1)" and no: "\<not> (ok s1 \<and> \<not> should_sync)"
  shows "\<not> ok s \<and> (\<exists>b c. other_calls k' = other_calls k @ [(Sys_close (fd f), b), (Sys_unlink fname, c)])"
proof -
  have f1: "fd f1 = fd f" "other_calls k1 = other_calls k"
    using Append_file_written [OF ap assms(3)] Append_file_calls [OF ap] by (auto simp: same_file_def)
  obtain s2 where s2: "\<not> ok s2" "Option.bind (WritableFileImpl_dtor f1 k1) (\<lambda>k.
      Option.bind (map_option snd (RemoveFile fname k)) (\<lambda>k. Some (s2, k))) = Some (s, k')"
    using assms(1) ap no NotSupported_not_ok
    by (cases "ok s1"; cases "NotSupported (slice_of_lit []) slice_empty_new") (auto simp: write_rest_def Sync_file_def)
  then show ?thesis using remove_tail [OF _ s2(2)] f1 assms(2) by auto
qed

lemma write_rest_closed:
  assumes wr: "write_rest sl fname should_sync f k = Some (s, k')" and f: "0 \<le> fd f" "buffer_ok f" "buf f = []" "written (fd f) k = []"
    and ap: "Append_file sl f k = Some (s1, f1, k1)" and yes: "ok s1" "\<not> should_sync"
  shows "if ok s then written (fd f) k' = data sl \<and> (\<exists>b. other_calls k' = other_calls k @ [(Sys_close (fd f), b)])
    else \<exists>b c. other_calls k' = other_calls k @ [(Sys_close (fd f), b), (Sys_unlink fname, c)]"
proof -
  have f1: "fd f1 = fd f" "other_calls k1 = other_calls k" "written (fd f) k1 @ buf f1 = data sl"
    using Append_file_written [OF ap f(2)] Append_file_calls [OF ap] f(3,4) yes by (auto simp: same_file_def)
  obtain s2 f2 k2 where cl: "Close_file f1 k1 = Some (s2, f2, k2)"
    using wr ap yes by (cases "Close_file f1 k1") (auto simp: write_rest_def)
  note c = Close_file_written [OF cl, unfolded f1(1)]
  have fd2: "WritableFileImpl_dtor f2 k2 = Some k2" using c by (simp add: WritableFileImpl_dtor_def)
  obtain b where b: "other_calls k2 = other_calls k @ [(Sys_close (fd f), b)]" using c f1(2) f(1) by auto
  have r: "Option.bind (if \<not> ok s2 then map_option snd (RemoveFile fname k2) else Some k2) (\<lambda>k. Some (s2, k)) = Some (s, k')"
    using wr yes by (simp add: write_rest_def ap cl fd2)
  show ?thesis
  proof (cases "ok s2")
    case True
    then have "s = s2" "k' = k2" using r by simp_all
    then show ?thesis using True c b f1(3) f(1) by auto
  next
    case False
    then obtain t where t: "RemoveFile fname k2 = Some (t, k')" "s = s2" using r by (cases "RemoveFile fname k2") auto
    then show ?thesis using RemoveFile_calls [OF t(1)] b False by auto
  qed
qed

section \<open>Runs of appends\<close>

fun append_all :: "slice list \<Rightarrow> WritableFileImpl \<Rightarrow> kernel \<Rightarrow> (status \<times> WritableFileImpl \<times> kernel) option" where
  "append_all [] f k = Some (OK, f, k)"
| "append_all (sl # sls) f k =
     Option.bind (Append_file sl f k) (\<lambda>(s, f, k). if ok s then append_all sls f k else Some (s, f, k))"

lemma prefix_after_growth:
  assumes "w' = w1 @ pre" "prefix pre (b1 @ xs)" "w1 @ b1 = w @ b" "w1 = w @ grown"
  shows "\<exists>p. w' = w @ p \<and> prefix p (b @ xs)"
proof -
  have "prefix w' (w1 @ b1 @ xs)" unfolding assms(1) using assms(2) by (simp only: same_prefix_prefix)
  also have "w1 @ b1 @ xs = w @ b @ xs" using assms(3) by (metis append.assoc)
  finally have "prefix (grown @ pre) (b @ xs)" by (simp add: assms(1,4))
  then show ?thesis using assms(1,4) by auto
qed

lemma append_all_written:
  "append_all sls f k = Some (s, f', k') \<Longrightarrow> buffer_ok f \<Longrightarrow>
     same_file f f' \<and> buffer_ok f' \<and>
     (if ok s then written (fd f) k' @ buf f' = written (fd f) k @ buf f @ concat (map data sls)
      else \<exists>pre. written (fd f) k' = written (fd f) k @ pre \<and> prefix pre (buf f @ concat (map data sls)))"
proof (induction sls arbitrary: f k)
  case Nil
  then show ?case by (simp add: same_file_def)
next
  case (Cons sl sls)
  obtain s1 f1 k1 where a: "Append_file sl f k = Some (s1, f1, k1)"
    using Cons.prems(1) by (cases "Append_file sl f k") auto
  note one = Append_file_written [OF a Cons.prems(2)]
  show ?case
  proof (cases "ok s1")
    case False
    then have e: "s = s1" "f' = f1" "k' = k1" using Cons.prems(1) by (simp_all add: a)
    obtain pre where pre: "written (fd f) k' = written (fd f) k @ pre" "prefix pre (buf f @ data sl)"
      using one False e by auto
    have "prefix pre (buf f @ concat (map data (sl # sls)))"
      using pre(2) prefix_prefix [of pre "buf f @ data sl" "concat (map data sls)"] by simp
    then show ?thesis using one False e pre(1) by auto
  next
    case True
    then have rest: "append_all sls f1 k1 = Some (s, f', k')" using Cons.prems(1) by (simp add: a)
    have f1: "same_file f f1" "buffer_ok f1" "written (fd f) k1 @ buf f1 = written (fd f) k @ buf f @ data sl"
      using one True by auto
    have fd: "fd f1 = fd f" using f1(1) by (simp add: same_file_def)
    note IH = Cons.IH [OF rest f1(2), unfolded fd]
    show ?thesis
    proof (cases "ok s")
      case True
      then show ?thesis using IH f1 by (auto simp: same_file_def)
    next
      case False
      then obtain pre where pre: "written (fd f) k' = written (fd f) k1 @ pre"
          "prefix pre (buf f1 @ concat (map data sls))" and sf: "same_file f1 f'" "buffer_ok f'"
        using IH by auto
      obtain grown where "written (fd f) k1 = written (fd f) k @ grown" using append_grows [OF a] by blast
      then obtain p where p: "written (fd f) k' = written (fd f) k @ p"
          "prefix p ((buf f @ data sl) @ concat (map data sls))"
        using prefix_after_growth [OF pre f1(3)] by blast
      then show ?thesis using False sf f1(1) p by (auto simp: same_file_def)
    qed
  qed
qed


section \<open>Return of the write loop\<close>

text \<open>An answer that lets the loop make progress: not an interruption and not an empty write.\<close>

definition useful :: "answer \<Rightarrow> bool" where
  "useful a \<longleftrightarrow> fst a > 0 \<or> fst a < 0 \<and> snd a \<noteq> EINTR"

definition texts_fit :: "bytes \<Rightarrow> kernel \<Rightarrow> bool" where
  "texts_fit name k \<longleftrightarrow> (\<forall>e. length name + length (strerror k e) + 7 < 2 ^ 32)"

lemma PosixError_returns: "texts_fit name k \<Longrightarrow> \<exists>s. PosixError k name e = Some s"
  using Status_new_Some [of kNotFound "Slice name" "slice_of_lit (strerror k e)"]
    Status_new_Some [of kIOError "Slice name" "slice_of_lit (strerror k e)"]
  by (auto simp: PosixError_def NotFound_def IOError_def texts_fit_def slice_of_lit_def data_def code_defs)

lemma WriteUnbuffered_returns:
  "length bs \<le> length (filter useful (answers k)) \<Longrightarrow> texts_fit (filename f) k \<Longrightarrow>
     \<exists>s k'. WriteUnbuffered f bs k = Some (s, k')"
proof (induction f bs k rule: WriteUnbuffered.induct)
  case (1 f bs k)
  show ?case
  proof (cases "bs = []")
    case False
    note step = WriteUnbuffered.simps [of f bs k, unfolded if_not_P [OF False]]
    have "answers k \<noteq> []" using "1.prems"(1) False by auto
    then obtain r0 e rest where as: "answers k = (r0, e) # rest" by (cases "answers k") auto
    define r where "r = min r0 (int (length bs))"
    define k1 where "k1 = k\<lparr>answers := rest, calls := calls k @ [(Sys_write (fd f) bs, (r, e))]\<rparr>"
    have w: "sys_write (fd f) bs k = Some ((r, e), k1)" by (simp add: sys_write_Cons [OF as] r_def k1_def)
    have fit: "texts_fit (filename f) k1" using "1.prems"(2) by (simp add: texts_fit_def k1_def)
    have sign: "r < 0 \<longleftrightarrow> r0 < 0" by (auto simp: r_def)
    consider "r < 0" "e = EINTR" | "r < 0" "e \<noteq> EINTR" | "0 \<le> r" by linarith
    then show ?thesis
    proof cases
      case c: 1
      then have "\<not> useful (r0, e)" using sign by (simp add: useful_def)
      then have "length bs \<le> length (filter useful (answers k1))" using "1.prems"(1) as by (simp add: k1_def)
      from "1.IH"(1) [OF False w refl refl c this fit] show ?thesis using step w c by simp
    next
      case c: 2
      obtain s where "PosixError k1 (filename f) e = Some s" using PosixError_returns [OF fit] by blast
      then show ?thesis using step w c by simp
    next
      case c: 3
      have "length (drop (nat r) bs) \<le> length (filter useful (answers k1))"
      proof (cases "r0 > 0")
        case True
        then have "1 \<le> nat r" using False by (cases bs) (auto simp: r_def)
        moreover have "useful (r0, e)" using True by (simp add: useful_def)
        ultimately show ?thesis using "1.prems"(1) as by (simp add: k1_def)
      next
        case no: False
        then have "\<not> useful (r0, e)" using sign c by (simp add: useful_def)
        then show ?thesis using "1.prems"(1) as by (simp add: k1_def)
      qed
      moreover have "\<not> r < 0" using c by simp
      ultimately show ?thesis using "1.IH"(2) [OF False w refl refl _ _ fit] step w by simp
    qed
  qed simp
qed

section \<open>Properties\<close>

text \<open>C13: Appending to a new file preserves the stream of bytes: while all appends return OK, what has been
  written to the descriptor followed by the buffer is what was appended, and a following Close that
  returns OK leaves all of it in the file; when an append fails, a prefix of it has been written.\<close>

theorem appended_stream_is_preserved:
  assumes "append_all sls (WritableFileImpl_new name d) k = Some (s, f, k1)"
  shows "(ok s \<longrightarrow> written d k1 @ buf f = written d k @ concat (map data sls) \<and> length (buf f) \<le> 65536 \<and>
      (\<forall>s' f' k2. Close_file f k1 = Some (s', f', k2) \<and> ok s' \<longrightarrow>
         written d k2 = written d k @ concat (map data sls) \<and> fd f' = -1)) \<and>
    (\<not> ok s \<longrightarrow> (\<exists>pre. written d k1 = written d k @ pre \<and> prefix pre (concat (map data sls))))"
proof -
  let ?f = "WritableFileImpl_new name d"
  have new: "buffer_ok ?f" "buf ?f = []" "fd ?f = d"
    by (simp_all add: buffer_ok_def WritableFileImpl_new_def)
  note all = append_all_written [OF assms new(1), unfolded new]
  have fd: "fd f = d" using all new(3) by (auto simp: same_file_def)
  have "written d k2 = written d k @ concat (map data sls) \<and> fd f' = -1"
    if "ok s" "Close_file f k1 = Some (s', f', k2)" "ok s'" for s' f' k2
    using all that(1,3) Close_file_written [OF that(2), unfolded fd] by auto
  then show ?thesis using all by (auto simp: buffer_ok_def kWritableFileBufferSize_def)
qed

theorem appended_stream_is_preserved_witness:
  "\<exists>f k1. append_all [slice_of_lit ''ab'', slice_of_lit ''c''] (WritableFileImpl_new [] 3)
       \<lparr>answers = [(2, 0), (1, 0), (0, 0)], calls = [], strerror = (\<lambda>_. [])\<rparr> = Some (OK, f, k1) \<and>
     written 3 k1 @ buf f = lit ''abc''"
proof -
  let ?k = "\<lparr>answers = [(2, 0), (1, 0), (0, 0)], calls = [], strerror = (\<lambda>_. [])\<rparr>"
  obtain f k1 where a: "append_all [slice_of_lit ''ab'', slice_of_lit ''c''] (WritableFileImpl_new [] 3) ?k = Some (OK, f, k1)"
    by (simp add: file_defs Let_def slice_of_lit_def data_def lit_def)
  from appended_stream_is_preserved [OF a] have "written 3 k1 @ buf f = lit ''abc''"
    by (simp add: slice_of_lit_def data_def lit_def written_def)
  then show ?thesis using a by blast
qed

text \<open>C36: WriteUnbuffered returns: for n bytes it needs at most n answers of the kernel that are neither
  interruptions nor empty writes, with any number of others between them.\<close>

theorem write_loop_returns:
  assumes "length bs \<le> length (filter useful (answers k))" and "texts_fit (filename f) k"
  shows "\<exists>s k'. WriteUnbuffered f bs k = Some (s, k') \<and> (ok s \<longrightarrow> written (fd f) k' = written (fd f) k @ bs)"
proof -
  obtain s k' where w: "WriteUnbuffered f bs k = Some (s, k')" using WriteUnbuffered_returns [OF assms] by blast
  then show ?thesis using WriteUnbuffered_written [OF w] by auto
qed

theorem write_loop_returns_witness:
  "\<exists>s k'. WriteUnbuffered (WritableFileImpl_new [] 3) [7, 8]
     \<lparr>answers = [(-1, EINTR), (1, 0), (0, 0), (1, 0)], calls = [], strerror = (\<lambda>_. [])\<rparr> = Some (s, k')"
proof -
  let ?k = "\<lparr>answers = [(-1, EINTR), (1, 0), (0, 0), (1, 0)], calls = [], strerror = (\<lambda>_. [])\<rparr>"
  have "length [7, 8 :: byte] \<le> length (filter useful (answers ?k))" by (simp add: useful_def)
  moreover have "texts_fit (filename (WritableFileImpl_new [] 3)) ?k"
    by (simp add: texts_fit_def WritableFileImpl_new_def)
  ultimately show ?thesis using write_loop_returns [of "[7, 8]" ?k "WritableFileImpl_new [] 3"] by blast
qed

text \<open>C40: Flush reports the opposite of what fsync answered: after the buffer was written, it returns OK
  exactly when fsync returned an error (anything but 0).\<close>

theorem flush_inverts_fsync:
  assumes "FlushBuffer f k = Some (s, f1, k1)" and "ok s" and "answers k1 = (r, e) # rest"
    and "Flush_file f k = Some (s', f', k')"
  shows "ok s' \<longleftrightarrow> r \<noteq> 0"
proof -
  show ?thesis
  proof (cases "r = 0")
    case True
    then show ?thesis using assms(4,2) unfolding Flush_file_def SyncFd_def assms(1)
      by (auto simp: sys_Cons [OF assms(3)] dest: PosixError_not_ok split: Option.bind_splits)
  next
    case False
    then show ?thesis using assms(4,2) unfolding Flush_file_def SyncFd_def assms(1)
      by (auto simp: sys_Cons [OF assms(3)])
  qed
qed

theorem flush_inverts_fsync_witness:
  "\<exists>s f' k'. Flush_file (WritableFileImpl_new [] 3) \<lparr>answers = [(0, 0)], calls = [], strerror = (\<lambda>_. [])\<rparr> =
     Some (s, f', k') \<and> \<not> ok s"
proof -
  let ?k = "\<lparr>answers = [(0, 0)], calls = [], strerror = (\<lambda>_. [])\<rparr>" and ?f = "WritableFileImpl_new [] 3"
  have fb: "FlushBuffer ?f ?k = Some (OK, ?f, ?k)" by (simp add: file_defs)
  obtain s where "IOError (Slice []) (slice_of_lit []) = Some s"
    by (simp add: IOError_def Status_new_def slice_of_lit_def data_def Let_def code_defs)
  then obtain s f' k' where fl: "Flush_file ?f ?k = Some (s, f', k')"
    by (simp add: Flush_file_def SyncFd_def fb sys_Cons PosixError_def ENOENT_def) (simp add: file_defs)
  moreover have "ok s \<longleftrightarrow> (0::int) \<noteq> 0"
    using flush_inverts_fsync [OF fb ok_OK _ fl, of 0 0 "[]"] by simp
  ultimately show ?thesis by simp
qed


text \<open>C27: DoWriteStringToFile returns OK only when no sync was asked for, and then the descriptor received
  exactly the data, was closed, and the file was not removed; on every error after the file was
  opened the file is removed last, and a request to sync always ends so.\<close>

theorem write_string_to_file_outcome:
  assumes "DoWriteStringToFile sl fname should_sync k = Some (s, k')" and "calls k = []"
  shows "if ok s then \<not> should_sync \<and> (\<exists>d a b. 0 \<le> d \<and> written d k' = data sl \<and>
           other_calls k' = [(Sys_open fname, (d, a)), (Sys_close d, b)])
    else (\<exists>d a. d < 0 \<and> calls k' = [(Sys_open fname, (d, a))]) \<or>
      (\<exists>d a b c. 0 \<le> d \<and> other_calls k' = [(Sys_open fname, (d, a)), (Sys_close d, b), (Sys_unlink fname, c)])"
proof -
  obtain d a rest where as: "answers k = (d, a) # rest"
    using assms(1) by (cases "answers k") (auto simp: DoWriteStringToFile_def NewWritableFile_def sys_def)
  define k0 where "k0 = k\<lparr>answers := rest, calls := [(Sys_open fname, (d, a))]\<rparr>"
  have op: "sys (Sys_open fname) k = Some ((d, a), k0)" by (simp add: sys_Cons [OF as] k0_def assms(2))
  have o0: "other_calls k0 = [(Sys_open fname, (d, a))]" "written d k0 = []"
    by (simp_all add: k0_def other_calls_def written_def)
  show ?thesis
  proof (cases "d < 0")
    case True
    then have "\<not> ok s \<and> k' = k0" using assms(1) PosixError_not_ok [of k0 fname a]
      by (cases "PosixError k0 fname a") (auto simp: DoWriteStringToFile_def NewWritableFile_def op)
    then show ?thesis using True by (simp add: k0_def)
  next
    case False
    let ?f = "WritableFileImpl_new fname d"
    have f: "0 \<le> fd ?f" "buffer_ok ?f" "fd ?f = d" "buf ?f = []"
      using False by (simp_all add: buffer_ok_def WritableFileImpl_new_def)
    have main: "write_rest sl fname should_sync ?f k0 = Some (s, k')"
      using assms(1) False by (simp add: DoWriteStringToFile_def NewWritableFile_def op write_rest_def)
    then obtain s1 f1 k1 where ap: "Append_file sl ?f k0 = Some (s1, f1, k1)"
      by (cases "Append_file sl ?f k0") (auto simp: write_rest_def)
    show ?thesis
    proof (cases "ok s1 \<and> \<not> should_sync")
      case no: False
      from write_rest_failed [OF main f(1,2) ap no] show ?thesis using False f(3) o0(1) by auto
    next
      case yes: True
      from write_rest_closed [OF main f(1,2,4) _ ap] show ?thesis using yes False f(3) o0 by (auto split: if_splits)
    qed
  qed
qed

theorem write_string_to_file_outcome_witness:
  "\<exists>k'. DoWriteStringToFile (slice_of_lit ''hi'') (lit ''f'') False
      \<lparr>answers = [(3, 0), (2, 0), (0, 0)], calls = [], strerror = (\<lambda>_. [])\<rparr> = Some (OK, k') \<and>
    (\<exists>d. written d k' = lit ''hi'')"
proof -
  let ?k = "\<lparr>answers = [(3, 0), (2, 0), (0, 0)], calls = [], strerror = (\<lambda>_. [])\<rparr>"
  obtain k' where k': "DoWriteStringToFile (slice_of_lit ''hi'') (lit ''f'') False ?k = Some (OK, k')"
    by (simp add: file_defs sys_Cons sys_write_Cons slice_of_lit_def lit_def data_def Let_def WriteUnbuffered_Cons)
  from write_string_to_file_outcome [OF k'] have "\<exists>d. written d k' = lit ''hi''"
    by (auto simp: slice_of_lit_def data_def)
  then show ?thesis using k' by blast
qed

end
