(* ===== verification/Lock_Free_Queue.thy ===== *)
theory Lock_Free_Queue
  imports Prelude "HOL-Library.Sublist" "HOL-Library.Monad_Syntax"
begin

text \<open>
  \<^verbatim>\<open>example-lfq/main.cc\<close>: a linked queue with atomic head and tail. Nodes live in a heap of blocks; the
  code of each thread is a program counter between two accesses to shared memory, so that the
  accesses of any number of threads interleave. The accesses of \<^verbatim>\<open>head_\<close> and \<^verbatim>\<open>tail_\<close> are sequentially
  consistent, and a compare-and-swap acts on the last value; the load of \<^verbatim>\<open>next_\<close> by \<^verbatim>\<open>dequeue\<close> may still see
  the null pointer from before a compare-and-swap, which has only release order. That a value
  that is loaded has been published is shown in \<open>Lfq_Publication\<close>.
  Dereferencing or freeing a block that is not allocated sets \<open>crashed\<close>.
\<close>

section \<open>The queue and its threads\<close>

type_synonym addr = nat

record 'v node =
  value_of :: 'v
  next_of :: "addr option"

text \<open>Where a thread is: in \<^verbatim>\<open>enqueue\<close> before the allocation, before the load of the tail, before the weak
  compare-and-swap of \<^verbatim>\<open>next_\<close>, before that of the tail; in \<^verbatim>\<open>dequeue\<close> before the load of the head, of
  the next node, of its value, before the compare-and-swap of the head and before the \<^verbatim>\<open>delete\<close>.\<close>

datatype 'v lfq_pc =
    Idle
  | E_new 'v
  | E_tail addr
  | E_cas addr addr
  | E_swing addr addr
  | D_head
  | D_next addr
  | D_read addr addr
  | D_cas addr addr 'v
  | D_free addr 'v

text \<open>\<^verbatim>\<open>null_tail\<close> is a static variable: one for all threads. The last three components are observations:
  the values linked in, the values returned by \<^verbatim>\<open>dequeue\<close>, and the last result of each thread.\<close>

record 'v lfq =
  heap :: "addr \<Rightarrow> 'v node option"
  head :: addr
  tail :: addr
  null_tail :: "addr option"
  pcs :: "nat \<Rightarrow> 'v lfq_pc"
  crashed :: bool
  pushed :: "'v list"
  popped :: "'v list"
  result :: "nat \<Rightarrow> 'v option"

definition LockFreeQueue_new :: "'v \<Rightarrow> 'v lfq" where
  "LockFreeQueue_new dflt =
     \<lparr>heap = [0 \<mapsto> \<lparr>value_of = dflt, next_of = None\<rparr>], head = 0, tail = 0, null_tail = None,
      pcs = (\<lambda>_. Idle), crashed = False, pushed = [], popped = [], result = (\<lambda>_. None)\<rparr>"

definition goto :: "nat \<Rightarrow> 'v lfq_pc \<Rightarrow> 'v lfq \<Rightarrow> 'v lfq" where
  "goto i p s = s\<lparr>pcs := (pcs s)(i := p)\<rparr>"

definition crash :: "'v lfq \<Rightarrow> 'v lfq" where
  "crash s = s\<lparr>crashed := True\<rparr>"

text \<open>One access of thread \<open>i\<close>; \<open>a\<close> is the block a \<^verbatim>\<open>new\<close> gets, \<open>weak\<close> a spurious failure of the weak
  compare-and-swap, which writes the value it saw into \<^verbatim>\<open>null_tail\<close>.\<close>

definition exec_enqueue :: "nat \<Rightarrow> addr \<Rightarrow> bool \<Rightarrow> 'v lfq \<Rightarrow> 'v lfq" where
  "exec_enqueue i a weak s =
     (case pcs s i of
        E_new v \<Rightarrow> goto i (E_tail a) (s\<lparr>heap := (heap s)(a \<mapsto> \<lparr>value_of = v, next_of = None\<rparr>)\<rparr>)
      | E_tail new \<Rightarrow> goto i (E_cas new (tail s)) s
      | E_cas new old \<Rightarrow>
          (case heap s old of
             None \<Rightarrow> crash s
           | Some nd \<Rightarrow>
               if next_of nd = null_tail s \<and> \<not> weak then
                 goto i (E_swing new old)
                   (s\<lparr>heap := (heap s)(old \<mapsto> nd\<lparr>next_of := Some new\<rparr>),
                      pushed := pushed s @ (case heap s new of None \<Rightarrow> [] | Some n \<Rightarrow> [value_of n])\<rparr>)
               else goto i (E_tail new) (s\<lparr>null_tail := next_of nd\<rparr>))
      | E_swing new old \<Rightarrow> goto i Idle (if tail s = old then s\<lparr>tail := new\<rparr> else s)
      | _ \<Rightarrow> s)"

text \<open>\<open>stale\<close> is a load of \<^verbatim>\<open>next_\<close> that sees the old null pointer. A failed compare-and-swap of the head
  writes the head it saw into \<^verbatim>\<open>old_head\<close>, and that is what is deleted then.\<close>

definition exec_dequeue :: "nat \<Rightarrow> bool \<Rightarrow> 'v lfq \<Rightarrow> 'v lfq" where
  "exec_dequeue i stale s =
     (case pcs s i of
        D_head \<Rightarrow> goto i (D_next (head s)) s
      | D_next old \<Rightarrow>
          (case heap s old of
             None \<Rightarrow> crash s
           | Some nd \<Rightarrow>
               (case if stale then None else next_of nd of
                  None \<Rightarrow> goto i Idle (s\<lparr>result := (result s)(i := None)\<rparr>)
                | Some first \<Rightarrow> goto i (D_read old first) s))
      | D_read old first \<Rightarrow>
          (case heap s first of None \<Rightarrow> crash s | Some nd \<Rightarrow> goto i (D_cas old first (value_of nd)) s)
      | D_cas old first v \<Rightarrow>
          if head s = old then goto i (D_free old v) (s\<lparr>head := first\<rparr>) else goto i (D_free (head s) v) s
      | D_free old v \<Rightarrow>
          (case heap s old of
             None \<Rightarrow> crash s
           | Some nd \<Rightarrow> goto i Idle
               (s\<lparr>heap := (heap s)(old := None), popped := popped s @ [v], result := (result s)(i := Some v)\<rparr>))
      | _ \<Rightarrow> s)"

definition empty_queue :: "'v lfq \<Rightarrow> bool option" where
  "empty_queue s = map_option (\<lambda>nd. next_of nd = None) (heap s (head s))"

partial_function (option) free_from :: "addr option \<Rightarrow> (addr \<Rightarrow> 'v node option) \<Rightarrow> (addr \<Rightarrow> 'v node option) option" where
  "free_from p h =
     (case p of
        None \<Rightarrow> Some h
      | Some a \<Rightarrow> (case h a of None \<Rightarrow> None | Some nd \<Rightarrow> free_from (next_of nd) (h(a := None))))"

definition LockFreeQueue_dtor :: "'v lfq \<Rightarrow> (addr \<Rightarrow> 'v node option) option" where
  "LockFreeQueue_dtor s = free_from (Some (head s)) (heap s)"

text \<open>Threads in \<open>E\<close> may call \<^verbatim>\<open>enqueue\<close>, threads in \<open>D\<close> \<^verbatim>\<open>dequeue\<close>.\<close>

inductive lfq_step :: "nat set \<Rightarrow> nat set \<Rightarrow> 'v lfq \<Rightarrow> 'v lfq \<Rightarrow> bool" for E D where
  call_enqueue: "i \<in> E \<Longrightarrow> pcs s i = Idle \<Longrightarrow> lfq_step E D s (goto i (E_new v) s)"
| call_dequeue: "i \<in> D \<Longrightarrow> pcs s i = Idle \<Longrightarrow> lfq_step E D s (goto i D_head s)"
| step_enqueue: "i \<in> E \<Longrightarrow> heap s a = None \<Longrightarrow> lfq_step E D s (exec_enqueue i a weak s)"
| step_dequeue: "i \<in> D \<Longrightarrow> lfq_step E D s (exec_dequeue i stale s)"

definition lfq_init :: "'v lfq \<Rightarrow> bool" where
  "lfq_init s \<longleftrightarrow> (\<exists>dflt. s = LockFreeQueue_new dflt)"

section \<open>Calls of a single thread\<close>

text \<open>A call that is not interleaved: the accesses of the thread until it is idle. Four accesses make an
  \<^verbatim>\<open>enqueue\<close> whose first compare-and-swap succeeds, at most five a \<^verbatim>\<open>dequeue\<close>.\<close>

definition enqueue :: "nat \<Rightarrow> addr \<Rightarrow> 'v \<Rightarrow> 'v lfq \<Rightarrow> 'v lfq" where
  "enqueue i a v s = (exec_enqueue i a False ^^ 4) (goto i (E_new v) s)"

definition dequeue :: "nat \<Rightarrow> 'v lfq \<Rightarrow> 'v option \<times> 'v lfq" where
  "dequeue i s = (let s' = (exec_dequeue i False ^^ 5) (goto i D_head s) in (result s' i, s'))"

lemmas exec_defs = exec_enqueue_def exec_dequeue_def goto_def crash_def

section \<open>Linked nodes\<close>

fun linked :: "(addr \<Rightarrow> 'v node option) \<Rightarrow> addr list \<Rightarrow> bool" where
  "linked h [] \<longleftrightarrow> False"
| "linked h [a] \<longleftrightarrow> (\<exists>nd. h a = Some nd \<and> next_of nd = None)"
| "linked h (a # b # ns) \<longleftrightarrow> (\<exists>nd. h a = Some nd \<and> next_of nd = Some b) \<and> linked h (b # ns)"

definition vals :: "(addr \<Rightarrow> 'v node option) \<Rightarrow> addr list \<Rightarrow> 'v list" where
  "vals h ns = map (\<lambda>a. value_of (the (h a))) ns"

definition fresh_node :: "(addr \<Rightarrow> 'v node option) \<Rightarrow> addr \<Rightarrow> bool" where
  "fresh_node h n \<longleftrightarrow> (\<exists>nd. h n = Some nd \<and> next_of nd = None)"

lemma vals_simps [simp]: "vals h [] = []" "vals h (a # ns) = value_of (the (h a)) # vals h ns"
    "vals h (ns @ ms) = vals h ns @ vals h ms"
  by (simp_all add: vals_def)

lemma vals_other: "a \<notin> set ns \<Longrightarrow> vals (h(a := x)) ns = vals h ns"
  by (auto simp: vals_def)

lemma vals_next: "h a = Some nd \<Longrightarrow> vals (h(a \<mapsto> nd\<lparr>next_of := p\<rparr>)) ns = vals h ns"
  by (auto simp: vals_def)

lemma linked_other: "a \<notin> set ns \<Longrightarrow> linked (h(a := x)) ns = linked h ns"
  by (induction h ns rule: linked.induct) auto

lemma linked_nonempty: "linked h ns \<Longrightarrow> ns \<noteq> []"
  by (cases ns) auto

lemma linked_alloc: "linked h ns \<Longrightarrow> a \<in> set ns \<Longrightarrow> h a \<noteq> None"
  by (induction h ns rule: linked.induct) auto

lemma linked_last: "linked h ns \<Longrightarrow> fresh_node h (last ns)"
  by (induction h ns rule: linked.induct) (auto simp: fresh_node_def)

lemma linked_hd: "linked h (a # ms) \<Longrightarrow>
    \<exists>nd. h a = Some nd \<and> next_of nd = (case ms of [] \<Rightarrow> None | b # _ \<Rightarrow> Some b)"
  by (cases ms) auto

lemma in_tlD: "a \<in> set (List.tl ns) \<Longrightarrow> a \<in> set ns"
  by (cases ns) auto

lemma linked_tl: "linked h (a # b # ns) \<Longrightarrow> linked h (b # ns)"
  by simp

lemma linked_snoc:
  "linked h ns \<Longrightarrow> distinct ns \<Longrightarrow> h (last ns) = Some nd \<Longrightarrow> a \<notin> set ns \<Longrightarrow> fresh_node h a \<Longrightarrow>
     linked (h(last ns \<mapsto> nd\<lparr>next_of := Some a\<rparr>)) (ns @ [a])"
proof (induction h ns rule: linked.induct)
  case (3 h b c ns)
  then show ?case by auto
qed (auto simp: fresh_node_def)

section \<open>One producer and one consumer\<close>

fun prod_nodes :: "'v lfq_pc \<Rightarrow> addr set" where
  "prod_nodes (E_tail n) = {n}"
| "prod_nodes (E_cas n old) = {n}"
| "prod_nodes _ = {}"

fun cons_nodes :: "'v lfq_pc \<Rightarrow> addr set" where
  "cons_nodes (D_free h v) = {h}"
| "cons_nodes _ = {}"

fun unlinked_values :: "'v lfq_pc \<Rightarrow> 'v list" where
  "unlinked_values (D_free h v) = [v]"
| "unlinked_values _ = []"

fun prod_ok :: "(addr \<Rightarrow> 'v node option) \<Rightarrow> addr \<Rightarrow> addr list \<Rightarrow> 'v lfq_pc \<Rightarrow> bool" where
  "prod_ok h t ns Idle \<longleftrightarrow> t = last ns"
| "prod_ok h t ns (E_new v) \<longleftrightarrow> t = last ns"
| "prod_ok h t ns (E_tail n) \<longleftrightarrow> t = last ns \<and> n \<notin> set ns \<and> fresh_node h n"
| "prod_ok h t ns (E_cas n old) \<longleftrightarrow> t = last ns \<and> n \<notin> set ns \<and> fresh_node h n \<and> old = last ns"
| "prod_ok h t ns (E_swing n old) \<longleftrightarrow> t = old \<and> n = last ns"
| "prod_ok h t ns _ \<longleftrightarrow> False"

fun cons_ok :: "(addr \<Rightarrow> 'v node option) \<Rightarrow> addr list \<Rightarrow> 'v lfq_pc \<Rightarrow> bool" where
  "cons_ok h ns Idle \<longleftrightarrow> True"
| "cons_ok h ns D_head \<longleftrightarrow> True"
| "cons_ok h ns (D_next o1) \<longleftrightarrow> o1 = hd ns"
| "cons_ok h ns (D_read o1 f) \<longleftrightarrow> (\<exists>ms. ns = o1 # f # ms)"
| "cons_ok h ns (D_cas o1 f v) \<longleftrightarrow> (\<exists>ms. ns = o1 # f # ms) \<and> v = value_of (the (h f))"
| "cons_ok h ns (D_free o1 v) \<longleftrightarrow> o1 \<notin> set ns \<and> h o1 \<noteq> None"
| "cons_ok h ns _ \<longleftrightarrow> False"

definition queue_inv :: "addr list \<Rightarrow> 'v lfq \<Rightarrow> bool" where
  "queue_inv ns s \<longleftrightarrow>
     linked (heap s) ns \<and> distinct ns \<and> hd ns = head s \<and> \<not> crashed s \<and> null_tail s = None \<and>
     popped s @ unlinked_values (pcs s 1) @ vals (heap s) (List.tl ns) = pushed s \<and>
     (\<forall>a. heap s a \<noteq> None \<longleftrightarrow> a \<in> set ns \<or> a \<in> prod_nodes (pcs s 0) \<or> a \<in> cons_nodes (pcs s 1)) \<and>
     prod_nodes (pcs s 0) \<inter> cons_nodes (pcs s 1) = {} \<and>
     prod_ok (heap s) (tail s) ns (pcs s 0) \<and> cons_ok (heap s) ns (pcs s 1)"

definition spsc_inv :: "'v lfq \<Rightarrow> bool" where
  "spsc_inv s \<longleftrightarrow> (\<exists>ns. queue_inv ns s)"

lemma queue_inv_new: "queue_inv [0] (LockFreeQueue_new d)"
  by (auto simp: queue_inv_def LockFreeQueue_new_def)

lemma producer_keeps_inv:
  assumes inv: "queue_inv ns s" and free: "\<And>v. pcs s 0 = E_new v \<Longrightarrow> heap s a = None"
  shows "\<exists>ns'. queue_inv ns' (exec_enqueue 0 a weak s)"
proof (cases "pcs s 0")
  case (E_new v)
  have "a \<notin> set ns" "a \<notin> cons_nodes (pcs s 1)" using inv free [OF E_new] unfolding queue_inv_def by blast+
  moreover have "cons_ok ((heap s)(a := x)) ns (pcs s 1)" for x
    using inv calculation by (cases "pcs s 1") (auto simp: queue_inv_def)
  moreover have "vals ((heap s)(a := x)) (List.tl ns) = vals (heap s) (List.tl ns)" for x
    using calculation(1) by (intro vals_other) (auto dest: in_tlD)
  ultimately show ?thesis using inv E_new free [OF E_new]
    by (intro exI [of _ ns])
      (auto simp: queue_inv_def exec_defs linked_other fresh_node_def)
next
  case (E_tail n)
  then show ?thesis using inv by (intro exI [of _ ns]) (simp add: queue_inv_def exec_defs)
next
  case (E_cas n old)
  then have f: "linked (heap s) ns" "distinct ns" "old = last ns" "n \<notin> set ns" "fresh_node (heap s) n"
      "null_tail s = None" "n \<notin> cons_nodes (pcs s 1)"
    using inv by (auto simp: queue_inv_def)
  obtain nd where nd: "heap s old = Some nd" "next_of nd = None"
    using linked_last [OF f(1)] f(3) by (auto simp: fresh_node_def)
  show ?thesis
  proof (cases weak)
    case True
    then show ?thesis using inv E_cas nd by (intro exI [of _ ns]) (simp add: queue_inv_def exec_defs)
  next
    case False
    obtain nn where nn: "heap s n = Some nn" using f(5) by (auto simp: fresh_node_def)
    define h' where "h' = (heap s)(old \<mapsto> nd\<lparr>next_of := Some n\<rparr>)"
    have l: "linked h' (ns @ [n])" unfolding h'_def f(3)
      using linked_snoc [OF f(1,2) _ f(4,5)] nd(1) f(3) by simp
    have ne: "ns \<noteq> []" using f(1) by (rule linked_nonempty)
    have old: "old \<in> set ns" using f(3) ne by simp
    have v: "vals h' ms = vals (heap s) ms" for ms unfolding h'_def using nd(1) by (rule vals_next)
    have c: "cons_ok h' (ns @ [n]) (pcs s 1)"
      using inv ne f(4,7) v [of "[x]" for x] by (cases "pcs s 1") (auto simp: queue_inv_def h'_def nd(1))
    have "h' b = None \<longleftrightarrow> heap s b = None" for b using nd(1) by (auto simp: h'_def)
    moreover have "exec_enqueue 0 a weak s = goto 0 (E_swing n old) (s\<lparr>heap := h', pushed := pushed s @ [value_of nn]\<rparr>)"
      using E_cas False nd nn f(6) by (simp add: exec_enqueue_def h'_def)
    moreover have "value_of (the (h' n)) = value_of nn" using v [of "[n]"] nn by simp
    ultimately show ?thesis using inv E_cas l c f v ne
      by (intro exI [of _ "ns @ [n]"]) (auto simp: queue_inv_def goto_def)
  qed
next
  case (E_swing n old)
  then show ?thesis using inv by (intro exI [of _ ns]) (simp add: queue_inv_def exec_defs)
qed (use inv in \<open>auto simp: exec_defs\<close>)

lemma consumer_goto:
  assumes "queue_inv ns s" "cons_ok (heap s) ns p" "cons_nodes p = {}" "unlinked_values p = []"
    "cons_nodes (pcs s 1) = {}" "unlinked_values (pcs s 1) = []"
  shows "queue_inv ns (goto 1 p s)"
  using assms unfolding queue_inv_def goto_def by simp

lemma queue_inv_result: "queue_inv ns (s\<lparr>result := r\<rparr>) = queue_inv ns s"
  unfolding queue_inv_def by simp

lemma consumer_reads_next:
  assumes inv: "queue_inv ns s" and D_next: "pcs s 1 = D_next o1"
  shows "\<exists>ns'. queue_inv ns' (exec_dequeue 1 stale s)"
proof -
  have o1: "o1 = hd ns" "linked (heap s) ns" using inv D_next by (auto simp: queue_inv_def)
  then obtain ms where ms: "ns = o1 # ms" by (cases ns) auto
  then obtain nd where nd: "heap s o1 = Some nd" "next_of nd = (case ms of [] \<Rightarrow> None | b # _ \<Rightarrow> Some b)"
    using linked_hd [of "heap s" o1 ms] o1(2) by auto
  show ?thesis
  proof (cases "stale \<or> ms = []")
    case True
    have e: "exec_dequeue 1 stale s = goto 1 Idle (s\<lparr>result := (result s)(1 := None)\<rparr>)"
      using nd True by (auto simp: exec_dequeue_def D_next simp del: One_nat_def)
    have i: "queue_inv ns (s\<lparr>result := (result s)(1 := None)\<rparr>)" using inv by (simp only: queue_inv_result)
    show ?thesis unfolding e using consumer_goto [OF i, of Idle] D_next by auto
  next
    case False
    then obtain f ms' where Cons: "ms = f # ms'" by (cases ms) auto
    have e: "exec_dequeue 1 stale s = goto 1 (D_read o1 f) s" using nd Cons False by (simp add: exec_dequeue_def D_next del: One_nat_def)
    show ?thesis unfolding e using consumer_goto [OF inv, of "D_read o1 f"] D_next ms Cons by auto
  qed
qed

lemma consumer_keeps_inv:
  assumes inv: "queue_inv ns s"
  shows "\<exists>ns'. queue_inv ns' (exec_dequeue 1 stale s)"
proof (cases "pcs s 1")
  case D_head
  have "exec_dequeue 1 stale s = goto 1 (D_next (head s)) s" by (simp add: exec_dequeue_def D_head del: One_nat_def)
  moreover have "hd ns = head s" using inv by (simp add: queue_inv_def)
  ultimately show ?thesis using consumer_goto [OF inv, of "D_next (head s)"] D_head by auto
next
  case (D_next o1)
  then show ?thesis by (rule consumer_reads_next [OF inv])
next
  case (D_read o1 f)
  then obtain ms where ms: "ns = o1 # f # ms" using inv by (auto simp: queue_inv_def)
  then obtain nd where "heap s f = Some nd" using inv linked_alloc [of "heap s" ns f] by (auto simp: queue_inv_def)
  then have e: "exec_dequeue 1 stale s = goto 1 (D_cas o1 f (value_of (the (heap s f)))) s"
    by (simp add: exec_dequeue_def D_read del: One_nat_def)
  show ?thesis unfolding e using consumer_goto [OF inv, of "D_cas o1 f (value_of (the (heap s f)))"] D_read ms by auto
next
  case (D_cas o1 f v)
  then obtain ms where ms: "ns = o1 # f # ms" using inv by (auto simp: queue_inv_def)
  have "prod_ok (heap s) (tail s) (f # ms) (pcs s 0)"
    using inv ms by (cases "pcs s 0") (auto simp: queue_inv_def)
  moreover have "heap s o1 \<noteq> None" using inv ms by (auto simp: queue_inv_def)
  moreover have "o1 \<notin> prod_nodes (pcs s 0)" using inv ms by (cases "pcs s 0") (auto simp: queue_inv_def)
  ultimately show ?thesis using inv D_cas ms
    by (intro exI [of _ "f # ms"]) (auto simp: queue_inv_def exec_defs)
next
  case (D_free o1 v)
  then have o1: "o1 \<notin> set ns" "heap s o1 \<noteq> None" "o1 \<notin> prod_nodes (pcs s 0)" using inv by (auto simp: queue_inv_def)
  have "prod_ok ((heap s)(o1 := None)) (tail s) ns (pcs s 0)"
    using inv o1(3) by (cases "pcs s 0") (auto simp: queue_inv_def fresh_node_def)
  moreover have "vals ((heap s)(o1 := None)) (List.tl ns) = vals (heap s) (List.tl ns)"
    using o1(1) by (intro vals_other) (auto dest: in_tlD)
  ultimately show ?thesis using inv D_free o1
    by (intro exI [of _ ns]) (auto simp: queue_inv_def exec_defs linked_other)
qed (use inv in \<open>auto simp: exec_defs\<close>)


lemma spsc_step:
  assumes "lfq_step {0} {1} s t" "spsc_inv s"
  shows "spsc_inv t"
proof -
  obtain ns where ns: "queue_inv ns s" using assms(2) by (auto simp: spsc_inv_def)
  show ?thesis using assms(1)
  proof cases
    case (call_enqueue i v)
    then have "pcs s 0 = Idle" "t = goto 0 (E_new v) s" by simp_all
    then have "queue_inv ns t" using ns unfolding queue_inv_def goto_def by simp
    then show ?thesis by (auto simp: spsc_inv_def)
  next
    case (call_dequeue i)
    then show ?thesis using consumer_goto [OF ns, of D_head] by (auto simp: spsc_inv_def)
  next
    case (step_enqueue i a weak)
    then show ?thesis using producer_keeps_inv [OF ns, of a weak] by (auto simp: spsc_inv_def)
  next
    case (step_dequeue i stale)
    then show ?thesis using consumer_keeps_inv [OF ns] by (auto simp: spsc_inv_def)
  qed
qed

interpretation spsc: inductive_invariant lfq_init "lfq_step {0} {1}" spsc_inv
proof unfold_locales
  fix s :: "'a lfq" assume "lfq_init s"
  then obtain d where "s = LockFreeQueue_new d" by (auto simp: lfq_init_def)
  then show "spsc_inv s" unfolding spsc_inv_def by (simp add: exI [of _ "[0]"] queue_inv_new)
qed (rule spsc_step)

lemma free_from_linked:
  "linked h ns \<Longrightarrow> distinct ns \<Longrightarrow> free_from (Some (hd ns)) h = Some (\<lambda>a. if a \<in> set ns then None else h a)"
proof (induction ns arbitrary: h)
  case (Cons a ms)
  obtain nd where nd: "h a = Some nd" "next_of nd = (case ms of [] \<Rightarrow> None | b # _ \<Rightarrow> Some b)"
    using linked_hd Cons.prems(1) by blast
  show ?case
  proof (cases ms)
    case Nil
    then show ?thesis using nd by (subst free_from.simps) (simp add: free_from.simps fun_eq_iff)
  next
    case (Cons b ms')
    have "linked (h(a := None)) ms"
      using Cons.prems linked_other [of a ms h None] Cons by simp
    then have "free_from (Some b) (h(a := None)) = Some (\<lambda>x. if x \<in> set ms then None else (h(a := None)) x)"
      using Cons.IH Cons.prems(2) Cons by fastforce
    then show ?thesis using nd Cons by (subst free_from.simps) (auto simp: fun_eq_iff)
  qed
qed simp

section \<open>Calls that are not interleaved\<close>

lemma enqueue_effect:
  assumes "queue_inv ns s" "pcs s 0 = Idle" "heap s a = None" and s'_def: "s' = enqueue 0 a v s"
  shows "\<exists>ns'. queue_inv ns' s'" and "pcs s' 0 = Idle" "pcs s' 1 = pcs s 1" "pushed s' = pushed s @ [v]"
    "popped s' = popped s" "\<And>b. heap s b = None \<Longrightarrow> b \<noteq> a \<Longrightarrow> heap s' b = None"
proof -
  let ?n = "\<lparr>value_of = v, next_of = None\<rparr>"
  obtain nd where nd: "heap s (tail s) = Some nd" "next_of nd = None" "null_tail s = None"
    using assms(1,2) linked_last [of "heap s" ns] by (auto simp: queue_inv_def fresh_node_def)
  then have ta: "tail s \<noteq> a" using assms(3) by auto
  let ?s0 = "goto 0 (E_new v) s"
  let ?x = "exec_enqueue 0 a False"
  have i0: "queue_inv ns ?s0" "heap ?s0 a = None"
    using assms(1-3) unfolding queue_inv_def goto_def by simp_all
  define s1 where "s1 = s\<lparr>heap := (heap s)(a \<mapsto> ?n), pcs := (pcs s)(0 := E_tail a)\<rparr>"
  define s2 where "s2 = s1\<lparr>pcs := (pcs s)(0 := E_cas a (tail s))\<rparr>"
  define s3 where "s3 = s2\<lparr>heap := (heap s)(a \<mapsto> ?n, tail s \<mapsto> nd\<lparr>next_of := Some a\<rparr>),
      pushed := pushed s @ [v], pcs := (pcs s)(0 := E_swing a (tail s))\<rparr>"
  have x1: "?x ?s0 = s1" by (simp add: exec_enqueue_def goto_def s1_def)
  have x2: "?x s1 = s2" by (simp add: exec_enqueue_def goto_def s1_def s2_def)
  have x3: "?x s2 = s3" using nd ta by (simp add: exec_enqueue_def goto_def s1_def s2_def s3_def)
  have x4: "?x s3 = s3\<lparr>tail := a, pcs := (pcs s)(0 := Idle)\<rparr>"
    by (simp add: exec_enqueue_def goto_def s1_def s2_def s3_def)
  have s': "s' = ?x s3"
    unfolding s'_def enqueue_def by (simp add: eval_nat_numeral x1 x2 x3)
  obtain n1 where n1: "queue_inv n1 s1" using producer_keeps_inv [OF i0(1), of a False] i0(2) unfolding x1 by blast
  obtain n2 where n2: "queue_inv n2 s2"
    using producer_keeps_inv [OF n1, of a False] unfolding x2 by (auto simp: s1_def)
  obtain n3 where n3: "queue_inv n3 s3"
    using producer_keeps_inv [OF n2, of a False] unfolding x3 by (auto simp: s2_def)
  show "\<exists>ns'. queue_inv ns' s'"
    using producer_keeps_inv [OF n3, of a False] unfolding s' by (auto simp: s3_def)
  show "pcs s' 0 = Idle" "pcs s' 1 = pcs s 1" "pushed s' = pushed s @ [v]" "popped s' = popped s"
    "\<And>b. heap s b = None \<Longrightarrow> b \<noteq> a \<Longrightarrow> heap s' b = None"
    unfolding s' x4 using nd ta by (auto simp: s1_def s2_def s3_def)
qed

lemma dequeue_effect:
  assumes "queue_inv ns s" "pcs s 0 = Idle" "pcs s 1 = Idle" "dequeue 1 s = (r, s')"
  shows "\<exists>ns'. queue_inv ns' s'" and "pcs s' 0 = Idle" "pcs s' 1 = Idle" "pushed s' = pushed s"
    "\<And>b. heap s b = None \<Longrightarrow> heap s' b = None"
    "(popped s = pushed s \<and> r = None \<and> popped s' = popped s) \<or>
     (\<exists>v. r = Some v \<and> popped s' = popped s @ [v])"
proof -
  let ?s0 = "goto 1 D_head s" and ?x = "exec_dequeue 1 False"
  have s': "s' = (?x ^^ 5) ?s0" "r = result s' 1" using assms(4) unfolding dequeue_def Let_def by auto
  have "queue_inv ns ?s0" using consumer_goto [OF assms(1), of D_head] assms(3) by simp
  then have "\<exists>ns'. queue_inv ns' ((?x ^^ k) ?s0)" for k
    using consumer_keeps_inv by (induction k) auto
  then show "\<exists>ns'. queue_inv ns' s'" unfolding s' .
  have five: "(?x ^^ 5) u = ?x (?x (?x (?x (?x u))))" for u :: "'a lfq" by (simp add: eval_nat_numeral)
  have q: "linked (heap s) ns" "hd ns = head s" "distinct ns" "popped s @ vals (heap s) (List.tl ns) = pushed s"
    using assms(1,3) by (auto simp: queue_inv_def)
  then obtain ms where ms: "ns = head s # ms" using linked_nonempty by (cases ns) auto
  then obtain nd where nd: "heap s (head s) = Some nd" "next_of nd = (case ms of [] \<Rightarrow> None | b # _ \<Rightarrow> Some b)"
    using linked_hd q(1) by blast
  have h: "?x ?s0 = goto 1 (D_next (head s)) s" by (simp add: exec_dequeue_def goto_def)
  have "pcs s' 0 = Idle \<and> pcs s' 1 = Idle \<and> pushed s' = pushed s \<and> (\<forall>b. heap s b = None \<longrightarrow> heap s' b = None) \<and>
    ((popped s = pushed s \<and> r = None \<and> popped s' = popped s) \<or> (\<exists>v. r = Some v \<and> popped s' = popped s @ [v]))"
  proof (cases ms)
    case Nil
    have idle: "?x (goto 1 Idle u) = goto 1 Idle u" for u :: "'a lfq" by (simp add: exec_dequeue_def goto_def)
    have "?x (goto 1 (D_next (head s)) s) = goto 1 Idle (s\<lparr>result := (result s)(1 := None)\<rparr>)"
      using nd Nil by (simp add: exec_dequeue_def goto_def)
    then have "s' = goto 1 Idle (s\<lparr>result := (result s)(1 := None)\<rparr>)" unfolding s'(1) five h by (simp only: idle)
    then show ?thesis using assms(2) q(4) ms Nil by (simp add: s'(2) goto_def)
  next
    case (Cons f ms')
    then obtain nf where nf: "heap s f = Some nf" using linked_alloc [OF q(1), of f] ms by auto
    have a2: "?x (goto 1 (D_next (head s)) s) = goto 1 (D_read (head s) f) s"
      using nd Cons by (simp add: exec_dequeue_def goto_def)
    have a3: "?x (goto 1 (D_read (head s) f) s) = goto 1 (D_cas (head s) f (value_of nf)) s"
      using nf by (simp add: exec_dequeue_def goto_def)
    have a4: "?x (goto 1 (D_cas (head s) f (value_of nf)) s) = goto 1 (D_free (head s) (value_of nf)) (s\<lparr>head := f\<rparr>)"
      by (simp add: exec_dequeue_def goto_def)
    have a5: "?x (goto 1 (D_free (head s) (value_of nf)) (s\<lparr>head := f\<rparr>)) =
        goto 1 Idle (s\<lparr>head := f, heap := (heap s)(head s := None), popped := popped s @ [value_of nf],
          result := (result s)(1 := Some (value_of nf))\<rparr>)"
      using nd(1) by (simp add: exec_dequeue_def goto_def)
    show ?thesis using assms(2) unfolding s' five h a2 a3 a4 a5 by (simp add: goto_def)
  qed
  then show "pcs s' 0 = Idle" "pcs s' 1 = Idle" "pushed s' = pushed s"
    "\<And>b. heap s b = None \<Longrightarrow> heap s' b = None"
    "(popped s = pushed s \<and> r = None \<and> popped s' = popped s) \<or> (\<exists>v. r = Some v \<and> popped s' = popped s @ [v])"
    by blast+
qed

text \<open>Calls of \<^verbatim>\<open>enqueue\<close> by thread 0 and of \<^verbatim>\<open>dequeue\<close> by thread 1, with the blocks above a bound free.\<close>

type_synonym 'v seq_queue = "addr \<times> 'v lfq"

definition seq_enq :: "'v \<Rightarrow> 'v seq_queue \<Rightarrow> 'v seq_queue option" where
  "seq_enq v q = (case q of (b, s) \<Rightarrow> Some (Suc b, enqueue 0 b v s))"

definition seq_deq :: "'v seq_queue \<Rightarrow> ('v option \<times> 'v seq_queue) option" where
  "seq_deq q = (case q of (b, s) \<Rightarrow> (case dequeue 1 s of (r, s') \<Rightarrow> Some (r, (b, s'))))"

definition seq_items :: "'v seq_queue \<Rightarrow> 'v list" where
  "seq_items q = drop (length (popped (snd q))) (pushed (snd q))"

definition seq_wf :: "'v seq_queue \<Rightarrow> bool" where
  "seq_wf q \<longleftrightarrow> spsc_inv (snd q) \<and> pcs (snd q) 0 = Idle \<and> pcs (snd q) 1 = Idle \<and> (\<forall>a\<ge>fst q. heap (snd q) a = None)"

lemma spsc_prefix: "spsc_inv s \<Longrightarrow> prefix (popped s) (pushed s)"
  unfolding spsc_inv_def queue_inv_def by (metis prefixI)

interpretation lfq_fifo: fifo_queue seq_enq seq_deq seq_items seq_wf "\<lambda>_ _. True"
proof unfold_locales
  fix q :: "'v seq_queue" and x :: 'v
  assume wf: "seq_wf q"
  obtain b s where q: "q = (b, s)" by (cases q)
  obtain ns where ns: "queue_inv ns s" "pcs s 0 = Idle" "pcs s 1 = Idle" "\<forall>a\<ge>b. heap s a = None"
    using wf by (auto simp: seq_wf_def spsc_inv_def q)
  note eff = enqueue_effect [OF ns(1,2) _ refl, where a = b and v = x]
  have "length (popped s) \<le> length (pushed s)"
    using wf spsc_prefix [of s] by (auto simp: seq_wf_def q dest: prefix_length_le)
  then show "\<exists>q'. seq_enq x q = Some q' \<and> seq_wf q' \<and> seq_items q' = seq_items q @ [x] \<and> (\<lambda>_. True) = (\<lambda>_. True)"
    using eff ns(3,4) by (simp add: seq_enq_def q seq_wf_def seq_items_def spsc_inv_def)
next
  fix q :: "'v seq_queue" and x :: 'v and xs :: "'v list"
  assume wf: "seq_wf q" and items: "seq_items q = x # xs"
  obtain b s where q: "q = (b, s)" by (cases q)
  obtain r s' where d: "dequeue 1 s = (r, s')" by (cases "dequeue 1 s")
  obtain ns where ns: "queue_inv ns s" "pcs s 0 = Idle" "pcs s 1 = Idle" "\<forall>a\<ge>b. heap s a = None"
    using wf by (auto simp: seq_wf_def spsc_inv_def q)
  note eff = dequeue_effect [OF ns(1-3) d]
  have p: "popped s \<noteq> pushed s" using items by (auto simp: seq_items_def q)
  then obtain v where v: "r = Some v" "popped s' = popped s @ [v]" using eff(6) by blast
  have inv: "spsc_inv s'" using eff(1) by (auto simp: spsc_inv_def)
  obtain rest where "pushed s = popped s @ v # rest" using spsc_prefix [OF inv] eff(4) v(2) by (auto simp: prefix_def)
  then have "v = x" "seq_items (b, s') = xs" using items v(2) eff(4) by (simp_all add: seq_items_def q)
  then show "\<exists>q'. seq_deq q = Some (Some x, q') \<and> seq_wf q' \<and> seq_items q' = xs \<and> (\<lambda>_. True) = (\<lambda>_. True)"
    using inv eff(2,3,5) ns(4) v(1)
    by (intro exI [of _ "(b, s')"]) (simp add: seq_deq_def q d [unfolded One_nat_def] seq_wf_def)
qed


lemma queue_inv_empty:
  assumes "queue_inv ns s" "pcs s 1 = Idle"
  shows "empty_queue s = Some (popped s = pushed s)"
proof -
  have q: "linked (heap s) ns" "hd ns = head s" using assms(1) by (auto simp: queue_inv_def)
  then obtain ms where ms: "ns = head s # ms" using linked_nonempty by (cases ns) auto
  have items: "popped s @ vals (heap s) ms = pushed s" using assms ms by (auto simp: queue_inv_def)
  obtain nd where "heap s (head s) = Some nd" "next_of nd = (case ms of [] \<Rightarrow> None | b # _ \<Rightarrow> Some b)"
    using linked_hd q(1) unfolding ms by blast
  moreover have "popped s = pushed s \<longleftrightarrow> ms = []" using items by (auto simp: vals_def)
  ultimately show ?thesis by (cases ms) (simp_all add: empty_queue_def)
qed

lemma seq_empty: "seq_wf q \<Longrightarrow> empty_queue (snd q) = Some (seq_items q = [])"
proof -
  assume wf: "seq_wf q"
  then obtain ns where "queue_inv ns (snd q)" "pcs (snd q) 1 = Idle" by (auto simp: seq_wf_def spsc_inv_def)
  then have "empty_queue (snd q) = Some (popped (snd q) = pushed (snd q))" by (rule queue_inv_empty)
  moreover obtain rest where rest: "pushed (snd q) = popped (snd q) @ rest"
    using wf spsc_prefix [of "snd q"] by (auto simp: seq_wf_def prefix_def)
  then have "seq_items q = rest" "popped (snd q) = pushed (snd q) \<longleftrightarrow> rest = []" by (simp_all add: seq_items_def)
  ultimately show ?thesis by simp
qed

lemma seq_new: "seq_wf (1, LockFreeQueue_new d)" "seq_items (1, LockFreeQueue_new d) = []"
  using queue_inv_new [of d]
  by (auto simp: seq_wf_def seq_items_def spsc_inv_def LockFreeQueue_new_def)

definition TestLFQFunctional :: "unit option" where
  "TestLFQFunctional =
     do { lfq \<leftarrow> seq_enq 1 (1, LockFreeQueue_new (0::int));
          lfq \<leftarrow> seq_enq 2 lfq;
          lfq \<leftarrow> seq_enq 3 lfq;
          lfq \<leftarrow> seq_enq 4 lfq;
          e \<leftarrow> empty_queue (snd lfq);
          assert_that (\<not> e);
          (v, lfq) \<leftarrow> seq_deq lfq;
          assert_that (v = Some 1);
          (v, lfq) \<leftarrow> seq_deq lfq;
          assert_that (v = Some 2);
          (v, lfq) \<leftarrow> seq_deq lfq;
          assert_that (v = Some 3);
          (v, lfq) \<leftarrow> seq_deq lfq;
          assert_that (v = Some 4);
          e \<leftarrow> empty_queue (snd lfq);
          assert_that e }"

lemma TestLFQFunctional_passes: "TestLFQFunctional = Some ()"
proof -
  let ?q0 = "(1, LockFreeQueue_new (0::int))"
  obtain q1 where q1: "seq_enq 1 ?q0 = Some q1" "seq_wf q1" "seq_items q1 = [1]"
    using lfq_fifo.enq_items [OF seq_new(1) TrueI, of 1 0, unfolded seq_new(2) append_Nil] by blast
  obtain q2 where q2: "seq_enq 2 q1 = Some q2" "seq_wf q2" "seq_items q2 = [1, 2]"
    using lfq_fifo.enq_items [OF q1(2) TrueI, of 2] q1(3) by auto
  obtain q3 where q3: "seq_enq 3 q2 = Some q3" "seq_wf q3" "seq_items q3 = [1, 2, 3]"
    using lfq_fifo.enq_items [OF q2(2) TrueI, of 3] q2(3) by auto
  obtain q4 where q4: "seq_enq 4 q3 = Some q4" "seq_wf q4" "seq_items q4 = [1, 2, 3, 4]"
    using lfq_fifo.enq_items [OF q3(2) TrueI, of 4] q3(3) by auto
  obtain r1 where r1: "seq_deq q4 = Some (Some 1, r1)" "seq_wf r1" "seq_items r1 = [2, 3, 4]"
    using lfq_fifo.deq_items [OF q4(2,3)] by auto
  obtain r2 where r2: "seq_deq r1 = Some (Some 2, r2)" "seq_wf r2" "seq_items r2 = [3, 4]"
    using lfq_fifo.deq_items [OF r1(2,3)] by auto
  obtain r3 where r3: "seq_deq r2 = Some (Some 3, r3)" "seq_wf r3" "seq_items r3 = [4]"
    using lfq_fifo.deq_items [OF r2(2,3)] by auto
  obtain r4 where r4: "seq_deq r3 = Some (Some 4, r4)" "seq_wf r4" "seq_items r4 = []"
    using lfq_fifo.deq_items [OF r3(2,3)] by auto
  show ?thesis
    unfolding TestLFQFunctional_def
    by (simp only: q1 q2 q3 q4 r1 r2 r3 r4 seq_empty [OF q4(2)] seq_empty [OF r4(2)] bind.simps prod.case)
      (simp add: assert_that_def)
qed

section \<open>Schedules\<close>

text \<open>A schedule is a list of calls and accesses of threads; it is refused where a step is not allowed.\<close>

datatype 'v event = Call_E nat 'v | Call_D nat | Acc_E nat addr bool | Acc_D nat bool

fun event_ok :: "nat set \<Rightarrow> nat set \<Rightarrow> 'v event \<Rightarrow> 'v lfq \<Rightarrow> bool" where
  "event_ok E D (Call_E i v) s \<longleftrightarrow> i \<in> E \<and> (case pcs s i of Idle \<Rightarrow> True | _ \<Rightarrow> False)"
| "event_ok E D (Call_D i) s \<longleftrightarrow> i \<in> D \<and> (case pcs s i of Idle \<Rightarrow> True | _ \<Rightarrow> False)"
| "event_ok E D (Acc_E i a weak) s \<longleftrightarrow> i \<in> E \<and> (case heap s a of None \<Rightarrow> True | _ \<Rightarrow> False)"
| "event_ok E D (Acc_D i stale) s \<longleftrightarrow> i \<in> D"

fun do_event :: "'v event \<Rightarrow> 'v lfq \<Rightarrow> 'v lfq" where
  "do_event (Call_E i v) s = goto i (E_new v) s"
| "do_event (Call_D i) s = goto i D_head s"
| "do_event (Acc_E i a weak) s = exec_enqueue i a weak s"
| "do_event (Acc_D i stale) s = exec_dequeue i stale s"

fun schedule :: "nat set \<Rightarrow> nat set \<Rightarrow> 'v event list \<Rightarrow> 'v lfq \<Rightarrow> 'v lfq option" where
  "schedule E D [] s = Some s"
| "schedule E D (ev # evs) s = (if event_ok E D ev s then schedule E D evs (do_event ev s) else None)"

lemma event_step: "event_ok E D ev s \<Longrightarrow> lfq_step E D s (do_event ev s)"
  by (cases ev) (auto intro: lfq_step.intros split: lfq_pc.splits option.splits)

lemma schedule_reachable:
  "schedule E D evs s = Some t \<Longrightarrow> reachable lfq_init (lfq_step E D) s \<Longrightarrow> reachable lfq_init (lfq_step E D) t"
  by (induction evs arbitrary: s) (auto split: if_splits intro: reach_step event_step)

lemma reachable_new: "reachable lfq_init R (LockFreeQueue_new d)"
  by (auto intro!: reach_init simp: lfq_init_def)

text \<open>Two threads enqueue: the second one fails its compare-and-swap, which stores the first node into
  \<^verbatim>\<open>null_tail\<close>, loads the same tail again and replaces the first node by its own.\<close>

definition losing_schedule :: "int event list" where
  "losing_schedule =
     [Call_E 0 1, Acc_E 0 1 False, Acc_E 0 9 False,
      Call_E 1 2, Acc_E 1 2 False, Acc_E 1 9 False,
      Acc_E 0 9 False,
      Acc_E 1 9 False, Acc_E 1 9 False, Acc_E 1 9 False,
      Acc_E 0 9 False, Acc_E 1 9 False]"

text \<open>Two threads dequeue the same node: both return its value, and the second one, whose compare-and-swap
  fails, frees the node that is the head now. The next call uses it.\<close>

definition double_dequeue_schedule :: "int event list" where
  "double_dequeue_schedule =
     [Call_E 0 7, Acc_E 0 1 False, Acc_E 0 9 False, Acc_E 0 9 False, Acc_E 0 9 False,
      Call_D 1, Acc_D 1 False, Acc_D 1 False, Acc_D 1 False,
      Call_D 2, Acc_D 2 False, Acc_D 2 False, Acc_D 2 False,
      Acc_D 1 False, Acc_D 2 False, Acc_D 1 False, Acc_D 2 False]"

definition next_call_schedule :: "int event list" where
  "next_call_schedule = double_dequeue_schedule @ [Call_D 1, Acc_D 1 False, Acc_D 1 False]"

lemma losing_run:
  "\<exists>t. schedule {0, 1} {} losing_schedule (LockFreeQueue_new 0) = Some t \<and> pcs t 0 = Idle \<and> pcs t 1 = Idle \<and>
     pushed t = [1, 2] \<and> popped t = [] \<and> \<not> crashed t \<and> head t = 0 \<and> tail t = 1 \<and>
     linked (heap t) [0, 2] \<and> vals (heap t) [2] = [2]"
  by (simp add: losing_schedule_def LockFreeQueue_new_def exec_defs)

lemma double_dequeue_run:
  "\<exists>t. schedule {0} {1, 2} double_dequeue_schedule (LockFreeQueue_new 0) = Some t \<and> pcs t 1 = Idle \<and> pcs t 2 = Idle \<and>
     pushed t = [7] \<and> popped t = [7, 7] \<and> heap t (head t) = None"
  by (simp add: double_dequeue_schedule_def LockFreeQueue_new_def exec_defs)

lemma next_call_run: "\<exists>t. schedule {0} {1, 2} next_call_schedule (LockFreeQueue_new 0) = Some t \<and> crashed t"
  by (simp add: next_call_schedule_def double_dequeue_schedule_def LockFreeQueue_new_def exec_defs)

lemma spsc_dtor:
  assumes "spsc_inv s" "pcs s 0 = Idle" "pcs s 1 = Idle"
  shows "LockFreeQueue_dtor s = Some (\<lambda>_. None)"
proof -
  obtain ns where ns: "queue_inv ns s" using assms(1) by (auto simp: spsc_inv_def)
  then have q: "linked (heap s) ns" "distinct ns" "hd ns = head s" by (auto simp: queue_inv_def)
  have "\<forall>a. heap s a \<noteq> None \<longleftrightarrow> a \<in> set ns" using ns assms by (auto simp: queue_inv_def)
  then have "(\<lambda>a. if a \<in> set ns then None else heap s a) = (\<lambda>_. None)" by (auto simp: fun_eq_iff)
  then show ?thesis using free_from_linked [OF q(1,2)] by (simp add: LockFreeQueue_dtor_def q(3))
qed

section \<open>Properties\<close>

text \<open>C6: One producer and one consumer may use the queue concurrently: in every interleaving of their
  accesses, with spurious failures of the weak compare-and-swap, old loads and blocks reused, no freed
  block is touched, what the consumer got is a prefix of what the producer put, in order, and when no
  call is running the queue is empty exactly if it got everything, and the destructor frees every
  block.\<close>

theorem one_producer_one_consumer_safe:
  assumes "reachable lfq_init (lfq_step {0} {1}) s"
  shows "\<not> crashed s \<and> prefix (popped s) (pushed s) \<and>
    (pcs s 0 = Idle \<and> pcs s 1 = Idle \<longrightarrow>
       empty_queue s = Some (popped s = pushed s) \<and> LockFreeQueue_dtor s = Some (\<lambda>_. None))"
proof -
  obtain ns where ns: "queue_inv ns s" using spsc.reachable_inv [OF assms] by (auto simp: spsc_inv_def)
  have inv: "spsc_inv s" using ns by (auto simp: spsc_inv_def)
  have "empty_queue s = Some (popped s = pushed s) \<and> LockFreeQueue_dtor s = Some (\<lambda>_. None)"
    if "pcs s 0 = Idle" "pcs s 1 = Idle"
    using queue_inv_empty [OF ns that(2)] spsc_dtor [OF inv that] by (rule conjI)
  then show ?thesis using ns spsc_prefix [OF inv] by (auto simp: queue_inv_def)
qed

theorem one_producer_one_consumer_safe_witness:
  "\<exists>s. reachable lfq_init (lfq_step {0} {1}) s \<and> pcs s 0 = E_new (5::int) \<and> \<not> crashed s"
proof -
  let ?s = "goto 0 (E_new 5) (LockFreeQueue_new (0::int))"
  have "reachable lfq_init (lfq_step {0} {1}) ?s"
    by (rule reach_step [OF reachable_new]) (rule call_enqueue, simp_all add: LockFreeQueue_new_def)
  moreover from one_producer_one_consumer_safe [OF this] have "\<not> crashed ?s" by simp
  ultimately show ?thesis by (intro exI [of _ ?s]) (simp add: goto_def)
qed

text \<open>Calls that do not overlap form a first-in first-out queue: after any values have been enqueued,
  as many dequeues return them in order, and one more finds the queue empty.\<close>

theorem calls_in_turn_are_fifo:
  "\<exists>q1 q2. enq_all seq_enq xs (1, LockFreeQueue_new dflt) = Some q1 \<and>
     deq_n seq_deq (length xs) q1 = Some (map Some xs, q2) \<and> (\<exists>q3. seq_deq q2 = Some (None, q3))"
proof -
  let ?q = "(1, LockFreeQueue_new dflt) :: 'a seq_queue"
  have wf: "seq_wf ?q" "seq_items ?q = []" by (rule seq_new)+
  obtain q1 where q1: "enq_all seq_enq xs ?q = Some q1" "seq_wf q1" "seq_items q1 = xs"
    using lfq_fifo.enq_all_items [OF wf(1), of xs] wf(2) by auto
  obtain q2 where q2: "deq_n seq_deq (length xs) q1 = Some (map Some xs, q2)" "seq_wf q2" "seq_items q2 = []"
    using lfq_fifo.deq_n_items [OF q1(2), of "length xs"] q1(3) by auto
  obtain b s where s: "q2 = (b, s)" by (cases q2)
  obtain r s' where d: "dequeue 1 s = (r, s')" by (cases "dequeue 1 s")
  obtain ns where ns: "queue_inv ns s" "pcs s 0 = Idle" "pcs s 1 = Idle"
    using q2(2) by (auto simp: seq_wf_def spsc_inv_def s)
  have "popped s = pushed s"
    using q2(3) spsc_prefix [of s] q2(2) by (auto simp: seq_items_def seq_wf_def s prefix_def)
  moreover have "prefix (popped s') (pushed s)"
    using dequeue_effect(1,4) [OF ns d] spsc_prefix [of s'] by (auto simp: spsc_inv_def)
  ultimately have "r = None" using dequeue_effect(6) [OF ns d] by (auto dest: prefix_length_le)
  then show ?thesis using q1(1) q2(1) d by (auto simp: seq_deq_def s)
qed

text \<open>C39: The queue is not safe for more threads. Two producers can lose a value: both calls return, but
  only the second value is reachable from the head, and the tail is a node that is not in the list. Two
  consumers can return the same value, one of them freeing the node that has become the head, which the
  next call then dereferences.\<close>

theorem more_threads_break_the_queue:
  "(\<exists>s :: int lfq. reachable lfq_init (lfq_step {0, 1} {}) s \<and> pcs s 0 = Idle \<and> pcs s 1 = Idle \<and>
      pushed s = [1, 2] \<and> popped s = [] \<and> linked (heap s) [head s, 2] \<and> vals (heap s) [2] = [2] \<and>
      tail s \<notin> {head s, 2}) \<and>
   (\<exists>s :: int lfq. reachable lfq_init (lfq_step {0} {1, 2}) s \<and> pcs s 1 = Idle \<and> pcs s 2 = Idle \<and>
      pushed s = [7] \<and> popped s = [7, 7] \<and> heap s (head s) = None) \<and>
   (\<exists>s :: int lfq. reachable lfq_init (lfq_step {0} {1, 2}) s \<and> crashed s)"
proof (intro conjI)
  obtain t where t: "schedule {0, 1} {} losing_schedule (LockFreeQueue_new 0) = Some t" "pcs t 0 = Idle" "pcs t 1 = Idle"
      "pushed t = [1, 2]" "popped t = []" "head t = 0" "tail t = 1" "linked (heap t) [0, 2]" "vals (heap t) [2] = [2]"
    using losing_run by blast
  have "reachable lfq_init (lfq_step {0, 1} {}) t" using schedule_reachable [OF t(1) reachable_new] .
  then show "\<exists>s :: int lfq. reachable lfq_init (lfq_step {0, 1} {}) s \<and> pcs s 0 = Idle \<and> pcs s 1 = Idle \<and>
      pushed s = [1, 2] \<and> popped s = [] \<and> linked (heap s) [head s, 2] \<and> vals (heap s) [2] = [2] \<and>
      tail s \<notin> {head s, 2}"
    using t(2-) by (intro exI [of _ t] conjI) simp_all
  show "\<exists>s :: int lfq. reachable lfq_init (lfq_step {0} {1, 2}) s \<and> pcs s 1 = Idle \<and> pcs s 2 = Idle \<and>
      pushed s = [7] \<and> popped s = [7, 7] \<and> heap s (head s) = None"
  proof -
    obtain t where t: "schedule {0} {1, 2} double_dequeue_schedule (LockFreeQueue_new 0) = Some t" "pcs t 1 = Idle" "pcs t 2 = Idle"
        "pushed t = [7]" "popped t = [7, 7]" "heap t (head t) = None"
      using double_dequeue_run by blast
    show ?thesis using schedule_reachable [OF t(1) reachable_new] t(2-) by (intro exI [of _ t] conjI) simp_all
  qed
  show "\<exists>s :: int lfq. reachable lfq_init (lfq_step {0} {1, 2}) s \<and> crashed s"
  proof -
    obtain t where t: "schedule {0} {1, 2} next_call_schedule (LockFreeQueue_new 0) = Some t" "crashed t"
      using next_call_run by blast
    show ?thesis using schedule_reachable [OF t(1) reachable_new] t(2) by (intro exI [of _ t] conjI) simp_all
  qed
qed

end
