(* ===== verification/Map_List.thy ===== *)
theory Map_List
  imports Prelude
begin

text \<open>
  \<^verbatim>\<open>example-tmp\<close>: the map that is displayed a few buckets at a time (\<^verbatim>\<open>MapList\<close> of \<^verbatim>\<open>tmp.cc\<close>) and the
  loop of \<^verbatim>\<open>main.cc\<close> that cuts a write into the buffers it touches. The buckets of the hash map are a
  list of lists; where an insertion puts a pair, and whether it rehashes, is the argument \<open>place\<close>. The
  static bucket index is a \<^verbatim>\<open>size_t\<close> of 64 bits that is only ever incremented, and wraps.
\<close>

section \<open>The map\<close>

type_synonym kv = "u32 \<times> u32"

text \<open>The object with the two variables of the file: the static index and the item limit of a round.\<close>

record MapList =
  kvs :: "kv list list"
  curr_bucket_idx :: u64
  PER_ROUND_BLOCK_ITEM_CNT :: u32
  display :: "kv list"

definition MapList_new :: "kv list list \<Rightarrow> MapList" where
  "MapList_new bs = \<lparr>kvs = bs, curr_bucket_idx = 0, PER_ROUND_BLOCK_ITEM_CNT = 4, display = []\<rparr>"

definition Push :: "(kv \<Rightarrow> kv list list \<Rightarrow> kv list list) \<Rightarrow> u32 \<Rightarrow> u32 \<Rightarrow> MapList \<Rightarrow> MapList" where
  "Push place key val s =
     (if key \<in> fst ` set (concat (kvs s)) then s else s\<lparr>kvs := place (key, val) (kvs s)\<rparr>)"

definition SetPerRoundMaxItemCnt :: "u32 \<Rightarrow> MapList \<Rightarrow> MapList" where
  "SetPerRoundMaxItemCnt cnt s = s\<lparr>PER_ROUND_BLOCK_ITEM_CNT := cnt\<rparr>"

text \<open>The loop of \<^verbatim>\<open>Run\<close>: \<open>cur\<close> is the static index, \<open>out\<close> what has been displayed.\<close>

definition bucket_count :: "kv list list \<Rightarrow> u64" where
  "bucket_count bs = of_nat (length bs)"

function run_loop :: "kv list list \<Rightarrow> nat \<Rightarrow> u64 \<Rightarrow> u64 \<Rightarrow> nat \<Rightarrow> kv list \<Rightarrow> u64 \<times> kv list" where
  "run_loop bs max_cnt start cur cnt out =
     (let bucket = bs ! unat (cur mod bucket_count bs);
          bucket_size = length bucket
      in if bucket_size = 0 then
           (if cur + 1 - start < bucket_count bs \<and> cnt < max_cnt
            then run_loop bs max_cnt start (cur + 1) cnt out else (cur + 1, out))
         else if cnt + bucket_size > max_cnt \<and> cur \<noteq> start then (cur, out)
         else
           (if cur + 1 - start < bucket_count bs \<and> cnt + bucket_size < max_cnt
            then run_loop bs max_cnt start (cur + 1) (cnt + bucket_size) (out @ bucket)
            else (cur + 1, out @ bucket)))"
  by auto

text \<open>The loop goes on while the distance from the start, which may wrap once, is below the number of buckets.\<close>

definition buckets_left :: "u64 \<Rightarrow> u64 \<Rightarrow> nat" where
  "buckets_left n d = (if d < n then unat n - unat d else unat n + 1)"

lemma buckets_left_less:
  assumes "cur + 1 - start < n"
  shows "buckets_left n (cur + 1 - start) < buckets_left n (cur - start)"
proof -
  have d: "cur + 1 - start = (cur - start) + 1" by simp
  show ?thesis
  proof (cases "cur - start < n")
    case True
    then have lt: "unat (cur - start) < unat n" by (simp add: word_less_nat_alt)
    then have "unat ((cur - start) + 1) = unat (cur - start) + 1"
      using unat_less_len [of n] by (simp add: unat_word_ariths)
    then show ?thesis using assms True lt unfolding d by (simp add: buckets_left_def)
  qed (use assms in \<open>simp add: buckets_left_def\<close>)
qed

termination run_loop
  by (relation "measure (\<lambda>(bs, max_cnt, start, cur, cnt, out). buckets_left (bucket_count bs) (cur - start))")
    (use buckets_left_less in simp_all)

declare run_loop.simps [simp del]

definition Run :: "MapList \<Rightarrow> MapList" where
  "Run s =
     (let bucket_cnt = bucket_count (kvs s)
      in if bucket_cnt = 0 then s
         else
           (case run_loop (kvs s) (unat (PER_ROUND_BLOCK_ITEM_CNT s)) (curr_bucket_idx s) (curr_bucket_idx s) 0 [] of
              (cur, out) \<Rightarrow> s\<lparr>curr_bucket_idx := cur, display := display s @ out\<rparr>))"

text \<open>The driver, for the insertion of the library and the buckets it starts with.\<close>

definition TestIterateUnorderedMapByBucket :: "(kv \<Rightarrow> kv list list \<Rightarrow> kv list list) \<Rightarrow> kv list list \<Rightarrow> MapList" where
  "TestIterateUnorderedMapByBucket place bs =
     (let ml = Run (MapList_new bs);
          ml = Run (Push place 0 1 ml);
          ml = fold (\<lambda>i. Push place (of_nat i) (of_nat i + 1)) [0..<15] ml;
          ml = Run (Run ml)
      in Run (Run (SetPerRoundMaxItemCnt 20 ml)))"

section \<open>One round\<close>

text \<open>The bucket an index stands for, and the pairs of \<open>k\<close> buckets from an index on.\<close>

definition bucket_at :: "kv list list \<Rightarrow> u64 \<Rightarrow> kv list" where
  "bucket_at bs i = bs ! unat (i mod bucket_count bs)"

definition window :: "kv list list \<Rightarrow> u64 \<Rightarrow> nat \<Rightarrow> kv list" where
  "window bs i k = concat (map (\<lambda>t. bucket_at bs (i + of_nat t)) [0..<k])"

lemma window_0 [simp]: "window bs i 0 = []"
  by (simp add: window_def)

lemma window_Suc: "window bs i (Suc k) = window bs i k @ bucket_at bs (i + of_nat k)"
  by (simp add: window_def)

lemma window_add: "window bs i (k + l) = window bs i k @ window bs (i + of_nat k) l"
  by (induction l) (simp_all add: window_Suc add.assoc)

text \<open>Where a round stops: after a full cycle, when the limit is reached, or before a bucket that would
  exceed it.\<close>

definition round_end :: "kv list list \<Rightarrow> nat \<Rightarrow> u64 \<Rightarrow> nat \<Rightarrow> bool" where
  "round_end bs max_cnt i k \<longleftrightarrow>
     k = length bs \<or> max_cnt \<le> length (window bs i k) \<or>
     max_cnt < length (window bs i k) + length (bucket_at bs (i + of_nat k))"

definition round_from :: "kv list list \<Rightarrow> nat \<Rightarrow> u64 \<Rightarrow> u64 \<times> kv list \<Rightarrow> bool" where
  "round_from bs max_cnt i r \<longleftrightarrow>
     (\<exists>k. 0 < k \<and> k \<le> length bs \<and> r = (i + of_nat k, window bs i k) \<and>
        length (window bs i k) \<le> max max_cnt (length (bucket_at bs i)) \<and> round_end bs max_cnt i k)"

lemma round_fromI:
  assumes "0 < k" "k \<le> length bs" "r = (i + of_nat k, window bs i k)"
    and "length (window bs i k) \<le> max max_cnt (length (bucket_at bs i))" "round_end bs max_cnt i k"
  shows "round_from bs max_cnt i r"
  using assms unfolding round_from_def by blast

lemma of_nat_less_count:
  assumes "length bs < 2 ^ 64" "t \<le> length bs"
  shows "(of_nat t :: u64) < bucket_count bs \<longleftrightarrow> t < length bs"
  using assms by (simp add: bucket_count_def word_less_nat_alt of_nat_inverse)

lemma of_nat_zero_iff:
  assumes "t < 2 ^ 64"
  shows "(of_nat t :: u64) = 0 \<longleftrightarrow> t = 0"
proof -
  have u: "unat (of_nat t :: u64) = t" using assms by (simp add: of_nat_inverse)
  have "(of_nat t :: u64) = 0 \<longleftrightarrow> unat (of_nat t :: u64) = 0" by (rule unat_eq_zero [symmetric])
  then show ?thesis unfolding u .
qed

lemma run_loop_round:
  assumes "length bs < 2 ^ 64" "t < length bs"
    and "length (window bs i t) \<le> max max_cnt (length (bucket_at bs i))"
  shows "round_from bs max_cnt i (run_loop bs max_cnt i (i + of_nat t) (length (window bs i t)) (window bs i t))"
  using assms(2,3)
proof (induction "length bs - t" arbitrary: t rule: less_induct)
  case less
  let ?b = "bucket_at bs (i + of_nat t)" and ?w = "window bs i t"
  let ?r = "run_loop bs max_cnt i (i + of_nat t) (length ?w) ?w"
  let ?next = "run_loop bs max_cnt i (i + of_nat (Suc t)) (length (window bs i (Suc t))) (window bs i (Suc t))"
  have ext: "window bs i (Suc t) = ?w @ ?b" by (rule window_Suc)
  have go: "i + of_nat t + 1 - i < bucket_count bs \<longleftrightarrow> Suc t < length bs"
    using of_nat_less_count [OF assms(1), of "Suc t"] less.prems(1) by (simp add: add.commute)
  have first: "i + of_nat t \<noteq> i \<longleftrightarrow> t \<noteq> 0"
    using of_nat_zero_iff [of t] less.prems(1) assms(1) by simp
  have loop: "?r =
      (if ?b = [] then if Suc t < length bs \<and> length ?w < max_cnt then ?next else (i + of_nat (Suc t), window bs i (Suc t))
       else if length ?w + length ?b > max_cnt \<and> t \<noteq> 0 then (i + of_nat t, ?w)
       else if Suc t < length bs \<and> length ?w + length ?b < max_cnt then ?next
       else (i + of_nat (Suc t), window bs i (Suc t)))"
    unfolding run_loop.simps [of bs max_cnt i "i + of_nat t"] Let_def go first ext
    by (simp add: bucket_at_def [symmetric] add.assoc add.commute [of 1])
  show ?case
  proof (cases "?b \<noteq> [] \<and> length ?w + length ?b > max_cnt \<and> t \<noteq> 0")
    case True
    then have "?r = (i + of_nat t, ?w)" unfolding loop by simp
    then show ?thesis
      using True less.prems by (intro round_fromI [of t]) (auto simp: round_end_def)
  next
    case False
    then have lim: "length (window bs i (Suc t)) \<le> max max_cnt (length (bucket_at bs i))"
      using less.prems(2) unfolding ext by (cases "t = 0") auto
    show ?thesis
    proof (cases "Suc t < length bs \<and> length (window bs i (Suc t)) < max_cnt")
      case True
      then have "?r = ?next" unfolding loop ext using False by auto
      moreover have "round_from bs max_cnt i ?next"
        by (rule less.hyps [OF diff_less_mono2 [OF lessI less.prems(1)] conjunct1 [OF True] lim])
      ultimately show ?thesis by simp
    next
      case stop: False
      then have "?r = (i + of_nat (Suc t), window bs i (Suc t))" unfolding loop ext using False by auto
      moreover have "round_end bs max_cnt i (Suc t)" using stop less.prems(1) by (auto simp: round_end_def)
      ultimately show ?thesis using lim less.prems(1) by (intro round_fromI [of "Suc t"]) simp_all
    qed
  qed
qed

lemma bucket_count_0: "length bs < 2 ^ 64 \<Longrightarrow> bucket_count bs = 0 \<longleftrightarrow> bs = []"
  using of_nat_zero_iff [of "length bs"] by (simp add: bucket_count_def)

lemma Run_round:
  assumes "kvs s \<noteq> []" "length (kvs s) < 2 ^ 64"
  shows "\<exists>r. round_from (kvs s) (unat (PER_ROUND_BLOCK_ITEM_CNT s)) (curr_bucket_idx s) r \<and>
    Run s = s\<lparr>curr_bucket_idx := fst r, display := display s @ snd r\<rparr>"
  using run_loop_round [OF assms(2), of 0 "curr_bucket_idx s" "unat (PER_ROUND_BLOCK_ITEM_CNT s)"] assms
  by (intro exI [of _ "run_loop (kvs s) (unat (PER_ROUND_BLOCK_ITEM_CNT s)) (curr_bucket_idx s) (curr_bucket_idx s) 0 []"])
    (simp add: Run_def bucket_count_0 Let_def split_beta)

lemma Run_window:
  assumes "kvs s \<noteq> []" "length (kvs s) < 2 ^ 64"
  obtains k where "0 < k" "Run s = s\<lparr>curr_bucket_idx := curr_bucket_idx s + of_nat k,
      display := display s @ window (kvs s) (curr_bucket_idx s) k\<rparr>"
  using Run_round [OF assms] unfolding round_from_def by auto

lemma runs_window:
  assumes "kvs s \<noteq> []" "length (kvs s) < 2 ^ 64"
  shows "\<exists>k. n \<le> k \<and> (Run ^^ n) s = s\<lparr>curr_bucket_idx := curr_bucket_idx s + of_nat k,
    display := display s @ window (kvs s) (curr_bucket_idx s) k\<rparr>"
proof (induction n)
  case 0
  then show ?case by (intro exI [of _ 0]) simp
next
  case (Suc n)
  then obtain k where k: "n \<le> k" "(Run ^^ n) s = s\<lparr>curr_bucket_idx := curr_bucket_idx s + of_nat k,
      display := display s @ window (kvs s) (curr_bucket_idx s) k\<rparr>" by blast
  let ?t = "(Run ^^ n) s"
  have same: "kvs ?t = kvs s" unfolding k(2) by simp
  obtain l where l: "0 < l" "Run ?t = ?t\<lparr>curr_bucket_idx := curr_bucket_idx ?t + of_nat l,
      display := display ?t @ window (kvs ?t) (curr_bucket_idx ?t) l\<rparr>"
    using Run_window [of ?t] assms unfolding same by blast
  have "Run ?t = s\<lparr>curr_bucket_idx := curr_bucket_idx s + of_nat (k + l),
      display := display s @ window (kvs s) (curr_bucket_idx s) (k + l)\<rparr>"
    unfolding l(2) unfolding k(2) by (simp add: window_add add.assoc)
  then show ?case using k(1) l(1) by (intro exI [of _ "k + l"]) simp
qed

text \<open>A full cycle that does not pass the end of the 64-bit range meets every bucket.\<close>

lemma bucket_at_no_wrap:
  assumes "unat i + t < 2 ^ 64" "length bs < 2 ^ 64"
  shows "bucket_at bs (i + of_nat t) = bs ! ((unat i + t) mod length bs)"
proof -
  have "unat (i + of_nat t) = unat i + t"
    using assms(1) by (simp add: unat_word_ariths unat_of_nat)
  moreover have "unat (bucket_count bs) = length bs"
    using assms(2) by (simp add: bucket_count_def of_nat_inverse)
  ultimately show ?thesis by (simp add: bucket_at_def unat_mod)
qed

lemma cycle_meets:
  assumes "m < n"
  shows "\<exists>t<n. (i + t) mod n = (m :: nat)"
proof -
  have "0 < n" using assms by simp
  define t where "t = (m + n - i mod n) mod n"
  have "(i + t) mod n = (i mod n + (m + n - i mod n)) mod n"
    unfolding t_def by (simp add: mod_add_eq mod_simps)
  also have "i mod n + (m + n - i mod n) = m + n"
    using mod_less_divisor [OF \<open>0 < n\<close>, of i] by linarith
  finally show ?thesis using assms \<open>0 < n\<close> by (intro exI [of _ t]) (simp add: t_def)
qed

lemma window_subset: "bs \<noteq> [] \<Longrightarrow> length bs < 2 ^ 64 \<Longrightarrow> set (window bs i k) \<subseteq> set (concat bs)"
proof -
  assume bs: "bs \<noteq> []" "length bs < 2 ^ 64"
  then have "unat (bucket_count bs) = length bs" by (simp add: bucket_count_def of_nat_inverse)
  then have "bucket_at bs j \<in> set bs" for j
    unfolding bucket_at_def using bs by (simp add: unat_mod)
  then show ?thesis unfolding window_def by fastforce
qed

lemma window_cycle:
  assumes "bs \<noteq> []" "unat i + length bs \<le> 2 ^ 64" "length bs < 2 ^ 64" "length bs \<le> k"
  shows "set (window bs i k) = set (concat bs)"
proof (rule antisym [OF window_subset [OF assms(1,3)]])
  show "set (concat bs) \<subseteq> set (window bs i k)"
  proof
    fix x assume "x \<in> set (concat bs)"
    then obtain b where "b \<in> set bs" "x \<in> set b" by auto
    then obtain m where m: "m < length bs" "x \<in> set (bs ! m)" by (metis in_set_conv_nth)
    obtain t where t: "t < length bs" "(unat i + t) mod length bs = m" using cycle_meets [OF m(1)] by blast
    have "bucket_at bs (i + of_nat t) = bs ! m"
      using bucket_at_no_wrap [of i t bs] t assms(2,3) by simp
    then show "x \<in> set (window bs i k)"
      unfolding window_def using m(2) t(1) assms(4) by (auto intro!: bexI [of _ t])
  qed
qed

section \<open>Insertion\<close>

text \<open>What the code relies on of \<^verbatim>\<open>std::unordered_map::emplace\<close>: the pairs afterwards are the pairs
  before and the new one, in some buckets.\<close>

definition places :: "(kv \<Rightarrow> kv list list \<Rightarrow> kv list list) \<Rightarrow> bool" where
  "places place \<longleftrightarrow> (\<forall>x bs. mset (concat (place x bs)) = add_mset x (mset (concat bs)))"

definition push_all :: "(kv \<Rightarrow> kv list list \<Rightarrow> kv list list) \<Rightarrow> kv list \<Rightarrow> MapList \<Rightarrow> MapList" where
  "push_all place xs s = fold (\<lambda>(k, v). Push place k v) xs s"

definition map_contents :: "MapList \<Rightarrow> kv list" where
  "map_contents s = concat (kvs s)"

lemma push_all_contents:
  assumes "places place"
  shows "distinct (map fst (map_contents s)) \<Longrightarrow> distinct (map fst (map_contents (push_all place xs s))) \<and>
    map_of (map_contents (push_all place xs s)) = map_of xs ++ map_of (map_contents s)"
proof (induction xs arbitrary: s)
  case Nil
  then show ?case by (simp add: push_all_def)
next
  case (Cons x xs)
  obtain k v where x: "x = (k, v)" by (cases x)
  have all: "push_all place (x # xs) s = push_all place xs (Push place k v s)" by (simp add: push_all_def x)
  show ?case
  proof (cases "k \<in> fst ` set (map_contents s)")
    case True
    then have "Push place k v s = s" by (simp add: Push_def map_contents_def)
    moreover have "map_of (map_contents s) k \<noteq> None" using True by (simp add: map_of_eq_None_iff)
    then have same: "map_of (x # xs) ++ map_of (map_contents s) = map_of xs ++ map_of (map_contents s)"
      by (auto simp: x map_add_def fun_eq_iff split: option.splits)
    ultimately show ?thesis unfolding all same using Cons.IH [OF Cons.prems] by simp
  next
    case False
    let ?s = "Push place k v s"
    have m: "mset (map_contents ?s) = add_mset (k, v) (mset (map_contents s))"
      using False assms by (simp add: Push_def map_contents_def places_def)
    have "mset (map fst (map_contents ?s)) = add_mset k (mset (map fst (map_contents s)))"
      using arg_cong [OF m, of "image_mset fst"] by simp
    then have "mset (map fst (map_contents ?s)) = mset (k # map fst (map_contents s))" by simp
    then have "distinct (map fst (map_contents ?s)) = distinct (k # map fst (map_contents s))"
      by (rule mset_eq_imp_distinct_iff)
    then have d: "distinct (map fst (map_contents ?s))" using False Cons.prems by simp
    have "map_of (map_contents ?s) = map_of ((k, v) # map_contents s)"
    proof (rule map_of_eqI)
      show "set (map fst (map_contents ?s)) = set (map fst ((k, v) # map_contents s))"
        using arg_cong [OF m, of set_mset] by simp
      show "\<forall>a\<in>set (map fst (map_contents ?s)). map_of (map_contents ?s) a = map_of ((k, v) # map_contents s) a"
      proof
        fix a
        have "set (map_contents ?s) = set ((k, v) # map_contents s)" using arg_cong [OF m, of set_mset] by simp
        moreover have "distinct (map fst ((k, v) # map_contents s))" using False Cons.prems by simp
        ultimately show "map_of (map_contents ?s) a = map_of ((k, v) # map_contents s) a"
          using d by (metis map_of_inject_set)
      qed
    qed
    moreover have "map_of (map_contents s) k = None" using False by (simp add: map_of_eq_None_iff)
    ultimately show ?thesis using Cons.IH [OF d] all
      by (auto simp: x map_add_def fun_eq_iff split: option.splits)
  qed
qed

section \<open>Cutting a write into buffers\<close>

definition BUFF_SIZE :: u32 where
  "BUFF_SIZE = 4096"

text \<open>The loop: each round logs \<open>write_off\<close>, \<open>buff_index\<close>, \<open>buff_len\<close> and \<open>remain_size\<close>; the second
  component of the result is \<open>remain_size\<close> after the loop.\<close>

function fill_up :: "u32 \<Rightarrow> u32 \<Rightarrow> (u32 \<times> u32 \<times> u32 \<times> u32) list \<times> u32" where
  "fill_up write_off remain_size =
     (if 0 < remain_size then
        (let buff_index = write_off div BUFF_SIZE;
             buff_off = write_off mod BUFF_SIZE;
             buff_len = min (BUFF_SIZE - buff_off) remain_size
         in map_prod (Cons (write_off, buff_index, buff_len, remain_size)) id
              (fill_up (write_off + buff_len) (remain_size - buff_len)))
      else ([], remain_size))"
  by auto

lemma unat_buff_off: "unat (w mod BUFF_SIZE) = unat w mod 4096"
  by (simp add: BUFF_SIZE_def unat_mod)

lemma unat_buff_len:
  "unat (min (BUFF_SIZE - w mod BUFF_SIZE) r) = min (4096 - unat w mod 4096) (unat r)"
proof -
  have "w mod BUFF_SIZE \<le> BUFF_SIZE"
    by (simp add: word_le_nat_alt unat_buff_off) (simp add: BUFF_SIZE_def)
  then have "unat (BUFF_SIZE - w mod BUFF_SIZE) = 4096 - unat w mod 4096"
    by (simp add: unat_sub unat_buff_off) (simp add: BUFF_SIZE_def)
  then show ?thesis by (simp add: min_def word_le_nat_alt)
qed

termination fill_up
proof (relation "measure (unat \<circ> snd)")
  fix w r :: u32 and i b l
  assume "0 < r" "b = w mod BUFF_SIZE" "l = min (BUFF_SIZE - b) r"
  then have l: "unat l = min (4096 - unat w mod 4096) (unat r)" using unat_buff_len by simp
  have "0 < unat r" using \<open>0 < r\<close> by (simp add: word_less_nat_alt)
  moreover have "unat w mod 4096 < 4096" by simp
  ultimately have "0 < unat l" "unat l \<le> unat r" using l by simp_all
  then show "((w + l, r - l), w, r) \<in> measure (unat \<circ> snd)"
    by (simp add: unat_sub word_le_nat_alt)
qed simp

declare fill_up.simps [simp del]

definition TestFillup :: "(u32 \<times> u32 \<times> u32 \<times> u32) list option" where
  "TestFillup = (case fill_up 10245 1048575 of (rounds, remain_size) \<Rightarrow> if remain_size = 0 then Some rounds else None)"

definition in_buffer :: "u32 \<times> u32 \<times> u32 \<times> u32 \<Rightarrow> bool" where
  "in_buffer p = (case p of (off, index, len, remain) \<Rightarrow>
     0 < len \<and> unat index * 4096 \<le> unat off \<and> unat off + unat len \<le> (unat index + 1) * 4096)"

definition covered :: "u32 \<times> u32 \<times> u32 \<times> u32 \<Rightarrow> nat list" where
  "covered p = (case p of (off, index, len, remain) \<Rightarrow> [unat off..<unat off + unat len])"

lemma piece_in_buffer:
  fixes q m l w :: nat
  assumes "q * 4096 + m = w" "l + m \<le> 4096"
  shows "q * 4096 \<le> w \<and> w + l \<le> (q + 1) * 4096"
  using assms by simp

lemma fill_up_pieces:
  "unat w + unat r < 2 ^ 32 \<Longrightarrow>
     concat (map covered (fst (fill_up w r))) = [unat w..<unat w + unat r] \<and>
     list_all in_buffer (fst (fill_up w r)) \<and> snd (fill_up w r) = 0"
proof (induction w r rule: fill_up.induct)
  case (1 w r)
  show ?case
  proof (cases "0 < r")
    case False
    then have "r = 0" by (simp add: word_gt_0)
    then show ?thesis by (simp add: fill_up.simps [of w 0])
  next
    case True
    define l where "l = min (BUFF_SIZE - w mod BUFF_SIZE) r"
    have ul: "unat l = min (4096 - unat w mod 4096) (unat r)" unfolding l_def by (rule unat_buff_len)
    have pos: "0 < unat r" using True by (simp add: word_less_nat_alt)
    have mod: "unat w mod 4096 < 4096" by simp
    have l: "0 < unat l" "unat l \<le> unat r" using ul pos mod by simp_all
    have bound: "unat w + unat l < 2 ^ LENGTH(32)" using 1(2) l(2) by simp
    have uw: "unat (w + l) = unat w + unat l" using unat_add_lem [THEN iffD1, OF bound] .
    have ur: "unat (r - l) = unat r - unat l" using l(2) by (simp add: unat_sub word_le_nat_alt)
    have f: "fill_up w r = map_prod (Cons (w, w div BUFF_SIZE, l, r)) id (fill_up (w + l) (r - l))"
      using True by (simp add: fill_up.simps [of w r] Let_def l_def)
    have IH: "concat (map covered (fst (fill_up (w + l) (r - l)))) = [unat w + unat l..<unat w + unat r]"
        "list_all in_buffer (fst (fill_up (w + l) (r - l)))" "snd (fill_up (w + l) (r - l)) = 0"
      using 1(1) [OF True refl refl l_def] 1(2) uw ur l(2) by simp_all
    have div: "unat (w div BUFF_SIZE) = unat w div 4096" by (simp add: BUFF_SIZE_def unat_div)
    have room: "unat l + unat w mod 4096 \<le> 4096" using ul mod by simp
    have "unat (w div BUFF_SIZE) * 4096 \<le> unat w" "unat w + unat l \<le> (unat (w div BUFF_SIZE) + 1) * 4096"
      unfolding div using piece_in_buffer [OF div_mult_mod_eq room] by simp_all
    then have "in_buffer (w, w div BUFF_SIZE, l, r)"
      using l(1) by (simp add: in_buffer_def word_less_nat_alt)
    moreover have "covered (w, w div BUFF_SIZE, l, r) @ [unat w + unat l..<unat w + unat r] = [unat w..<unat w + unat r]"
      using l(2) upt_add_eq_append [of "unat w" "unat w + unat l" "unat r - unat l"] by (simp add: covered_def)
    ultimately show ?thesis using IH by (simp add: f)
  qed
qed

lemma TestFillup_returns: "\<exists>pieces. TestFillup = Some pieces"
proof -
  have "unat (10245 :: u32) + unat (1048575 :: u32) < 2 ^ 32" by simp
  then have "snd (fill_up 10245 1048575) = 0" by (rule fill_up_pieces [THEN conjunct2, THEN conjunct2])
  then show ?thesis unfolding TestFillup_def by (simp only: case_prod_beta simp_thms if_True) blast
qed

section \<open>Properties\<close>

text \<open>A round of \<^verbatim>\<open>Run\<close> increments the static index, at most once for every bucket, and displays the buckets it
  passes over, in their order from where the last round stopped. It shows at most \<^verbatim>\<open>PER_ROUND_BLOCK_ITEM_CNT\<close>
  items, unless the first bucket alone has more, and it stops only after a full cycle, with the limit
  reached, or before a bucket that would exceed it.\<close>

theorem round_is_bounded:
  assumes "kvs s \<noteq> []" "length (kvs s) < 2 ^ 64"
  shows "\<exists>k. 0 < k \<and> k \<le> length (kvs s) \<and>
    Run s = s\<lparr>curr_bucket_idx := curr_bucket_idx s + of_nat k,
              display := display s @ window (kvs s) (curr_bucket_idx s) k\<rparr> \<and>
    length (window (kvs s) (curr_bucket_idx s) k) \<le>
      max (unat (PER_ROUND_BLOCK_ITEM_CNT s)) (length (bucket_at (kvs s) (curr_bucket_idx s))) \<and>
    round_end (kvs s) (unat (PER_ROUND_BLOCK_ITEM_CNT s)) (curr_bucket_idx s) k"
  using Run_round [OF assms] unfolding round_from_def by auto

text \<open>Three buckets of which the second is empty, the limit 4 and an index past the first cycle.\<close>

theorem round_is_bounded_witness:
  "\<exists>k>0. k \<le> 3 \<and>
     Run \<lparr>kvs = [[(1, 2)], [], [(3, 4), (5, 6)]], curr_bucket_idx = 5, PER_ROUND_BLOCK_ITEM_CNT = 4, display = []\<rparr> =
     \<lparr>kvs = [[(1, 2)], [], [(3, 4), (5, 6)]], curr_bucket_idx = 5 + of_nat k, PER_ROUND_BLOCK_ITEM_CNT = 4,
       display = window [[(1, 2)], [], [(3, 4), (5, 6)]] 5 k\<rparr>"
  using round_is_bounded [of "\<lparr>kvs = [[(1, 2)], [], [(3, 4), (5, 6)]], curr_bucket_idx = 5,
    PER_ROUND_BLOCK_ITEM_CNT = 4, display = []\<rparr>"]
  by auto

text \<open>C35: Unless the static index passes the end of its 64 bits within the next cycle, as many rounds as the
  map has buckets, or more, display every pair of the map and nothing else, whatever the limit: they display
  the buckets from the index on, a full cycle or more without a gap, and change only the index, by the number of
  buckets displayed. From the index 0 the first round starts with, the bound always holds.\<close>

theorem rounds_display_every_item:
  assumes "kvs s \<noteq> []" "length (kvs s) \<le> n"
    and "length (kvs s) < 2 ^ 64" "unat (curr_bucket_idx s) + length (kvs s) \<le> 2 ^ 64"
  shows "\<exists>k. n \<le> k \<and> (Run ^^ n) s =
      s\<lparr>curr_bucket_idx := curr_bucket_idx s + of_nat k, display := display s @ window (kvs s) (curr_bucket_idx s) k\<rparr> \<and>
    set (window (kvs s) (curr_bucket_idx s) k) = set (concat (kvs s))"
proof -
  obtain k where k: "n \<le> k" "(Run ^^ n) s = s\<lparr>curr_bucket_idx := curr_bucket_idx s + of_nat k,
      display := display s @ window (kvs s) (curr_bucket_idx s) k\<rparr>"
    using runs_window [OF assms(1,3)] by blast
  have "set (window (kvs s) (curr_bucket_idx s) k) = set (concat (kvs s))"
    by (rule window_cycle [OF assms(1,4,3) order_trans [OF assms(2) k(1)]])
  then show ?thesis using k by blast
qed

theorem rounds_display_every_item_witness:
  "\<exists>shown. display ((Run ^^ 2) (SetPerRoundMaxItemCnt 1 (MapList_new [[(1, 2)], [(3, 4), (5, 6)]]))) = shown \<and>
     set shown = {(1, 2), (3, 4), (5, 6)}"
  using rounds_display_every_item [of "SetPerRoundMaxItemCnt 1 (MapList_new [[(1, 2)], [(3, 4), (5, 6)]])" 2]
  by (force simp: SetPerRoundMaxItemCnt_def MapList_new_def)

text \<open>At the end of the range the index wraps to 0, which is in general not the bucket after the last one: of 13
  buckets with one pair each and with the limit 1, the first 13 rounds from the greatest index leave the
  last one out.\<close>

definition thirteen :: MapList where
  "thirteen = \<lparr>kvs = map (\<lambda>i. [(of_nat i, 0)]) [0..<13], curr_bucket_idx = -1, PER_ROUND_BLOCK_ITEM_CNT = 1, display = []\<rparr>"

lemma thirteen_bucket:
  assumes "m < 13"
  shows "kvs thirteen ! m = [(of_nat m, 0)]"
  using assms by (simp add: thirteen_def del: upt_rec_numeral)

lemma thirteen_window: "length (window (kvs thirteen) i k) = k"
proof -
  have "unat (i mod 13 :: u64) < 13" for i by (simp add: unat_mod)
  then have "length (bucket_at (kvs thirteen) i) = 1" for i
    unfolding bucket_at_def by (subst thirteen_bucket) (simp_all add: bucket_count_def thirteen_def)
  then show ?thesis by (induction k) (simp_all add: window_Suc)
qed

lemma thirteen_Run:
  assumes "kvs s = kvs thirteen" "PER_ROUND_BLOCK_ITEM_CNT s = 1"
  shows "Run s = s\<lparr>curr_bucket_idx := curr_bucket_idx s + 1,
    display := display s @ window (kvs thirteen) (curr_bucket_idx s) 1\<rparr>"
proof -
  have ne: "kvs s \<noteq> []" "length (kvs s) < 2 ^ 64" unfolding assms by (simp_all add: thirteen_def)
  have one: "length (bucket_at (kvs s) (curr_bucket_idx s)) = 1"
    using thirteen_window [of "curr_bucket_idx s" 1] by (simp add: assms window_def)
  obtain r where r: "round_from (kvs s) 1 (curr_bucket_idx s) r"
      "Run s = s\<lparr>curr_bucket_idx := fst r, display := display s @ snd r\<rparr>"
    using Run_round [OF ne] assms(2) by auto
  then obtain k where "0 < k" "length (window (kvs s) (curr_bucket_idx s) k) \<le> 1"
      "r = (curr_bucket_idx s + of_nat k, window (kvs s) (curr_bucket_idx s) k)"
    unfolding round_from_def one by auto
  moreover from this have "k = 1" using thirteen_window by (simp add: assms)
  ultimately show ?thesis using r(2) by (simp add: assms)
qed

lemma thirteen_rounds:
  "(Run ^^ n) thirteen = thirteen\<lparr>curr_bucket_idx := -1 + of_nat n, display := window (kvs thirteen) (-1) n\<rparr>"
proof (induction n)
  case 0
  then show ?case by (simp add: thirteen_def)
next
  case (Suc n)
  then show ?case
    using thirteen_Run [of "(Run ^^ n) thirteen"] window_add [of "kvs thirteen" "-1" n 1]
    by (simp add: thirteen_def add.commute)
qed

lemma wrapped_index_skips_bucket:
  "map fst (display ((Run ^^ 13) thirteen)) = [2, 0, 1, 2, 3, 4, 5, 6, 7, 8, 9, 10, 11]"
  "(12, 0) \<in> set (concat (kvs thirteen))"
proof -
  have count: "bucket_count (kvs thirteen) = 13" by (simp add: bucket_count_def thirteen_def)
  have ks: "[0..<13] = [0, 1, 2, 3, 4, 5, 6, 7, 8, 9, 10, 11, 12 :: nat]" by (simp add: upt_rec)
  show "map fst (display ((Run ^^ 13) thirteen)) = [2, 0, 1, 2, 3, 4, 5, 6, 7, 8, 9, 10, 11]"
    unfolding thirteen_rounds window_def bucket_at_def count ks by (simp add: thirteen_bucket)
  have "(12, 0) \<in> set (kvs thirteen ! 12)" by (simp add: thirteen_bucket)
  moreover have "kvs thirteen ! 12 \<in> set (kvs thirteen)" by (rule nth_mem) (simp add: thirteen_def)
  ultimately show "(12, 0) \<in> set (concat (kvs thirteen))" by auto
qed

text \<open>C37: The loop of \<^verbatim>\<open>TestFillup\<close> returns for every offset and size whose end fits in 32 bits; the pieces it
  logs lie each within the buffer named and cover the range written, in order, without gap or overlap.\<close>

theorem fill_up_covers_range:
  assumes "unat offset + unat sz < 2 ^ 32"
  shows "concat (map covered (fst (fill_up offset sz))) = [unat offset..<unat offset + unat sz] \<and>
    list_all in_buffer (fst (fill_up offset sz)) \<and> snd (fill_up offset sz) = 0"
  by (rule fill_up_pieces [OF assms])

text \<open>The driver's own write.\<close>

theorem fill_up_covers_range_witness:
  "\<exists>pieces. TestFillup = Some pieces \<and> concat (map covered pieces) = [10245..<10245 + 1048575] \<and> list_all in_buffer pieces"
proof -
  have u: "unat (10245 :: u32) = 10245" "unat (1048575 :: u32) = 1048575" by simp_all
  have "unat (10245 :: u32) + unat (1048575 :: u32) < 2 ^ 32" unfolding u by simp
  note c = fill_up_covers_range [OF this, unfolded u]
  have "TestFillup = Some (fst (fill_up 10245 1048575))"
    unfolding TestFillup_def using c by (simp only: case_prod_beta simp_thms if_True)
  then show ?thesis using c by blast
qed

end
