(* ===== verification/Memory_Order.thy ===== *)
theory Memory_Order
  imports Prelude
begin

text \<open>
  \<^verbatim>\<open>example-memory-ordered/main.cc\<close>: a value published through an atomic pointer, and tasks that count
  themselves with \<^verbatim>\<open>fetch_add\<close>. For the first the memory keeps every value a location has had, and a
  thread has a view, the oldest value of each location it may still read. A release store attaches the
  view of its thread to the value it writes; an acquire load joins the view attached to the value it
  reads, which may be any value the view of its thread allows. A plain access races, and is undefined,
  when its thread does not know the newest value. Each access is a step, and the threads interleave.
\<close>

section \<open>Release and acquire\<close>

datatype memory_order = memory_order_relaxed | memory_order_acquire | memory_order_release

text \<open>The variables of the file and the string the producer allocates.\<close>

datatype loc = Ptr_loc | Data_loc | String_loc

datatype cell = Nullptr | Address loc | Number int | Text string | Uninitialised

type_synonym view = "loc \<Rightarrow> nat"
type_synonym memory = "loc \<Rightarrow> (cell \<times> view) list"

definition atomic_store :: "memory_order \<Rightarrow> loc \<Rightarrow> cell \<Rightarrow> view \<Rightarrow> memory \<Rightarrow> view \<times> memory" where
  "atomic_store mo l x v m =
     (let v' = v(l := length (m l));
          attached = (if mo = memory_order_release then v' else (\<lambda>_. 0)(l := length (m l)))
      in (v', m(l := m l @ [(x, attached)])))"

text \<open>The load of the \<open>i\<close>-th value of the location; \<open>None\<close> when the view does not allow it.\<close>

definition atomic_load :: "memory_order \<Rightarrow> loc \<Rightarrow> nat \<Rightarrow> view \<Rightarrow> memory \<Rightarrow> (cell \<times> view) option" where
  "atomic_load mo l i v m =
     (if v l \<le> i \<and> i < length (m l) then
        (let (x, attached) = m l ! i; v' = v(l := i)
         in Some (x, if mo = memory_order_acquire then (\<lambda>k. max (v' k) (attached k)) else v'))
      else None)"

definition plain_write :: "loc \<Rightarrow> cell \<Rightarrow> view \<Rightarrow> memory \<Rightarrow> (view \<times> memory) option" where
  "plain_write l x v m =
     (if v l + 1 = length (m l)
      then Some (v(l := length (m l)), m(l := m l @ [(x, (\<lambda>_. 0)(l := length (m l)))])) else None)"

definition plain_read :: "loc \<Rightarrow> view \<Rightarrow> memory \<Rightarrow> cell option" where
  "plain_read l v m = (if v l + 1 = length (m l) then Some (fst (m l ! v l)) else None)"

section \<open>Publishing a value\<close>

datatype producer_pc = Allocate | Set_data | Publish | Produced
datatype consumer_pc = Poll | Check_string | Check_data | Consumed

text \<open>\<open>p2\<close> is the local of the consumer; \<open>failed\<close> is set by a failed assertion or a race.\<close>

record exchange =
  cells :: memory
  producer_pc :: producer_pc
  producer_view :: view
  consumer_pc :: consumer_pc
  consumer_view :: view
  p2 :: cell
  failed :: bool

definition exchange_new :: exchange where
  "exchange_new =
     \<lparr>cells = (\<lambda>l. [(case l of Ptr_loc \<Rightarrow> Nullptr | Data_loc \<Rightarrow> Number 0 | String_loc \<Rightarrow> Uninitialised, \<lambda>_. 0)]),
       producer_pc = Allocate, producer_view = (\<lambda>_. 0), consumer_pc = Poll, consumer_view = (\<lambda>_. 0),
       p2 = Uninitialised, failed = False\<rparr>"

text \<open>One access of \<^verbatim>\<open>producer\<close>.\<close>

definition producer :: "exchange \<Rightarrow> exchange" where
  "producer s =
     (case producer_pc s of
        Allocate \<Rightarrow>
          (case plain_write String_loc (Text ''Hello'') (producer_view s) (cells s) of
             None \<Rightarrow> s\<lparr>failed := True\<rparr>
           | Some (v, m) \<Rightarrow> s\<lparr>cells := m, producer_view := v, producer_pc := Set_data\<rparr>)
      | Set_data \<Rightarrow>
          (case plain_write Data_loc (Number 42) (producer_view s) (cells s) of
             None \<Rightarrow> s\<lparr>failed := True\<rparr>
           | Some (v, m) \<Rightarrow> s\<lparr>cells := m, producer_view := v, producer_pc := Publish\<rparr>)
      | Publish \<Rightarrow>
          (case atomic_store memory_order_release Ptr_loc (Address String_loc) (producer_view s) (cells s) of
             (v, m) \<Rightarrow> s\<lparr>cells := m, producer_view := v, producer_pc := Produced\<rparr>)
      | Produced \<Rightarrow> s)"

text \<open>One access of \<^verbatim>\<open>consumer\<close>; \<open>i\<close> says which value of the pointer the load of the loop returns.\<close>

definition consumer :: "nat \<Rightarrow> exchange \<Rightarrow> exchange" where
  "consumer i s =
     (case consumer_pc s of
        Poll \<Rightarrow>
          (case atomic_load memory_order_acquire Ptr_loc i (consumer_view s) (cells s) of
             None \<Rightarrow> s
           | Some (x, v) \<Rightarrow>
               s\<lparr>p2 := x, consumer_view := v, consumer_pc := (if x = Nullptr then Poll else Check_string)\<rparr>)
      | Check_string \<Rightarrow>
          (case p2 s of
             Address l \<Rightarrow>
               (if plain_read l (consumer_view s) (cells s) = Some (Text ''Hello'')
                then s\<lparr>consumer_pc := Check_data\<rparr> else s\<lparr>failed := True\<rparr>)
           | _ \<Rightarrow> s\<lparr>failed := True\<rparr>)
      | Check_data \<Rightarrow>
          (if plain_read Data_loc (consumer_view s) (cells s) = Some (Number 42)
           then s\<lparr>consumer_pc := Consumed\<rparr> else s\<lparr>failed := True\<rparr>)
      | Consumed \<Rightarrow> s)"

inductive exchange_step :: "exchange \<Rightarrow> exchange \<Rightarrow> bool" where
  produce: "exchange_step s (producer s)"
| consume: "exchange_step s (consumer i s)"

inductive_cases exchange_stepE: "exchange_step s t"

definition exchange_init :: "exchange \<Rightarrow> bool" where
  "exchange_init s \<longleftrightarrow> s = exchange_new"

subsection \<open>Invariant\<close>

text \<open>Where the producer is determines the memory and its view; once the consumer has left its loop it
  knows every value.\<close>

definition stored :: "producer_pc \<Rightarrow> loc \<Rightarrow> bool" where
  "stored pc l = (case l of Ptr_loc \<Rightarrow> pc = Produced | Data_loc \<Rightarrow> pc \<in> {Publish, Produced} | String_loc \<Rightarrow> pc \<noteq> Allocate)"

definition last_view :: "producer_pc \<Rightarrow> view" where
  "last_view pc = (\<lambda>l. of_bool (stored pc l))"

definition published :: "loc \<Rightarrow> cell \<times> view" where
  "published l =
     (case l of Ptr_loc \<Rightarrow> (Address String_loc, last_view Produced)
      | Data_loc \<Rightarrow> (Number 42, (\<lambda>_. 0)(Data_loc := 1))
      | String_loc \<Rightarrow> (Text ''Hello'', (\<lambda>_. 0)(String_loc := 1)))"

definition cells_at :: "producer_pc \<Rightarrow> memory" where
  "cells_at pc = (\<lambda>l. cells exchange_new l @ (if stored pc l then [published l] else []))"

definition exchange_inv :: "exchange \<Rightarrow> bool" where
  "exchange_inv s \<longleftrightarrow>
     cells s = cells_at (producer_pc s) \<and> producer_view s = last_view (producer_pc s) \<and> \<not> failed s \<and>
     (if consumer_pc s = Poll then consumer_view s = (\<lambda>_. 0)
      else producer_pc s = Produced \<and> consumer_view s = last_view Produced \<and> p2 s = Address String_loc)"

lemmas exchange_defs = cells_at_def last_view_def stored_def published_def exchange_new_def

lemma last_view_Produced: "last_view Produced = (\<lambda>_. 1)"
  by (auto simp: last_view_def stored_def fun_eq_iff split: loc.splits)

lemma producer_effect:
  "plain_write String_loc (Text ''Hello'') (last_view Allocate) (cells_at Allocate) =
     Some (last_view Set_data, cells_at Set_data)"
  "plain_write Data_loc (Number 42) (last_view Set_data) (cells_at Set_data) = Some (last_view Publish, cells_at Publish)"
  "atomic_store memory_order_release Ptr_loc (Address String_loc) (last_view Publish) (cells_at Publish) =
     (last_view Produced, cells_at Produced)"
  by (auto simp: plain_write_def atomic_store_def Let_def exchange_defs fun_eq_iff split: loc.splits)

lemma producer_inv: "exchange_inv s \<Longrightarrow> exchange_inv (producer s)"
proof (cases "producer_pc s = Produced")
  case False
  assume inv: "exchange_inv s"
  then have "consumer_pc s = Poll" "consumer_view s = (\<lambda>_. 0)" using False
    by (auto simp: exchange_inv_def split: if_splits)
  then show ?thesis using inv False
    by (cases "producer_pc s") (simp_all add: exchange_inv_def producer_def producer_effect)
qed (simp add: producer_def)

lemma poll_reads:
  assumes "atomic_load memory_order_acquire Ptr_loc i (\<lambda>_. 0) (cells_at pc) = Some (x, v)"
  shows "x = Nullptr \<and> v = (\<lambda>_. 0) \<or> pc = Produced \<and> x = Address String_loc \<and> v = last_view Produced"
proof -
  have "i < length (cells_at pc Ptr_loc)" using assms by (simp add: atomic_load_def split: if_splits)
  then have "i = 0 \<or> i = 1 \<and> pc = Produced"
    by (auto simp: cells_at_def exchange_new_def stored_def split: if_splits)
  then show ?thesis
  proof
    assume "i = 0"
    then show ?thesis using assms
      by (auto simp: atomic_load_def cells_at_def exchange_new_def fun_eq_iff split: if_splits)
  next
    assume i: "i = 1 \<and> pc = Produced"
    have m: "cells_at Produced Ptr_loc = [(Nullptr, \<lambda>_. 0), (Address String_loc, \<lambda>_. 1)]"
      by (simp add: cells_at_def exchange_new_def stored_def published_def last_view_Produced)
    then have "x = Address String_loc \<and> v = (\<lambda>k. max (((\<lambda>_. 0)(Ptr_loc := 1)) k) 1)"
      using assms i by (auto simp: atomic_load_def)
    then show ?thesis using i by (auto simp: last_view_Produced fun_eq_iff)
  qed
qed

lemma reads_published:
  "plain_read String_loc (last_view Produced) (cells_at Produced) = Some (Text ''Hello'')"
  "plain_read Data_loc (last_view Produced) (cells_at Produced) = Some (Number 42)"
  by (simp_all add: plain_read_def last_view_Produced cells_at_def exchange_new_def stored_def published_def)

lemma consumer_inv: "exchange_inv s \<Longrightarrow> exchange_inv (consumer i s)"
proof (cases "consumer_pc s")
  case Poll
  assume inv: "exchange_inv s"
  show ?thesis
  proof (cases "atomic_load memory_order_acquire Ptr_loc i (consumer_view s) (cells s)")
    case None
    then show ?thesis using inv Poll by (simp add: consumer_def)
  next
    case (Some xv)
    obtain x v where xv: "xv = (x, v)" by (cases xv)
    have "atomic_load memory_order_acquire Ptr_loc i (\<lambda>_. 0) (cells_at (producer_pc s)) = Some (x, v)"
      using Some inv Poll by (simp add: exchange_inv_def xv)
    from poll_reads [OF this] show ?thesis
      using Some inv Poll by (elim disjE conjE) (simp_all add: consumer_def exchange_inv_def xv)
  qed
qed (auto simp: consumer_def exchange_inv_def reads_published)

interpretation message_passing: inductive_invariant exchange_init exchange_step exchange_inv
proof unfold_locales
  show "exchange_init s \<Longrightarrow> exchange_inv s" for s
    by (auto simp: exchange_init_def exchange_inv_def exchange_defs fun_eq_iff split: loc.splits)
  show "exchange_step s t \<Longrightarrow> exchange_inv t" if "exchange_inv s" for s t
    using that by (auto elim: exchange_stepE intro: producer_inv consumer_inv)
qed

text \<open>From every reachable state both threads can finish: the producer never waits, and the consumer leaves
  its loop with the first load that returns the pointer.\<close>

definition finish :: "exchange \<Rightarrow> exchange" where
  "finish s = (consumer 1 ^^ 3) ((producer ^^ 3) s)"

lemma producer_finishes: "exchange_inv s \<Longrightarrow> producer_pc ((producer ^^ 3) s) = Produced"
  by (cases "producer_pc s") (simp_all add: numeral_3_eq_3 exchange_inv_def producer_def producer_effect)

lemma consumer_finishes:
  assumes "exchange_inv s" "producer_pc s = Produced"
  shows "consumer_pc ((consumer 1 ^^ 3) s) = Consumed \<and> producer_pc ((consumer 1 ^^ 3) s) = Produced"
proof -
  have "atomic_load memory_order_acquire Ptr_loc 1 (\<lambda>_. 0) (cells_at Produced) = Some (Address String_loc, last_view Produced)"
    by (auto simp: atomic_load_def Let_def exchange_defs fun_eq_iff split: loc.splits)
  then show ?thesis using assms
    by (cases "consumer_pc s") (simp_all add: numeral_3_eq_3 exchange_inv_def consumer_def reads_published)
qed

lemma producer_steps: "exchange_step\<^sup>*\<^sup>* s ((producer ^^ n) s)"
  by (induction n) (auto intro: rtranclp.rtrancl_into_rtrancl produce)

lemma consumer_steps: "exchange_step\<^sup>*\<^sup>* s ((consumer i ^^ n) s)"
  by (induction n) (auto intro: rtranclp.rtrancl_into_rtrancl consume)

lemma reachable_accesses:
  "reachable exchange_init exchange_step s \<Longrightarrow> reachable exchange_init exchange_step (producer s)"
  "reachable exchange_init exchange_step s \<Longrightarrow> reachable exchange_init exchange_step (consumer i s)"
  using reach_step produce consume by metis+

text \<open>C10: Whatever the interleaving, and whichever of the stores visible to it each load of the consumer
  returns, the two assertions of \<^verbatim>\<open>consumer\<close> hold and its plain reads do not race with the producer's
  writes; and both threads can finish from every state they can reach.\<close>

theorem release_acquire_publishes:
  assumes "reachable exchange_init exchange_step s"
  shows "\<not> failed s \<and>
    (\<exists>t. exchange_step\<^sup>*\<^sup>* s t \<and> producer_pc t = Produced \<and> consumer_pc t = Consumed \<and> \<not> failed t)"
proof -
  let ?p = "(producer ^^ 3) s" and ?t = "(consumer 1 ^^ 3) ((producer ^^ 3) s)"
  have inv: "exchange_inv s" by (rule message_passing.reachable_inv [OF assms])
  then have p: "exchange_inv ?p" by (rule message_passing.steps_inv [OF producer_steps])
  have t: "exchange_step\<^sup>*\<^sup>* s ?t" by (rule rtranclp_trans [OF producer_steps consumer_steps])
  have "exchange_inv ?t" by (rule message_passing.steps_inv [OF consumer_steps p])
  then show ?thesis
    using inv t consumer_finishes [OF p producer_finishes [OF inv]] unfolding exchange_inv_def by blast
qed

text \<open>The consumer polls once before the producer has stored the pointer.\<close>

theorem release_acquire_publishes_witness:
  "\<not> failed (consumer 0 (producer (producer exchange_new))) \<and>
     (\<exists>t. exchange_step\<^sup>*\<^sup>* (consumer 0 (producer (producer exchange_new))) t \<and> consumer_pc t = Consumed)"
proof -
  have "reachable exchange_init exchange_step exchange_new" by (rule reach_init) (simp add: exchange_init_def)
  then have "reachable exchange_init exchange_step (consumer 0 (producer (producer exchange_new)))"
    by (intro reachable_accesses)
  from release_acquire_publishes [OF this] show ?thesis by blast
qed

section \<open>Counting tasks\<close>

text \<open>A \<^verbatim>\<open>fetch_add\<close> reads the newest value of its variable and replaces it in one step, so the counter needs
  no views. \<open>task_output\<close> is what the threads have stored.\<close>

definition TOTAL_TASKS :: nat where
  "TOTAL_TASKS = 5"

datatype task_pc = Working | Counting | Testing | Finished
datatype message = Task_completed nat | All_tasks_completed

record tasks =
  completed_tasks :: int
  task_pcs :: "nat \<Rightarrow> task_pc"
  task_prev :: "nat \<Rightarrow> int"
  task_output :: "message list"

definition tasks_new :: tasks where
  "tasks_new = \<lparr>completed_tasks = 0, task_pcs = (\<lambda>_. Working), task_prev = (\<lambda>_. 0), task_output = []\<rparr>"

definition on_all_tasks_completed :: "tasks \<Rightarrow> tasks" where
  "on_all_tasks_completed s = s\<lparr>task_output := task_output s @ [All_tasks_completed]\<rparr>"

definition perform_task :: "nat \<Rightarrow> tasks \<Rightarrow> tasks" where
  "perform_task i s =
     (case task_pcs s i of
        Working \<Rightarrow> s\<lparr>task_output := task_output s @ [Task_completed i], task_pcs := (task_pcs s)(i := Counting)\<rparr>
      | Counting \<Rightarrow>
          s\<lparr>task_prev := (task_prev s)(i := completed_tasks s), completed_tasks := completed_tasks s + 1,
            task_pcs := (task_pcs s)(i := Testing)\<rparr>
      | Testing \<Rightarrow>
          (if task_prev s i + 1 = int TOTAL_TASKS then on_all_tasks_completed s else s)
            \<lparr>task_pcs := (task_pcs s)(i := Finished)\<rparr>
      | Finished \<Rightarrow> s)"

text \<open>The threads of \<^verbatim>\<open>TestMmeoryOrderedAcqRel\<close>.\<close>

inductive task_step :: "tasks \<Rightarrow> tasks \<Rightarrow> bool" where
  perform: "i < TOTAL_TASKS \<Longrightarrow> task_step s (perform_task i s)"

inductive_cases task_stepE: "task_step s t"

definition task_init :: "tasks \<Rightarrow> bool" where
  "task_init s \<longleftrightarrow> s = tasks_new"

definition counted :: "tasks \<Rightarrow> nat set" where
  "counted s = {i. i < TOTAL_TASKS \<and> task_pcs s i \<in> {Testing, Finished}}"

definition counts :: "tasks \<Rightarrow> bool" where
  "counts s \<longleftrightarrow>
     completed_tasks s = int (card (counted s)) \<and> inj_on (task_prev s) (counted s) \<and>
     (\<forall>i\<in>counted s. 0 \<le> task_prev s i \<and> task_prev s i < completed_tasks s) \<and>
     (\<forall>i<TOTAL_TASKS. task_pcs s i \<noteq> Working \<longrightarrow> Task_completed i \<in> set (task_output s))"

definition reported :: "tasks \<Rightarrow> bool" where
  "reported s \<longleftrightarrow> (\<exists>i<TOTAL_TASKS. task_pcs s i = Finished \<and> task_prev s i + 1 = int TOTAL_TASKS)"

definition report_last :: "tasks \<Rightarrow> bool" where
  "report_last s \<longleftrightarrow>
     (if reported s
      then (\<exists>pre. task_output s = pre @ [All_tasks_completed] \<and> All_tasks_completed \<notin> set pre \<and>
              (\<forall>i<TOTAL_TASKS. Task_completed i \<in> set pre))
      else All_tasks_completed \<notin> set (task_output s))"

definition tasks_inv :: "tasks \<Rightarrow> bool" where
  "tasks_inv s \<longleftrightarrow> counts s \<and> report_last s"

lemma counted_finite [simp]: "finite (counted s)"
  by (simp add: counted_def)

lemma counted_le: "card (counted s) \<le> TOTAL_TASKS"
  using card_mono [of "{..<TOTAL_TASKS}" "counted s"] by (auto simp: counted_def)

text \<open>When some task has read \<open>TOTAL_TASKS - 1\<close>, every task has counted itself.\<close>

lemma last_count:
  assumes "counts s" "i < TOTAL_TASKS" "i \<in> counted s" "task_prev s i + 1 = int TOTAL_TASKS" "k < TOTAL_TASKS"
  shows "task_pcs s k \<in> {Testing, Finished}"
proof -
  have "int TOTAL_TASKS \<le> int (card (counted s))" using assms(1,3,4) by (fastforce simp: counts_def)
  then have "card (counted s) = card {..<TOTAL_TASKS}" using counted_le [of s] by simp
  moreover have "counted s \<subseteq> {..<TOTAL_TASKS}" by (auto simp: counted_def)
  ultimately have "counted s = {..<TOTAL_TASKS}" by (intro card_subset_eq) simp_all
  then show ?thesis using assms(5) by (auto simp: counted_def)
qed

lemma counts_step:
  assumes "counts s" "i < TOTAL_TASKS"
  shows "counts (perform_task i s)"
proof (cases "task_pcs s i")
  case Working
  then have "counted (perform_task i s) = counted s" by (auto simp: counted_def perform_task_def)
  then show ?thesis using assms Working by (auto simp: counts_def perform_task_def)
next
  case Counting
  let ?t = "perform_task i s"
  have i: "i \<notin> counted s" "counted ?t = insert i (counted s)"
    using Counting assms(2) by (auto simp: counted_def perform_task_def)
  have "task_prev ?t k = task_prev s k" if "k \<in> counted s" for k
    using that i(1) Counting by (auto simp: perform_task_def)
  then have prev: "inj_on (task_prev ?t) (counted s) = inj_on (task_prev s) (counted s)"
      "task_prev ?t ` counted s = task_prev s ` counted s"
    by (auto cong: inj_on_cong image_cong)
  have "task_prev ?t i = completed_tasks s" "completed_tasks ?t = completed_tasks s + 1"
      "task_output ?t = task_output s" using Counting by (simp_all add: perform_task_def)
  moreover have "task_prev s k \<noteq> completed_tasks s" if "k \<in> counted s" for k
    using that assms(1) by (fastforce simp: counts_def)
  ultimately show ?thesis using assms Counting i prev
    by (auto simp: counts_def perform_task_def)
next
  case Testing
  then have "counted (perform_task i s) = counted s"
    by (auto simp: counted_def perform_task_def on_all_tasks_completed_def)
  then show ?thesis using assms Testing by (auto simp: counts_def perform_task_def on_all_tasks_completed_def)
qed (use assms in \<open>simp add: perform_task_def\<close>)

text \<open>A step reports exactly when it is the test of the task that read \<open>TOTAL_TASKS - 1\<close>.\<close>

lemma report_last_step:
  assumes inv: "counts s" "report_last s" and i: "i < TOTAL_TASKS"
  shows "report_last (perform_task i s)"
proof (cases "reported s")
  case True
  then obtain k where k: "k < TOTAL_TASKS" "task_pcs s k = Finished" "task_prev s k + 1 = int TOTAL_TASKS"
    by (auto simp: reported_def)
  have kc: "k \<in> counted s" using k(1,2) by (simp add: counted_def)
  have "task_pcs s i \<in> {Testing, Finished}" by (rule last_count [OF inv(1) k(1) kc k(3) i])
  moreover have "task_prev s i + 1 \<noteq> int TOTAL_TASKS" if "task_pcs s i = Testing"
  proof
    assume "task_prev s i + 1 = int TOTAL_TASKS"
    then have "task_prev s i = task_prev s k" using k(3) by simp
    moreover have "i \<in> counted s" using that i by (simp add: counted_def)
    ultimately have "i = k" using inv(1) kc by (auto simp: counts_def dest: inj_onD)
    then show False using that k(2) by simp
  qed
  ultimately have same: "task_output (perform_task i s) = task_output s" "task_prev (perform_task i s) = task_prev s"
      "task_pcs (perform_task i s) = (task_pcs s)(i := Finished)"
    by (auto simp: perform_task_def fun_eq_iff)
  then have "reported (perform_task i s)" using k by (auto simp: reported_def)
  then show ?thesis using inv(2) True same(1) by (simp add: report_last_def)
next
  case False
  show ?thesis
  proof (cases "task_pcs s i = Testing \<and> task_prev s i + 1 = int TOTAL_TASKS")
    case True
    then have "i \<in> counted s" using i by (simp add: counted_def)
    then have "task_pcs s k \<in> {Testing, Finished}" if "k < TOTAL_TASKS" for k
      using last_count [OF inv(1) i] True that by blast
    then have "\<forall>k<TOTAL_TASKS. Task_completed k \<in> set (task_output s)"
      using inv(1) by (fastforce simp: counts_def)
    moreover have "All_tasks_completed \<notin> set (task_output s)" using inv(2) False by (simp add: report_last_def)
    moreover have "reported (perform_task i s)" "task_output (perform_task i s) = task_output s @ [All_tasks_completed]"
      using True i by (auto simp: reported_def perform_task_def on_all_tasks_completed_def)
    ultimately show ?thesis by (auto simp: report_last_def)
  next
    case no: False
    have "\<not> reported (perform_task i s)" using False no
      by (cases "task_pcs s i") (auto simp: reported_def perform_task_def on_all_tasks_completed_def split: if_splits)
    moreover have "All_tasks_completed \<notin> set (task_output (perform_task i s))"
      using inv(2) False no
      by (cases "task_pcs s i") (auto simp: report_last_def perform_task_def on_all_tasks_completed_def)
    ultimately show ?thesis by (simp add: report_last_def)
  qed
qed

interpretation counter: inductive_invariant task_init task_step tasks_inv
proof unfold_locales
  show "task_init s \<Longrightarrow> tasks_inv s" for s
    by (simp add: task_init_def tasks_inv_def counts_def report_last_def reported_def counted_def tasks_new_def)
  show "tasks_inv s \<Longrightarrow> task_step s t \<Longrightarrow> tasks_inv t" for s t
    unfolding tasks_inv_def by (auto elim!: task_stepE intro: counts_step report_last_step)
qed

lemma all_finished_reported:
  assumes "counts s" "\<forall>i<TOTAL_TASKS. task_pcs s i = Finished"
  shows "reported s"
proof -
  have c: "counted s = {..<TOTAL_TASKS}" using assms(2) by (auto simp: counted_def)
  have "task_prev s ` counted s \<subseteq> {0..<int TOTAL_TASKS}" using assms(1) c by (auto simp: counts_def)
  moreover have "card (task_prev s ` counted s) = card {0..<int TOTAL_TASKS}"
    using assms(1) c by (simp add: counts_def card_image)
  ultimately have "task_prev s ` counted s = {0..<int TOTAL_TASKS}" by (intro card_subset_eq) simp_all
  then have "int TOTAL_TASKS - 1 \<in> task_prev s ` counted s" by (simp add: TOTAL_TASKS_def)
  then obtain i where "i < TOTAL_TASKS" "task_prev s i + 1 = int TOTAL_TASKS" using c by auto
  then show ?thesis using assms(2) by (auto simp: reported_def)
qed

text \<open>C30: Whatever the interleaving of the tasks, \<^verbatim>\<open>on_all_tasks_completed\<close> runs at most once, after every task
  has written its line and with nothing written after it; and it has run when all the threads can be joined.\<close>

theorem last_task_reports:
  assumes "reachable task_init task_step s"
  shows "(All_tasks_completed \<in> set (task_output s) \<longrightarrow>
      (\<exists>pre. task_output s = pre @ [All_tasks_completed] \<and> All_tasks_completed \<notin> set pre \<and>
        (\<forall>i<TOTAL_TASKS. Task_completed i \<in> set pre))) \<and>
    ((\<forall>i<TOTAL_TASKS. task_pcs s i = Finished) \<longrightarrow> All_tasks_completed \<in> set (task_output s))"
proof -
  have "tasks_inv s" by (rule counter.reachable_inv [OF assms])
  then have c: "counts s" and r: "report_last s" by (simp_all add: tasks_inv_def)
  show ?thesis using r all_finished_reported [OF c] by (auto simp: report_last_def split: if_splits)
qed

definition run_tasks :: "nat list \<Rightarrow> tasks" where
  "run_tasks is = fold perform_task is tasks_new"

lemma run_tasks_reachable: "list_all (\<lambda>i. i < TOTAL_TASKS) is \<Longrightarrow> reachable task_init task_step (run_tasks is)"
  by (induction "is" rule: rev_induct)
    (auto simp: run_tasks_def task_init_def intro: reach_init reach_step perform)

text \<open>The tasks count themselves in the order 4, 3, 2, 1, 0 and test in the order of their numbers.\<close>

theorem last_task_reports_witness:
  "\<exists>pre. task_output (run_tasks ([4, 3, 2, 1, 0] @ [4, 3, 2, 1, 0] @ [0, 1, 2, 3, 4])) = pre @ [All_tasks_completed] \<and>
     All_tasks_completed \<notin> set pre"
proof -
  let ?s = "run_tasks ([4, 3, 2, 1, 0] @ [4, 3, 2, 1, 0] @ [0, 1, 2, 3, 4])"
  have "reachable task_init task_step ?s" by (rule run_tasks_reachable) (simp add: TOTAL_TASKS_def)
  moreover have "task_pcs ?s i = Finished" if "i < TOTAL_TASKS" for i
  proof -
    have "i \<in> {0, 1, 2, 3, 4}" using that by (auto simp: TOTAL_TASKS_def)
    then show ?thesis by (auto simp: run_tasks_def perform_task_def tasks_new_def on_all_tasks_completed_def TOTAL_TASKS_def)
  qed
  ultimately show ?thesis using last_task_reports [of ?s] by blast
qed

end
