(* ===== verification/Ping_Pong.thy ===== *)
theory Ping_Pong
  imports Group_Commit "HOL-Library.Monad_Syntax"
begin

text \<open>
  The drivers of \<^verbatim>\<open>example-ping-pong-batch/main.cc\<close>: the steps of the group commit as moves of an
  executable schedule, a single writer, and four writers on threads of their own. Here the batches
  that are built with \<^verbatim>\<open>Put\<close> and \<^verbatim>\<open>Delete\<close> meet the protocol that logs them.
\<close>

section \<open>Schedules\<close>

datatype move = Enter nat | Wait_turn nat | Wake nat | Return_done nat | Lead nat | Write_io nat | Notify nat

text \<open>A move is \<open>None\<close> where the step relation does not allow it.\<close>

definition make_group :: "nat \<Rightarrow> db \<Rightarrow> db option" where
  "make_group t d =
     map_option (\<lambda>(d', last_writer). (Unlock d')\<lparr>wpc := (wpc d')(t := Writing last_writer)\<rparr>) (BuildBatchGroup d)"

definition notify_group :: "nat \<Rightarrow> nat \<Rightarrow> db \<Rightarrow> db option" where
  "notify_group t last_writer d =
     map_option (\<lambda>d'. (Unlock (signal_front d'))\<lparr>wpc := (wpc d')(t := Returned OK)\<rparr>)
       (notify_loop t last_writer OK (writers d) (Lock t d))"

fun db_move :: "move \<Rightarrow> db \<Rightarrow> db option" where
  "db_move (Enter t) d =
     (case wpc d t of
        Idle \<Rightarrow>
          if mu d = None
          then Some ((Lock t d)\<lparr>writers := writers d @ [t], wpc := (wpc d)(t := AtLoop),
                                w_done := (w_done d)(t := False), w_status := (w_status d)(t := OK)\<rparr>)
          else None
      | _ \<Rightarrow> None)"
| "db_move (Wait_turn t) d =
     (case wpc d t of
        AtLoop \<Rightarrow> if mu d = Some t \<and> \<not> w_done d t \<and> hd (writers d) \<noteq> t then Some (Wait t d) else None
      | _ \<Rightarrow> None)"
| "db_move (Wake t) d =
     (case wpc d t of
        Blocked \<Rightarrow> if signalled d t \<and> mu d = None then Some ((Lock t d)\<lparr>wpc := (wpc d)(t := AtLoop)\<rparr>) else None
      | _ \<Rightarrow> None)"
| "db_move (Return_done t) d =
     (case wpc d t of
        AtLoop \<Rightarrow>
          if mu d = Some t \<and> w_done d t
          then Some ((Unlock d)\<lparr>wpc := (wpc d)(t := Returned (w_status d t))\<rparr>) else None
      | _ \<Rightarrow> None)"
| "db_move (Lead t) d =
     (case wpc d t of
        AtLoop \<Rightarrow>
          if mu d = Some t \<and> \<not> w_done d t \<and> writers d \<noteq> [] \<and> hd (writers d) = t then make_group t d else None
      | _ \<Rightarrow> None)"
| "db_move (Write_io t) d =
     (case wpc d t of
        Writing last_writer \<Rightarrow> Some (d\<lparr>wal := wal d @ [w_batch d t], wpc := (wpc d)(t := Relock last_writer)\<rparr>)
      | _ \<Rightarrow> None)"
| "db_move (Notify t) d =
     (case wpc d t of
        Relock last_writer \<Rightarrow> if mu d = None then notify_group t last_writer d else None
      | _ \<Rightarrow> None)"

fun db_moves :: "move list \<Rightarrow> db \<Rightarrow> db option" where
  "db_moves [] d = Some d"
| "db_moves (m # ms) d = Option.bind (db_move m d) (db_moves ms)"

lemma db_move_step: "db_move m d = Some d' \<Longrightarrow> db_step d d'"
proof (cases m)
  case (Lead t)
  assume "db_move m d = Some d'"
  then show ?thesis using Lead by (auto simp: make_group_def split: pc.splits if_splits intro: lead)
next
  case (Notify t)
  assume "db_move m d = Some d'"
  then show ?thesis using Notify by (auto simp: notify_group_def split: pc.splits if_splits intro: notify)
qed (auto split: pc.splits if_splits intro: enter wait wake return_done write_io)

lemma db_moves_steps: "db_moves ms d = Some d' \<Longrightarrow> db_step\<^sup>*\<^sup>* d d'"
  by (induction ms arbitrary: d)
    (auto split: Option.bind_splits intro: converse_rtranclp_into_rtranclp db_move_step)

text \<open>A move of one writer leaves the program counters of the others.\<close>

fun mover :: "move \<Rightarrow> nat" where
  "mover (Enter t) = t"
| "mover (Wait_turn t) = t"
| "mover (Wake t) = t"
| "mover (Return_done t) = t"
| "mover (Lead t) = t"
| "mover (Write_io t) = t"
| "mover (Notify t) = t"

lemma Signal_wpc [simp]: "wpc (Signal t d) = wpc d"
  by (simp add: Signal_def)

lemma signal_front_wpc [simp]: "wpc (signal_front d) = wpc d"
  by (simp add: signal_front_def split: list.splits)

lemma notify_loop_wpc: "notify_loop w l st ws d = Some d' \<Longrightarrow> wpc d' = wpc d"
proof (induction ws arbitrary: d)
  case (Cons r ws)
  define d1 where "d1 = d\<lparr>writers := ws, popped := popped d @ [r]\<rparr>"
  define d2 where "d2 = (if r \<noteq> w then Signal r (d1\<lparr>w_done := (w_done d1)(r := True), w_status := (w_status d1)(r := st)\<rparr>) else d1)"
  have d2: "wpc d2 = wpc d" by (simp add: d2_def d1_def)
  have "(if r = l then Some d2 else notify_loop w l st ws d2) = Some d'"
    using Cons.prems by (simp only: notify_loop.simps Let_def d1_def d2_def)
  then show ?case using Cons.IH [of d2] d2 by (cases "r = l") simp_all
qed simp

lemma db_move_frame: "db_move m d = Some d' \<Longrightarrow> u \<noteq> mover m \<Longrightarrow> wpc d' u = wpc d u"
proof (cases m)
  case (Lead t)
  assume "db_move m d = Some d'" "u \<noteq> mover m"
  then show ?thesis using Lead
    by (auto simp: make_group_def BuildBatchGroup_def Unlock_def split: pc.splits if_splits list.splits)
next
  case (Notify t)
  assume "db_move m d = Some d'" "u \<noteq> mover m"
  then show ?thesis using Notify
    by (auto simp: notify_group_def Unlock_def Lock_def dest!: notify_loop_wpc split: pc.splits if_splits)
qed (auto simp: Lock_def Unlock_def Wait_def split: pc.splits if_splits)

lemma db_moves_frame: "db_moves ms d = Some d' \<Longrightarrow> u \<notin> mover ` set ms \<Longrightarrow> wpc d' u = wpc d u"
  by (induction ms arbitrary: d) (auto split: Option.bind_splits dest: db_move_frame)

section \<open>The drivers\<close>

definition DBImpl_new :: "(nat \<Rightarrow> WriteBatch) \<Rightarrow> db" where
  "DBImpl_new bs =
     \<lparr>mu = None, writers = [], wpc = (\<lambda>_. Idle), w_batch = bs, w_done = (\<lambda>_. False), w_status = (\<lambda>_. OK),
      signalled = (\<lambda>_. False), wal = [], popped = []\<rparr>"

definition returned_ok :: "db \<Rightarrow> nat \<Rightarrow> bool" where
  "returned_ok d t = (case wpc d t of Returned s \<Rightarrow> ok s | _ \<Rightarrow> False)"

definition TestPingPongBatchFunctional :: "(bool \<times> WriteBatch list) option" where
  "TestPingPongBatchFunctional =
     do { w \<leftarrow> Put (slice_of_lit ''k0'') (slice_of_lit ''hello'') WriteBatch_new;
          w \<leftarrow> Put (slice_of_lit ''k1'') (slice_of_lit ''world'') w;
          w \<leftarrow> Delete (slice_of_lit ''k0'') w;
          d \<leftarrow> db_moves [Enter 0, Lead 0, Write_io 0, Notify 0] (DBImpl_new (\<lambda>_. w));
          Some (returned_ok d 0, wal d) }"

text \<open>The keys \<open>k0\<close> to \<open>k3\<close> and the values \<open>v0\<close> to \<open>v3\<close>.\<close>

definition numbered :: "char \<Rightarrow> nat \<Rightarrow> slice" where
  "numbered c t = slice_of_lit [c, char_of (48 + t)]"

definition TestPingPongBatch_batch :: "nat \<Rightarrow> WriteBatch option" where
  "TestPingPongBatch_batch t = Put (numbered CHR ''k'' t) (numbered CHR ''v'' t) WriteBatch_new"

definition TestPingPongBatch :: db where
  "TestPingPongBatch =
     DBImpl_new (\<lambda>t. case (if t < 4 then TestPingPongBatch_batch t else Some WriteBatch_new) of
       Some w \<Rightarrow> w | None \<Rightarrow> WriteBatch_new)"

definition driver_ops :: "nat \<Rightarrow> batch_op list" where
  "driver_ops t = (if t < 4 then [OpPut (numbered CHR ''k'' t) (numbered CHR ''v'' t)] else [])"

lemma driver_batch: "represents (w_batch TestPingPongBatch t) 0 (driver_ops t)"
  using Put_represents [OF WriteBatch_new_represents, of "numbered CHR ''k'' t" "numbered CHR ''v'' t"]
  by (auto simp: TestPingPongBatch_def DBImpl_new_def TestPingPongBatch_batch_def driver_ops_def
      WriteBatch_new_represents)

lemma driver_init: "db_init driver_ops TestPingPongBatch"
proof -
  have "mu TestPingPongBatch = None \<and> writers TestPingPongBatch = [] \<and> wal TestPingPongBatch = [] \<and>
      popped TestPingPongBatch = [] \<and> wpc TestPingPongBatch = (\<lambda>_. Idle)"
    by (simp add: TestPingPongBatch_def DBImpl_new_def)
  then show ?thesis using driver_batch unfolding db_init_def by auto
qed

lemma driver_reachable: "db_step\<^sup>*\<^sup>* TestPingPongBatch d \<Longrightarrow> reachable (db_init driver_ops) db_step d"
  using reachable_rtranclp reach_init driver_init by metis

lemma driver_inv: "db_step\<^sup>*\<^sup>* TestPingPongBatch d \<Longrightarrow> db_inv driver_ops d"
  by (rule reachable_db_inv, erule driver_reachable) (simp add: driver_ops_def)

lemma driver_ops_concat: "\<forall>t\<in>set ts. t < 4 \<Longrightarrow>
    concat (map driver_ops ts) = map (\<lambda>t. OpPut (numbered CHR ''k'' t) (numbered CHR ''v'' t)) ts"
  by (induction ts) (auto simp: driver_ops_def)

section \<open>Properties\<close>

text \<open>C9: The driver with four threads: however the calls of \<^verbatim>\<open>Write\<close> interleave, once all four have returned
  each has returned OK and the log holds the four \<^verbatim>\<open>Put\<close> operations, each exactly once, in some order.\<close>

theorem four_writers_log_everything:
  assumes "db_step\<^sup>*\<^sup>* TestPingPongBatch d"
    and "\<forall>t<4. \<exists>st. wpc d t = Returned st" and "\<forall>t\<ge>4. wpc d t = Idle"
  shows "(\<forall>t<4. wpc d t = Returned OK) \<and>
    (\<exists>ts. mset ts = mset [0, 1, 2, 3] \<and>
       logged d (map (\<lambda>t. OpPut (numbered CHR ''k'' t) (numbered CHR ''v'' t)) ts))"
proof
  note inv = driver_inv [OF assms(1)]
  show "\<forall>t<4. wpc d t = Returned OK" using assms(2) returned_committed [OF inv] by fastforce
  obtain n where n: "committed d = take n (arrivals d)" using committed_prefix [OF inv] by blast
  have "\<forall>t\<in>set (committed d). t < 4"
    using assms(3) inv_idle [OF inv] by (metis in_set_takeD n not_le)
  moreover have "t \<in> set (committed d)" if "t < 4" for t using assms(2) that returned_committed [OF inv] by blast
  ultimately have s: "set (committed d) = {0, 1, 2, 3}" by force
  moreover have "distinct (committed d)" using inv_distinct [OF inv] n by simp
  ultimately have "mset (committed d) = mset [0, 1, 2, 3]"
    by (intro set_eq_iff_mset_eq_distinct [THEN iffD1]) simp_all
  moreover have "logged d (map (\<lambda>t. OpPut (numbered CHR ''k'' t) (numbered CHR ''v'' t)) (committed d))"
    using inv_logged [OF inv] driver_ops_concat [of "committed d"] s by simp
  ultimately show "\<exists>ts. mset ts = mset [0, 1, 2, 3] \<and>
      logged d (map (\<lambda>t. OpPut (numbered CHR ''k'' t) (numbered CHR ''v'' t)) ts)" by blast
qed

text \<open>A schedule in which the second and the third writer form a group: three log records.\<close>

definition three_groups :: "move list" where
  "three_groups =
     [Enter 0, Lead 0, Enter 1, Wait_turn 1, Enter 2, Wait_turn 2, Write_io 0, Notify 0,
      Wake 1, Lead 1, Enter 3, Wait_turn 3, Write_io 1, Notify 1,
      Wake 2, Return_done 2, Wake 3, Lead 3, Write_io 3, Notify 3]"

lemma three_groups_run:
  "map_option (\<lambda>d. (list_all (returned_ok d) [0, 1, 2, 3], map batch_ops (wal d))) (db_moves three_groups TestPingPongBatch) =
     Some (True, [Some (driver_ops 0), Some (driver_ops 1 @ driver_ops 2), Some (driver_ops 3)])"
  by code_simp

theorem four_writers_log_everything_witness:
  "\<exists>d ts. db_moves three_groups TestPingPongBatch = Some d \<and> mset ts = mset [0, 1, 2, 3] \<and>
     logged d (map (\<lambda>t. OpPut (numbered CHR ''k'' t) (numbered CHR ''v'' t)) ts)"
proof -
  obtain d where d: "db_moves three_groups TestPingPongBatch = Some d" "list_all (returned_ok d) [0, 1, 2, 3]"
    using three_groups_run by auto
  have "\<exists>st. wpc d t = Returned st" if "t < 4" for t
  proof -
    have "returned_ok d t" using d(2) that by (auto simp: numeral_eq_Suc less_Suc_eq)
    then show ?thesis by (auto simp: returned_ok_def split: pc.splits)
  qed
  moreover have "wpc d t = Idle" if "4 \<le> t" for t
    using db_moves_frame [OF d(1), of t] that
    by (simp add: three_groups_def TestPingPongBatch_def DBImpl_new_def)
  ultimately show ?thesis using four_writers_log_everything [OF db_moves_steps [OF d(1)]] d(1) by blast
qed

section \<open>The properties of the protocol on the driver's run\<close>

lemma run_reachable: "db_moves ms TestPingPongBatch = Some d \<Longrightarrow> reachable (db_init driver_ops) db_step d"
  by (rule driver_reachable [OF db_moves_steps])

lemma driver_ops_small: "length (driver_ops t) < 2 ^ 30"
  by (simp add: driver_ops_def)

lemma run_states:
  "map_option (\<lambda>d. (writers d, wpc d 1)) (db_moves (take 8 three_groups) TestPingPongBatch) = Some ([1, 2], Blocked)"
  "map_option (\<lambda>d. (writers d, wpc d 1)) (db_moves (take 9 three_groups) TestPingPongBatch) = Some ([1, 2], AtLoop)"
  "map_option (\<lambda>d. (writers d, wpc d 1)) (db_moves (take 10 three_groups) TestPingPongBatch) = Some ([1, 2], Writing 2)"
  by code_simp+

text \<open>The first writer has returned and signalled the second, which has not woken up yet.\<close>

theorem write_never_deadlocks_witness:
  "\<exists>d u d'. db_moves (take 8 three_groups) TestPingPongBatch = Some d \<and> can_run d u \<and> db_step d d' \<and> wpc d' u \<noteq> wpc d u"
proof -
  obtain d where d: "db_moves (take 8 three_groups) TestPingPongBatch = Some d" "wpc d 1 = Blocked"
    using run_states(1) by auto
  have "in_flight d 1" using d(2) by (simp add: in_flight_def)
  then show ?thesis using write_never_deadlocks [OF run_reachable [OF d(1)] driver_ops_small] d(1) by blast
qed

text \<open>After the whole schedule.\<close>

theorem writes_are_logged_once_in_order_witness:
  "\<exists>d n. db_moves three_groups TestPingPongBatch = Some d \<and> {0, 1, 2, 3} \<subseteq> set (take n (arrivals d)) \<and>
     logged d (concat (map driver_ops (take n (arrivals d))))"
proof -
  obtain d where d: "db_moves three_groups TestPingPongBatch = Some d" "list_all (returned_ok d) [0, 1, 2, 3]"
    using three_groups_run by auto
  then have "\<exists>st. wpc d t = Returned st" if "t \<in> {0, 1, 2, 3}" for t
    using that by (auto simp: returned_ok_def split: pc.splits)
  then show ?thesis
    using writes_are_logged_once_in_order [OF run_reachable [OF d(1)] driver_ops_small] d(1) by blast
qed

text \<open>The second writer leads a group of itself and the third.\<close>

theorem leader_is_unique_front_witness:
  "\<exists>d seq. db_moves (take 10 three_groups) TestPingPongBatch = Some d \<and> hd (writers d) = 1 \<and>
     represents (w_batch d 1) seq (driver_ops 1 @ driver_ops 2)"
proof -
  obtain d where d: "db_moves (take 10 three_groups) TestPingPongBatch = Some d" "writers d = [1, 2]" "wpc d 1 = Writing 2"
    using run_states(3) by auto
  have "active d 1 2" using d(3) by (simp add: active_def)
  then obtain seq where "hd (writers d) = 1" "represents (w_batch d 1) seq (concat (map driver_ops (group 2 (writers d))))"
    using leader_is_unique_front [OF run_reachable [OF d(1)] driver_ops_small] by blast
  moreover have "concat (map driver_ops (group 2 (writers d))) = driver_ops 1 @ driver_ops 2" by (simp add: d(2) group_def)
  ultimately show ?thesis using d(1) by auto
qed

theorem group_is_shortest_prefix_witness:
  "\<exists>d k b. db_moves (take 9 three_groups) TestPingPongBatch = Some d \<and> k \<le> 1 \<and>
     BuildBatchGroup d = Some (d\<lparr>w_batch := (w_batch d)(1 := b)\<rparr>, last (1 # take k [2]))"
proof -
  obtain d where d: "db_moves (take 9 three_groups) TestPingPongBatch = Some d" "writers d = [1, 2]" "wpc d 1 = AtLoop"
    using run_states(2) by auto
  from group_is_shortest_prefix [OF run_reachable [OF d(1)] driver_ops_small d(3,2)]
  obtain k b where kb: "k \<le> length [2 :: nat]"
      "BuildBatchGroup d = Some (d\<lparr>w_batch := (w_batch d)(1 := b)\<rparr>, last (1 # take k [2]))" by blast
  have "k \<le> 1" using kb(1) by simp
  then show ?thesis using d(1) kb(2) by blast
qed

section \<open>The single writer\<close>

theorem functional_driver_logs_its_batch:
  "map_option (\<lambda>(okay, bs). (okay, map batch_ops bs)) TestPingPongBatchFunctional =
     Some (True, [Some [OpPut (slice_of_lit ''k0'') (slice_of_lit ''hello''),
       OpPut (slice_of_lit ''k1'') (slice_of_lit ''world''), OpDelete (slice_of_lit ''k0'')]])"
  by code_simp

end
