(* ===== verification/Small_Examples.thy ===== *)
theory Small_Examples
  imports Bits Sections
begin

text \<open>
  Three small examples: the user-defined literals of \<^verbatim>\<open>example-udl/main.cc\<close> beside the size literals of
  \<open>Bits\<close>, the directory listing of \<^verbatim>\<open>example-posix/main.cc\<close>, and the option structure that the
  preprocessor generates in \<^verbatim>\<open>example-inc\<close>.
\<close>

section \<open>Literals\<close>

definition hex_digit :: "char \<Rightarrow> int option" where
  "hex_digit c =
     (let n = of_char c :: int
      in if 48 \<le> n \<and> n \<le> 57 then Some (n - 48)
         else if 97 \<le> n \<and> n \<le> 102 then Some (n - 87)
         else if 65 \<le> n \<and> n \<le> 70 then Some (n - 55)
         else None)"

fun hex_scan :: "int \<Rightarrow> string \<Rightarrow> int" where
  "hex_scan v [] = v"
| "hex_scan v (c # cs) = (case hex_digit c of None \<Rightarrow> v | Some d \<Rightarrow> hex_scan (16 * v + d) cs)"

text \<open>A prefix \<open>0x\<close> counts only before a digit; without it the \<open>0\<close> is the number.\<close>

fun hex_prefix :: "string \<Rightarrow> string" where
  "hex_prefix (z # x # c # cs) =
     (if z = CHR ''0'' \<and> x \<in> {CHR ''x'', CHR ''X''} \<and> hex_digit c \<noteq> None then c # cs else z # x # c # cs)"
| "hex_prefix s = s"

text \<open>\<^verbatim>\<open>std::strtoul(str, nullptr, 16)\<close>, with a 64-bit \<^verbatim>\<open>unsigned long\<close>: a number that does not fit gives
  the greatest one.\<close>

definition strtoul16 :: "string \<Rightarrow> u64" where
  "strtoul16 s =
     (case split_sign (dropWhile isspace s) of
        (neg, text) \<Rightarrow>
          (let m = hex_scan 0 (hex_prefix text)
           in if m \<ge> 2 ^ 64 then - 1 else of_int (if neg then - m else m)))"

text \<open>The literal returns an \<^verbatim>\<open>int\<close>: the result is cut to 32 bits.\<close>

definition udl_hex :: "string \<Rightarrow> u32" where
  "udl_hex s = ucast (strtoul16 s)"

definition TestNumUDLFunctional :: bool where
  "TestNumUDLFunctional \<longleftrightarrow>
     udl_K 1 = 1 * 1024 \<and> udl_K 2 = 2 * 1024 \<and>
     udl_M 1 = 1 * 1024 * 1024 \<and> udl_M 3 = 3 * 1024 * 1024 \<and>
     udl_G 1 = 1 * 1024 * 1024 * 1024 \<and> udl_G 4 = 4 * 1024 * 1024 * 1024 \<and>
     udl_T 1 = 1 * 1024 * 1024 * 1024 * 1024 \<and> udl_T 5 = 5 * 1024 * 1024 * 1024 * 1024"

definition TestStrUDLFunctional :: bool where
  "TestStrUDLFunctional \<longleftrightarrow> udl_hex ''1a'' = 26"

lemma udl_drivers_pass: "TestNumUDLFunctional" "TestStrUDLFunctional"
  by code_simp+

text \<open>The usual notation, in lower case.\<close>

definition show_hex_digit :: "nat \<Rightarrow> char" where
  "show_hex_digit d = (if d < 10 then char_of (48 + d) else char_of (87 + d))"

fun show_hex :: "nat \<Rightarrow> string" where
  "show_hex n = (if n < 16 then [show_hex_digit n] else show_hex (n div 16) @ [show_hex_digit (n mod 16)])"

declare show_hex.simps [simp del]

lemma hex_digit_show: "d < 16 \<Longrightarrow> hex_digit (show_hex_digit d) = Some (int d)"
proof -
  assume d: "d < 16"
  have small: "(of_char (char_of (48 + d) :: char) :: int) = 48 + int d" if "d < 10"
    using of_char_digit_int [OF that] .
  have "(of_char (char_of (87 + d) :: char) :: nat) = 87 + d" using d by (simp add: of_char_of)
  moreover have "(of_char (char_of (87 + d) :: char) :: int) = int (of_char (char_of (87 + d) :: char))"
    by (rule of_nat_of_char [symmetric])
  ultimately have large: "(of_char (char_of (87 + d) :: char) :: int) = 87 + int d" by simp
  show ?thesis using small large d by (simp add: hex_digit_def show_hex_digit_def Let_def)
qed

lemma hex_scan_append:
  "list_all (\<lambda>c. hex_digit c \<noteq> None) xs \<Longrightarrow> hex_scan v (xs @ ys) = hex_scan (hex_scan v xs) ys"
  by (induction xs arbitrary: v) (auto split: option.splits)

lemma show_hex_digits: "list_all (\<lambda>c. hex_digit c \<noteq> None) (show_hex n) \<and> show_hex n \<noteq> [] \<and> hex_scan 0 (show_hex n) = int n"
proof (induction n rule: show_hex.induct)
  case (1 n)
  show ?case
  proof (cases "n < 16")
    case True
    then show ?thesis by (simp add: show_hex.simps [of n] hex_digit_show)
  next
    case False
    have "16 * int (n div 16) + int (n mod 16) = int n" by (metis mult_div_mod_eq of_nat_add of_nat_mult of_nat_numeral)
    then show ?thesis
      using 1 [OF False] False hex_digit_show [of "n mod 16"]
      by (simp add: show_hex.simps [of n] hex_scan_append)
  qed
qed

lemma hex_digit_plain:
  assumes "hex_digit c \<noteq> None"
  shows "\<not> isspace c \<and> c \<noteq> CHR ''-'' \<and> c \<noteq> CHR ''+'' \<and> c \<noteq> CHR ''x'' \<and> c \<noteq> CHR ''X''"
proof -
  have e: "(of_char c :: int) = int (of_char c)" by (rule of_nat_of_char [symmetric])
  show ?thesis using assms unfolding hex_digit_def Let_def e by (auto simp: isspace_def split: if_splits)
qed

lemma hex_prefix_digits:
  assumes "list_all (\<lambda>c. hex_digit c \<noteq> None) s"
  shows "hex_prefix s = s"
  using assms hex_digit_plain by (induction s rule: hex_prefix.induct) auto

lemma strtoul16_show_hex: "strtoul16 (show_hex n) = (if n < 2 ^ 64 then of_nat n else - 1)"
proof -
  have ds: "list_all (\<lambda>c. hex_digit c \<noteq> None) (show_hex n)" "show_hex n \<noteq> []" "hex_scan 0 (show_hex n) = int n"
    using show_hex_digits [of n] by auto
  obtain d rest where c: "show_hex n = d # rest" using ds(2) by (cases "show_hex n") auto
  have "hex_digit d \<noteq> None" using ds(1) by (simp add: c)
  then have "split_sign (dropWhile isspace (show_hex n)) = (False, show_hex n)"
    using hex_digit_plain [of d] by (simp add: c split_sign_def)
  then show ?thesis
    using ds(3) hex_prefix_digits [OF ds(1)] by (simp add: strtoul16_def Let_def)
qed

text \<open>A literal of up to 31 bits has its value; longer ones are cut to 32 bits.\<close>

lemma hex_literal_value:
  "udl_hex (show_hex n) = (if n < 2 ^ 64 then of_nat n else - 1)"
  "n < 2 ^ 31 \<Longrightarrow> sint (udl_hex (show_hex n)) = int n"
proof -
  show v: "udl_hex (show_hex n) = (if n < 2 ^ 64 then of_nat n else - 1)"
    using ucast_of_int [of "int n"] ucast_of_int [of "- 1"] by (simp add: udl_hex_def strtoul16_show_hex)
  assume n: "n < 2 ^ 31"
  then have "udl_hex (show_hex n) = of_int (int n)" unfolding v by simp
  then have "sint (udl_hex (show_hex n)) = signed_take_bit 31 (int n)" by (simp only: signed_of_int) simp
  also have "\<dots> = int n" using n by (intro signed_take_bit_int_eq_self) simp_all
  finally show "sint (udl_hex (show_hex n)) = int n" .
qed

section \<open>A directory\<close>

text \<open>An answer of \<^verbatim>\<open>readdir\<close>: an entry, or a null pointer with what it does to \<^verbatim>\<open>errno\<close> (0 at the end).\<close>

datatype readdir_answer = Entry_named string | Null int

fun read_loop :: "readdir_answer list \<Rightarrow> string list \<Rightarrow> string list" where
  "read_loop (Entry_named d_name # rest) result = read_loop rest (result @ [d_name])"
| "read_loop (Null errno # rest) result = result"
| "read_loop [] result = result"

text \<open>\<^verbatim>\<open>opendir\<close> gives an error number or a stream of answers; the result vector is cleared first.\<close>

definition GetChildren :: "int + readdir_answer list \<Rightarrow> string list \<Rightarrow> int \<times> string list" where
  "GetChildren dir result =
     (let result = [] in
      case dir of
        Inl errno \<Rightarrow> (errno, result)
      | Inr entries \<Rightarrow> (0, read_loop entries result))"

definition TestGetChildren :: "int + readdir_answer list \<Rightarrow> string list option" where
  "TestGetChildren dir = (case GetChildren dir [] of (res, result) \<Rightarrow> if res = 0 then Some result else None)"

lemma read_loop_append: "read_loop (map Entry_named ns @ rest) result = read_loop rest (result @ ns)"
  by (induction ns arbitrary: result) auto

text \<open>The names before the first null pointer are returned with 0, whether it marks the end or an error.\<close>

lemma GetChildren_ignores_read_error:
  "GetChildren (Inr (map Entry_named ns @ Null errno # rest)) old = (0, ns)"
  by (simp add: GetChildren_def read_loop_append)

section \<open>Generated options\<close>

text \<open>The structure of \<^verbatim>\<open>options.inc\<close>: the macro for \<^verbatim>\<open>uint32_t\<close> declares a field of 64 bits, while the setter
  takes the type of the table.\<close>

record Options =
  file_name :: string
  file_number :: u64

definition Options_new :: Options where
  "Options_new = \<lparr>file_name = ''/etc/options.conf'', file_number = 1024\<rparr>"

definition set_file_name :: "string \<Rightarrow> Options \<Rightarrow> Options" where
  "set_file_name val opts = opts\<lparr>file_name := val\<rparr>"

definition set_file_number :: "u32 \<Rightarrow> Options \<Rightarrow> Options" where
  "set_file_number val opts = opts\<lparr>file_number := ucast val\<rparr>"

text \<open>What the driver prints.\<close>

definition TestIncOptions :: "(string \<times> u64) list" where
  "TestIncOptions =
     (let opts = Options_new;
          opts' = set_file_number 2048 (set_file_name ''/etc/options/options.conf'' opts)
      in [(file_name opts, file_number opts), (file_name opts', file_number opts')])"

lemma set_file_number_bound: "unat (file_number (set_file_number val opts)) = unat val"
  by (simp add: set_file_number_def unsigned_ucast_eq take_bit_nat_eq_self order_less_trans [OF unsigned_less])

section \<open>The heap profiling sample\<close>

text \<open>\<^verbatim>\<open>example-gperftools/main.cc\<close> allocates, leaks and frees. The live blocks are a list of addresses and
  sizes; \<open>fits\<close> says when \<^verbatim>\<open>malloc\<close> has room for a block, otherwise it returns a null pointer. Freeing a
  block that is not live is \<open>None\<close>.\<close>

record malloc_heap =
  next_block :: nat
  live :: "(nat \<times> u32) list"

definition malloc :: "(u32 \<Rightarrow> malloc_heap \<Rightarrow> bool) \<Rightarrow> u32 \<Rightarrow> malloc_heap \<Rightarrow> nat option \<times> malloc_heap" where
  "malloc fits sz h =
     (if fits sz h then
        (Some (next_block h), \<lparr>next_block = next_block h + 1, live = (next_block h, sz) # live h\<rparr>)
      else (None, h))"

definition free_block :: "nat option \<Rightarrow> malloc_heap \<Rightarrow> malloc_heap option" where
  "free_block p h =
     (case p of
        None \<Rightarrow> Some h
      | Some a \<Rightarrow>
          if a \<in> fst ` set (live h) then Some (h\<lparr>live := filter (\<lambda>b. fst b \<noteq> a) (live h)\<rparr>) else None)"

definition sub_create :: "(u32 \<Rightarrow> malloc_heap \<Rightarrow> bool) \<Rightarrow> u32 \<Rightarrow> malloc_heap \<Rightarrow> nat option \<times> malloc_heap" where
  "sub_create fits sz h = malloc fits sz h"

definition create_block :: "(u32 \<Rightarrow> malloc_heap \<Rightarrow> bool) \<Rightarrow> u32 \<Rightarrow> malloc_heap \<Rightarrow> nat option \<times> malloc_heap" where
  "create_block fits sz h = (case sub_create fits (sz div 2) h of (p, h') \<Rightarrow> malloc fits sz h')"

definition create_destory :: "(u32 \<Rightarrow> malloc_heap \<Rightarrow> bool) \<Rightarrow> u32 \<Rightarrow> malloc_heap \<Rightarrow> malloc_heap option" where
  "create_destory fits sz h = (case create_block fits sz h of (p, h') \<Rightarrow> free_block p h')"

fun profile_loop :: "(u32 \<Rightarrow> malloc_heap \<Rightarrow> bool) \<Rightarrow> u32 \<Rightarrow> nat \<Rightarrow> nat option list \<Rightarrow> malloc_heap \<Rightarrow>
    (nat option list \<times> malloc_heap) option" where
  "profile_loop fits mega 0 a h = Some (a, h)"
| "profile_loop fits mega (Suc i) a h =
     (let (_, h1) = create_block fits (1024 * mega) h;
          (p, h2) = malloc fits (1024 * mega) h1
      in case create_destory fits mega h2 of
           None \<Rightarrow> None
         | Some h3 \<Rightarrow> profile_loop fits mega i (a @ [p]) h3)"

fun free_all :: "nat option list \<Rightarrow> malloc_heap \<Rightarrow> malloc_heap option" where
  "free_all [] h = Some h"
| "free_all (p # ps) h = (case free_block p h of None \<Rightarrow> None | Some h' \<Rightarrow> free_all ps h')"

definition profile_main :: "(u32 \<Rightarrow> malloc_heap \<Rightarrow> bool) \<Rightarrow> malloc_heap option" where
  "profile_main fits =
     (case profile_loop fits (1024 * 1024) 4 [] \<lparr>next_block = 0, live = []\<rparr> of
        None \<Rightarrow> None
      | Some (a, h) \<Rightarrow> free_all a h)"

text \<open>Whatever \<^verbatim>\<open>malloc\<close> has room for, only live blocks are freed.\<close>

definition heap_ok :: "nat option list \<Rightarrow> malloc_heap \<Rightarrow> bool" where
  "heap_ok a h \<longleftrightarrow> (\<forall>b\<in>fst ` set (live h). b < next_block h) \<and> distinct (filter (\<lambda>p. p \<noteq> None) a) \<and>
     (\<forall>b. Some b \<in> set a \<longrightarrow> b \<in> fst ` set (live h))"

lemma malloc_ok:
  assumes "heap_ok a h" "malloc fits sz h = (p, h')"
  shows "heap_ok (a @ [p]) h'" "heap_ok a h'"
  using assms by (force simp: heap_ok_def malloc_def split: if_splits)+

lemma free_ok:
  assumes "heap_ok (a @ [p]) h"
  shows "\<exists>h'. free_block p h = Some h' \<and> heap_ok a h'"
  using assms by (cases p) (force simp: heap_ok_def free_block_def)+

lemma create_ok: "heap_ok a h \<Longrightarrow> create_block fits sz h = (p, h') \<Longrightarrow> heap_ok (a @ [p]) h' \<and> heap_ok a h'"
  using malloc_ok by (auto simp: create_block_def sub_create_def split: prod.splits) metis+

lemma profile_loop_ok: "heap_ok a h \<Longrightarrow> \<exists>a' h'. profile_loop fits mega n a h = Some (a', h') \<and> heap_ok a' h'"
proof (induction n arbitrary: a h)
  case (Suc n)
  obtain q h1 where h1: "create_block fits (1024 * mega) h = (q, h1)" by fastforce
  obtain p h2 where h2: "malloc fits (1024 * mega) h1 = (p, h2)" by fastforce
  obtain r h3 where h3: "create_block fits mega h2 = (r, h3)" by fastforce
  have "heap_ok (a @ [p]) h2" using malloc_ok(1) [OF _ h2] create_ok [OF Suc.prems h1] by blast
  then have "heap_ok ((a @ [p]) @ [r]) h3" using create_ok [OF _ h3] by blast
  then obtain h4 where "free_block r h3 = Some h4" "heap_ok (a @ [p]) h4" using free_ok by blast
  then show ?case using Suc.IH [of "a @ [p]" h4] by (simp add: h1 h2 h3 create_destory_def)
qed simp

lemma free_all_ok: "heap_ok a h \<Longrightarrow> \<exists>h'. free_all a h = Some h'"
proof (induction a arbitrary: h)
  case (Cons p a)
  have "heap_ok (a @ [p]) h" using Cons.prems by (auto simp: heap_ok_def split: if_splits)
  then obtain h' where "free_block p h = Some h'" "heap_ok a h'" using free_ok by blast
  then show ?case using Cons.IH by simp
qed simp

lemma profile_main_returns: "\<exists>h. profile_main fits = Some h"
proof -
  have "heap_ok [] \<lparr>next_block = 0, live = []\<rparr>" by (simp add: heap_ok_def)
  from profile_loop_ok [OF this, of fits "1024 * 1024" 4] show ?thesis
    using free_all_ok by (auto simp: profile_main_def)
qed

text \<open>With room for every block, four times three blocks are left: of 2^19, 2^30 and 2^29 bytes.\<close>

lemma profile_main_leaks:
  "map_option (\<lambda>h. map snd (live h)) (profile_main (\<lambda>_ _. True)) = Some (concat (replicate 4 [2 ^ 19, 2 ^ 30, 2 ^ 29]))"
  by code_simp

end
