(* ===== verification/Group_Commit_Liveness.thy ===== *)
theory Group_Commit_Liveness
  imports Ping_Pong
begin

text \<open>
  Every call of \<^verbatim>\<open>DBImpl::Write\<close> returns. A writer has a rank, a bound on the steps it still has to
  take; each step of the protocol lowers the rank of one writer and raises none, except for a wake-up
  without a signal, which the standard allows and which can send a writer around its loop once more. So
  the number of steps is bounded by the number of calls and of such wake-ups, and since some writer can
  always take a step that is not one (\<open>Group_Commit\<close>), the calls end.
\<close>

section \<open>Why a writer was woken up\<close>

text \<open>A signalled writer is done or in front: it will not wait again.\<close>

definition wake_ok :: "db \<Rightarrow> bool" where
  "wake_ok d \<longleftrightarrow>
     (\<forall>t. wpc d t = Blocked \<longrightarrow> signalled d t \<longrightarrow> w_done d t \<or> (\<exists>ws. writers d = t # ws))"

definition spurious :: "db \<Rightarrow> db \<Rightarrow> bool" where
  "spurious d d' \<longleftrightarrow>
     (\<exists>t. wpc d t = Blocked \<and> \<not> signalled d t \<and> mu d = None \<and> d' = (Lock t d)\<lparr>wpc := (wpc d)(t := AtLoop)\<rparr>)"

definition rank :: "db \<Rightarrow> nat \<Rightarrow> nat" where
  "rank d t =
     (case wpc d t of
        Idle \<Rightarrow> 6
      | AtLoop \<Rightarrow> if w_done d t \<or> (\<exists>ws. writers d = t # ws) then 3 else 5
      | Blocked \<Rightarrow> 4
      | Writing _ \<Rightarrow> 2
      | Relock _ \<Rightarrow> 1
      | Returned _ \<Rightarrow> 0)"

definition advances :: "db \<Rightarrow> db \<Rightarrow> nat \<Rightarrow> bool" where
  "advances d d' t \<longleftrightarrow>
     (\<forall>u. u \<noteq> t \<longrightarrow> rank d' u \<le> rank d u) \<and>
     (rank d' t < rank d t \<or> spurious d d' \<and> rank d' t \<le> rank d t + 1)"

lemma rank_free:
  assumes "\<And>u. u \<noteq> t \<Longrightarrow> wpc d' u = wpc d u" "\<And>u. wpc d u \<noteq> AtLoop"
  shows "\<forall>u. u \<noteq> t \<longrightarrow> rank d' u \<le> rank d u"
  using assms by (auto simp: rank_def split: pc.splits)

lemma rank_same:
  assumes "\<And>u. u \<noteq> t \<Longrightarrow> wpc d' u = wpc d u" "w_done d' = w_done d" "writers d' = writers d"
  shows "\<forall>u. u \<noteq> t \<longrightarrow> rank d' u \<le> rank d u"
  using assms by (auto simp: rank_def)

lemma notify_fields:
  assumes inv: "db_inv ops d" and t: "wpc d t = Relock lw"
    and nl: "notify_loop t lw OK (writers d) (Lock t d) = Some d1"
  shows "\<exists>g rest. writers d = g @ rest \<and> (\<exists>ws. writers d = t # ws) \<and> wpc d1 = wpc d \<and> writers d1 = rest \<and>
    w_done d1 = (\<lambda>r. r \<in> set g \<and> r \<noteq> t \<or> w_done d r) \<and>
    signalled d1 = (\<lambda>r. r \<in> set g \<and> r \<noteq> t \<and> wpc d r = Blocked \<or> signalled d r)"
proof -
  obtain ws where ws: "writers d = t # ws" using inv_active [OF inv, of t lw] t by (auto simp: active_def)
  obtain rest where "writers d = group lw (writers d) @ rest"
      "d1 = (Lock t d)\<lparr>writers := rest, popped := popped d @ group lw (writers d),
            w_done := (\<lambda>r. r \<in> set (group lw (writers d)) \<and> r \<noteq> t \<or> w_done d r),
            w_status := (\<lambda>r. if r \<in> set (group lw (writers d)) \<and> r \<noteq> t then OK else w_status d r),
            signalled := (\<lambda>r. r \<in> set (group lw (writers d)) \<and> r \<noteq> t \<and> wpc d r = Blocked \<or> signalled d r)\<rparr>"
    using notify_result [OF inv t refl, of OK] nl by auto
  then show ?thesis
    using ws by (intro exI [of _ "group lw (writers d)"] exI [of _ rest]) (simp add: Lock_def)
qed

lemma db_step_wake_ok:
  assumes "db_step d d'" "db_inv ops d" "wake_ok d"
  shows "wake_ok d'"
  using assms(1)
proof cases
  case (enter t)
  then show ?thesis using assms(3) by (auto simp: wake_ok_def Lock_def)
next
  case (wait t)
  then show ?thesis using assms(3) by (auto simp: wake_ok_def Wait_def Unlock_def)
next
  case (wake t)
  then show ?thesis using assms(3) by (auto simp: wake_ok_def Lock_def)
next
  case (spurious_wake t)
  then show ?thesis using assms(3) by (auto simp: wake_ok_def Lock_def)
next
  case (return_done t)
  then show ?thesis using assms(3) by (auto simp: wake_ok_def Unlock_def)
next
  case (lead t d1 lw)
  then obtain b where "d1 = d\<lparr>w_batch := b\<rparr>" by (auto simp: BuildBatchGroup_def split: list.splits)
  then show ?thesis using lead(1) assms(3) by (auto simp: wake_ok_def Unlock_def)
next
  case (write_io t lw)
  then show ?thesis using assms(3) by (auto simp: wake_ok_def)
next
  case (notify t lw d1)
  obtain g rest ws where f: "writers d = g @ rest" "writers d = t # ws" "wpc d1 = wpc d" "writers d1 = rest"
      "w_done d1 = (\<lambda>r. r \<in> set g \<and> r \<noteq> t \<or> w_done d r)"
      "signalled d1 = (\<lambda>r. r \<in> set g \<and> r \<noteq> t \<and> wpc d r = Blocked \<or> signalled d r)"
    using notify_fields [OF assms(2) notify(2,4)] by blast
  have d': "wpc d' = (wpc d)(t := Returned OK)" "writers d' = rest" "w_done d' = w_done d1"
      "signalled d' = (\<lambda>x. signalled d1 x \<or> rest \<noteq> [] \<and> x = hd rest \<and> wpc d x = Blocked)"
    by (simp_all add: notify(1) signal_front_eq f(3,4) Unlock_def)
  have "w_done d' u \<or> (\<exists>ws. writers d' = u # ws)" if u: "wpc d' u = Blocked" "signalled d' u" for u
  proof -
    have b: "wpc d u = Blocked" "u \<noteq> t" using u(1) by (auto simp: d'(1) split: if_splits)
    consider "signalled d u" | "u \<in> set g" | "rest \<noteq> []" "u = hd rest" using u(2) by (auto simp: d'(4) f(6))
    then show ?thesis
    proof cases
      case 1
      then show ?thesis using assms(3) b f(2) by (auto simp: wake_ok_def d'(3) f(5))
    next
      case 2
      then show ?thesis using b(2) by (simp add: d'(3) f(5))
    next
      case 3
      then show ?thesis by (cases rest) (simp_all add: d'(2))
    qed
  qed
  then show ?thesis by (simp add: wake_ok_def)
qed

lemma db_step_advances:
  assumes "db_step d d'" "db_inv ops d" "wake_ok d"
  shows "\<exists>t. advances d d' t \<and> (wpc d t = Idle \<longrightarrow> wpc d' t \<noteq> Idle)"
  using assms(1)
proof cases
  case (enter t)
  have "wpc d u \<noteq> AtLoop" for u using inv_mu [OF assms(2), of u] enter by simp
  then have "\<forall>u. u \<noteq> t \<longrightarrow> rank d' u \<le> rank d u" by (intro rank_free) (simp_all add: enter Lock_def)
  moreover have "rank d' t < rank d t" by (simp add: rank_def enter Lock_def)
  ultimately show ?thesis by (intro exI [of _ t]) (simp add: advances_def enter Lock_def)
next
  case (wait t)
  then have "\<forall>u. u \<noteq> t \<longrightarrow> rank d' u \<le> rank d u" by (intro rank_same) (simp_all add: Wait_def Unlock_def)
  moreover have "rank d' t < rank d t" using wait by (auto simp: rank_def Wait_def Unlock_def)
  ultimately show ?thesis using wait by (intro exI [of _ t]) (simp add: advances_def)
next
  case (wake t)
  then have "\<forall>u. u \<noteq> t \<longrightarrow> rank d' u \<le> rank d u" by (intro rank_same) (simp_all add: Lock_def)
  moreover have "rank d' t < rank d t" using wake assms(3) by (auto simp: rank_def wake_ok_def Lock_def)
  ultimately show ?thesis using wake by (intro exI [of _ t]) (simp add: advances_def)
next
  case (spurious_wake t)
  then have "\<forall>u. u \<noteq> t \<longrightarrow> rank d' u \<le> rank d u" by (intro rank_same) (simp_all add: Lock_def)
  moreover have "rank d' t \<le> rank d t + 1" using spurious_wake by (simp add: rank_def Lock_def)
  moreover have "spurious d d'" using spurious_wake by (auto simp: spurious_def)
  ultimately show ?thesis using spurious_wake by (intro exI [of _ t]) (simp add: advances_def)
next
  case (return_done t)
  then have "\<forall>u. u \<noteq> t \<longrightarrow> rank d' u \<le> rank d u" by (intro rank_same) (simp_all add: Unlock_def)
  moreover have "rank d' t < rank d t" using return_done by (simp add: rank_def Unlock_def)
  ultimately show ?thesis using return_done by (intro exI [of _ t]) (simp add: advances_def)
next
  case (lead t d1 lw)
  then obtain b where b: "d1 = d\<lparr>w_batch := b\<rparr>" by (auto simp: BuildBatchGroup_def split: list.splits)
  have "\<forall>u. u \<noteq> t \<longrightarrow> rank d' u \<le> rank d u" using lead(1) b by (intro rank_same) (simp_all add: Unlock_def)
  moreover have "rank d' t < rank d t" using lead b by (cases "writers d") (auto simp: rank_def Unlock_def)
  ultimately show ?thesis using lead by (intro exI [of _ t]) (simp add: advances_def)
next
  case (write_io t lw)
  then have "\<forall>u. u \<noteq> t \<longrightarrow> rank d' u \<le> rank d u" by (intro rank_same) simp_all
  moreover have "rank d' t < rank d t" using write_io by (simp add: rank_def)
  ultimately show ?thesis using write_io by (intro exI [of _ t]) (simp add: advances_def)
next
  case (notify t lw d1)
  have "wpc d1 = wpc d" using notify_fields [OF assms(2) notify(2,4)] by blast
  then have w: "wpc d' = (wpc d)(t := Returned OK)" by (simp add: notify(1))
  have "wpc d u \<noteq> AtLoop" for u using inv_mu [OF assms(2), of u] notify by simp
  then have "\<forall>u. u \<noteq> t \<longrightarrow> rank d' u \<le> rank d u" by (intro rank_free) (simp_all add: w)
  moreover have "rank d' t < rank d t" using notify(2) by (simp add: rank_def w)
  ultimately show ?thesis using notify(2) by (intro exI [of _ t]) (simp add: advances_def)
qed

section \<open>Runs\<close>

text \<open>A run of \<open>n\<close> steps, at most \<open>k\<close> of them wake-ups without a signal.\<close>

inductive db_run :: "nat \<Rightarrow> nat \<Rightarrow> db \<Rightarrow> db \<Rightarrow> bool" where
  run_start: "db_run 0 k d d"
| run_step: "db_run n k d d' \<Longrightarrow> db_step d' d'' \<Longrightarrow> \<not> spurious d' d'' \<Longrightarrow> db_run (Suc n) k d d''"
| run_spurious: "db_run n k d d' \<Longrightarrow> db_step d' d'' \<Longrightarrow> spurious d' d'' \<Longrightarrow> db_run (Suc n) (Suc k) d d''"

definition potential :: "nat set \<Rightarrow> db \<Rightarrow> nat" where
  "potential C d = (\<Sum>t\<in>C. rank d t)"

lemma advances_potential:
  assumes "advances d d' t" "finite C" "t \<in> C"
  shows "potential C d' < potential C d \<or> spurious d d' \<and> potential C d' \<le> potential C d + 1"
proof -
  have rest: "potential (C - {t}) d' \<le> potential (C - {t}) d"
    using assms(1) unfolding potential_def by (intro sum_mono) (auto simp: advances_def)
  have "potential C e = rank e t + potential (C - {t}) e" for e
    unfolding potential_def using assms(2,3) by (rule sum.remove)
  then show ?thesis using assms(1) rest by (auto simp: advances_def)
qed

lemma step_callers: "db_step d d' \<Longrightarrow> wpc d t \<noteq> Idle \<Longrightarrow> db_inv ops d \<Longrightarrow> wpc d' t \<noteq> Idle"
proof (erule db_step.cases)
  fix d1 x lw d2
  assume "wpc d1 x = Relock lw" "notify_loop x lw OK (writers d1) (Lock x d1) = Some d2"
    "d = d1" "d' = (Unlock (signal_front d2))\<lparr>wpc := (wpc d2)(x := Returned OK)\<rparr>" "wpc d t \<noteq> Idle" "db_inv ops d"
  then show "wpc d' t \<noteq> Idle" using notify_fields [of ops d x lw d2] by auto
qed (auto simp: Lock_def Unlock_def Wait_def BuildBatchGroup_def split: list.splits)

lemma init_wake_ok: "db_init ops d \<Longrightarrow> wake_ok d"
  by (simp add: db_init_def wake_ok_def)

lemma run_inv:
  assumes "db_run n k d0 d" "db_init ops d0" "\<And>t. length (ops t) < 2 ^ 30"
  shows "db_inv ops d \<and> wake_ok d"
  using assms(1,2)
  by (induction rule: db_run.induct)
    (auto intro: db_init_inv init_wake_ok db_step_wake_ok db_step_inv [OF _ _ assms(3)])

lemma run_potential:
  assumes "db_run n k d0 d" "db_init ops d0" "\<And>t. length (ops t) < 2 ^ 30" "finite C"
    and "\<forall>t. wpc d t \<noteq> Idle \<longrightarrow> t \<in> C"
  shows "n + potential C d \<le> 6 * card C + 2 * k"
  using assms(1,2,5)
proof (induction rule: db_run.induct)
  case (run_start k d)
  then have "potential C d = 6 * card C" by (simp add: potential_def rank_def db_init_def)
  then show ?case by simp
next
  case (run_step n k d d' d'')
  have inv: "db_inv ops d'" "wake_ok d'" using run_inv [OF run_step(1,5) assms(3)] by auto
  have callers: "\<forall>t. wpc d' t \<noteq> Idle \<longrightarrow> t \<in> C" using step_callers [OF run_step(2) _ inv(1)] run_step(6) by blast
  obtain t where t: "advances d' d'' t" "wpc d' t = Idle \<longrightarrow> wpc d'' t \<noteq> Idle"
    using db_step_advances [OF run_step(2) inv] by blast
  have "t \<in> C" using t(2) callers run_step(6) by blast
  then have "potential C d'' < potential C d'" using advances_potential [OF t(1) assms(4)] run_step(3) by blast
  then show ?case using run_step(4) [OF run_step(5) callers] by simp
next
  case (run_spurious n k d d' d'')
  have inv: "db_inv ops d'" "wake_ok d'" using run_inv [OF run_spurious(1,5) assms(3)] by auto
  have callers: "\<forall>t. wpc d' t \<noteq> Idle \<longrightarrow> t \<in> C"
    using step_callers [OF run_spurious(2) _ inv(1)] run_spurious(6) by blast
  obtain t where t: "advances d' d'' t" "wpc d' t = Idle \<longrightarrow> wpc d'' t \<noteq> Idle"
    using db_step_advances [OF run_spurious(2) inv] by blast
  have "t \<in> C" using t(2) callers run_spurious(6) by blast
  then have "potential C d'' \<le> potential C d' + 1" using advances_potential [OF t(1) assms(4)] by auto
  then show ?case using run_spurious(4) [OF run_spurious(5) callers] by simp
qed

lemma own_step_not_spurious:
  assumes "can_run d u" "wpc d' u \<noteq> wpc d u"
  shows "\<not> spurious d d'"
proof
  assume "spurious d d'"
  then obtain t where t: "wpc d t = Blocked" "\<not> signalled d t" "wpc d' = (wpc d)(t := AtLoop)"
    by (auto simp: spurious_def Lock_def)
  then have "u = t" using assms(2) by (auto split: if_splits)
  then show False using t(1,2) assms(1) by (auto simp: can_run_def)
qed

lemma progress:
  assumes inv: "db_inv ops d" and small: "\<And>t. length (ops t) < 2 ^ 30" and u: "in_flight d u"
  shows "\<exists>v d'. wpc d v \<noteq> Idle \<and> db_step d d' \<and> wpc d' v \<noteq> wpc d v \<and> \<not> spurious d d'"
proof -
  obtain v where v: "can_run d v" using some_can_run [OF inv u] by blast
  then obtain d' where d': "db_step d d'" "wpc d' v \<noteq> wpc d v" using can_run_steps [OF inv small] by blast
  have "wpc d v \<noteq> Idle" using v by (auto simp: can_run_def)
  then show ?thesis using d' own_step_not_spurious [OF v d'(2)] by blast
qed

text \<open>The moves of a schedule are steps of a run; none of them is a wake-up without a signal.\<close>

lemma db_move_not_spurious: "db_move m d = Some d' \<Longrightarrow> \<not> spurious d d'"
proof
  assume m: "db_move m d = Some d'" and "spurious d d'"
  then obtain t where t: "wpc d t = Blocked" "\<not> signalled d t" "wpc d' t = AtLoop"
    by (auto simp: spurious_def Lock_def)
  then have mv: "mover m = t" using db_move_frame [OF m, of t] by auto
  show False using m t mv by (cases m) auto
qed

lemma db_moves_run_from: "db_moves ms d' = Some d'' \<Longrightarrow> db_run n k d d' \<Longrightarrow> db_run (length ms + n) k d d''"
proof (induction ms arbitrary: d' n)
  case (Cons m ms)
  obtain d1 where d1: "db_move m d' = Some d1" "db_moves ms d1 = Some d''"
    using Cons.prems(1) by (auto split: Option.bind_splits)
  have "db_run (Suc n) k d d1"
    using run_step [OF Cons.prems(2) db_move_step [OF d1(1)] db_move_not_spurious [OF d1(1)]] .
  from Cons.IH [OF d1(2) this] show ?case by simp
qed simp

lemma db_moves_run: "db_moves ms d = Some d' \<Longrightarrow> db_run (length ms) k d d'"
  using db_moves_run_from [OF _ run_start, of ms d d' k] by simp

section \<open>Properties\<close>

text \<open>C1: Every call of \<^verbatim>\<open>Write\<close> returns. When the writers in \<open>C\<close> call and there are at most \<open>k\<close> wake-ups without
  a signal, a run has at most \<open>6 * card C + 2 * k\<close> steps; and as long as a call has not returned, a writer
  that has called can take a step that is not such a wake-up.\<close>

theorem write_calls_return:
  assumes "db_run n k d0 d" "db_init ops d0" "\<And>t. length (ops t) < 2 ^ 30"
    and "finite C" "\<forall>t. wpc d t \<noteq> Idle \<longrightarrow> t \<in> C"
  shows "n \<le> 6 * card C + 2 * k \<and>
    ((\<forall>t. wpc d t = Idle \<or> wpc d t = Returned OK) \<or>
     (\<exists>v d'. wpc d v \<noteq> Idle \<and> db_step d d' \<and> wpc d' v \<noteq> wpc d v \<and> \<not> spurious d d'))"
proof
  show "n \<le> 6 * card C + 2 * k" using run_potential [OF assms] by simp
  have inv: "db_inv ops d" using run_inv [OF assms(1-3)] by simp
  show "(\<forall>t. wpc d t = Idle \<or> wpc d t = Returned OK) \<or>
     (\<exists>v d'. wpc d v \<noteq> Idle \<and> db_step d d' \<and> wpc d' v \<noteq> wpc d v \<and> \<not> spurious d d')"
  proof (cases "\<exists>u. in_flight d u")
    case True
    then show ?thesis using progress [OF inv assms(3)] by blast
  next
    case False
    then show ?thesis using returned_committed [OF inv] by (auto simp: in_flight_def)
  qed
qed

text \<open>The driver's run of 20 steps, within the bound of 24 for four writers.\<close>

theorem write_calls_return_witness:
  "\<exists>d. db_run 20 0 TestPingPongBatch d \<and> (20 :: nat) \<le> 6 * card {0 :: nat, 1, 2, 3}"
proof -
  obtain d where d: "db_moves three_groups TestPingPongBatch = Some d" using three_groups_run by auto
  have "length three_groups = 20" by (simp add: three_groups_def)
  then have run: "db_run 20 0 TestPingPongBatch d" using db_moves_run [OF d, of 0] by argo
  have "wpc d t = Idle" if "t \<notin> {0, 1, 2, 3}" for t
    using db_moves_frame [OF d, of t] that by (simp add: three_groups_def TestPingPongBatch_def DBImpl_new_def)
  then have "\<forall>t. wpc d t \<noteq> Idle \<longrightarrow> t \<in> {0, 1, 2, 3}" by blast
  then have "20 \<le> 6 * card {0 :: nat, 1, 2, 3} + 2 * 0"
    using write_calls_return [OF run driver_init driver_ops_small, of "{0, 1, 2, 3}"] by blast
  then show ?thesis using run by auto
qed

end
