(* ===== verification/Lfq_Driver.thy ===== *)
theory Lfq_Driver
  imports Lock_Free_Queue
begin

text \<open>
  \<^verbatim>\<open>TestLFQConcurrently\<close> of \<^verbatim>\<open>example-lfq/main.cc\<close>: a producer that enqueues 0 to 9 and a consumer that
  polls until it has dequeued ten values, as a step relation over the accesses of \<open>Lock_Free_Queue\<close>. The
  lemmas bound the runs, but for the failures of the weak compare-and-swap and the polls of an empty
  queue, and show that the consumer gets the values in order.
\<close>

section \<open>The driver\<close>

text \<open>The loop counters of the threads and what they have printed. Code between two accesses is local, so
  it is part of the step before it. A step is marked \<open>False\<close> when it achieves nothing: a spurious failure
  of the compare-and-swap, or a \<^verbatim>\<open>dequeue\<close> that returns false, be it that the queue is empty or that the
  load is old.\<close>

record lfq_driver =
  shared :: "int lfq"
  prod_i :: nat
  cons_i :: nat
  printed_in :: "int list"
  printed_out :: "int list"

definition after_enqueue :: "lfq_driver \<Rightarrow> lfq_driver" where
  "after_enqueue d =
     (case pcs (shared d) 0 of Idle \<Rightarrow> d\<lparr>printed_in := printed_in d @ [int (prod_i d) - 1]\<rparr> | _ \<Rightarrow> d)"

definition after_dequeue :: "lfq_driver \<Rightarrow> lfq_driver" where
  "after_dequeue d =
     (case (pcs (shared d) 1, result (shared d) 1) of
        (Idle, Some value) \<Rightarrow> d\<lparr>printed_out := printed_out d @ [value], cons_i := cons_i d + 1\<rparr>
      | _ \<Rightarrow> d)"

definition empty_poll :: "int lfq \<Rightarrow> bool" where
  "empty_poll q \<longleftrightarrow> pcs q 1 = Idle \<and> result q 1 = None"

inductive driver_step :: "bool \<Rightarrow> lfq_driver \<Rightarrow> lfq_driver \<Rightarrow> bool" where
  produce_call:
    "pcs (shared d) 0 = Idle \<Longrightarrow> prod_i d < 10 \<Longrightarrow>
     driver_step True d (d\<lparr>shared := goto 0 (E_new (int (prod_i d))) (shared d), prod_i := prod_i d + 1\<rparr>)"
| produce_access:
    "pcs (shared d) 0 \<noteq> Idle \<Longrightarrow> heap (shared d) a = None \<Longrightarrow>
     driver_step (\<not> weak) d (after_enqueue (d\<lparr>shared := exec_enqueue 0 a weak (shared d)\<rparr>))"
| consume_call:
    "pcs (shared d) 1 = Idle \<Longrightarrow> cons_i d < 10 \<Longrightarrow>
     driver_step True d (d\<lparr>shared := goto 1 D_head (shared d)\<rparr>)"
| consume_access:
    "pcs (shared d) 1 \<noteq> Idle \<Longrightarrow> q = exec_dequeue 1 stale (shared d) \<Longrightarrow>
     driver_step (\<not> empty_poll q) d (after_dequeue (d\<lparr>shared := q\<rparr>))"

definition TestLFQConcurrently :: lfq_driver where
  "TestLFQConcurrently =
     \<lparr>shared = LockFreeQueue_new 0, prod_i = 0, cons_i = 0, printed_in = [], printed_out = []\<rparr>"

text \<open>Both threads can be joined.\<close>

definition joined :: "lfq_driver \<Rightarrow> bool" where
  "joined d \<longleftrightarrow> pcs (shared d) 0 = Idle \<and> pcs (shared d) 1 = Idle \<and> prod_i d = 10 \<and> cons_i d = 10"

text \<open>Runs with their number of steps, and how many of these achieved nothing.\<close>

inductive driver_run :: "nat \<Rightarrow> nat \<Rightarrow> lfq_driver \<Rightarrow> bool" where
  run_begin: "driver_run 0 0 TestLFQConcurrently"
| run_useful: "driver_run n k d \<Longrightarrow> driver_step True d d' \<Longrightarrow> driver_run (n + 1) k d'"
| run_wasted: "driver_run n k d \<Longrightarrow> driver_step False d d' \<Longrightarrow> driver_run (n + 1) (k + 1) d'"

section \<open>What one access does\<close>

lemma cas_nodes:
  assumes "queue_inv ns q" "pcs q 0 = E_cas n old"
  obtains nd nn where "heap q old = Some nd" "next_of nd = None" "heap q n = Some nn" "null_tail q = None"
proof -
  have f: "linked (heap q) ns" "old = last ns" "fresh_node (heap q) n" "null_tail q = None"
    using assms by (auto simp: queue_inv_def)
  then show thesis using linked_last [OF f(1)] that by (auto simp: fresh_node_def)
qed

lemma next_node:
  assumes "queue_inv ns q" "pcs q 1 = D_next o1"
  obtains nd where "heap q o1 = Some nd" "next_of nd = None \<longleftrightarrow> popped q = pushed q"
proof -
  have f: "linked (heap q) ns" "o1 = hd ns" using assms by (auto simp: queue_inv_def)
  then obtain ms where ms: "ns = o1 # ms" by (cases ns) auto
  have "linked (heap q) (o1 # ms)" using f(1) by (simp only: ms)
  then obtain nd where nd: "heap q o1 = Some nd" "next_of nd = (case ms of [] \<Rightarrow> None | b # _ \<Rightarrow> Some b)"
    using linked_hd by blast
  have "popped q @ unlinked_values (pcs q 1) @ vals (heap q) (List.tl ns) = pushed q"
    using assms(1) by (simp add: queue_inv_def)
  then have "popped q @ vals (heap q) ms = pushed q" unfolding assms(2) ms by simp
  then have "popped q = pushed q \<longleftrightarrow> ms = []" by (auto simp: vals_def)
  then have "next_of nd = None \<longleftrightarrow> popped q = pushed q" using nd(2) by (simp split: list.splits)
  with nd(1) show thesis by (rule that)
qed

lemma read_node:
  assumes "queue_inv ns q" "pcs q 1 = D_read o1 f"
  obtains nd where "heap q f = Some nd"
proof -
  obtain ms where "ns = o1 # f # ms" using assms by (auto simp: queue_inv_def)
  then show thesis using assms(1) linked_alloc [of "heap q" ns f] that by (auto simp: queue_inv_def)
qed

lemma free_node:
  assumes "queue_inv ns q" "pcs q 1 = D_free o1 v"
  obtains nd where "heap q o1 = Some nd"
  using assms that by (auto simp: queue_inv_def)

lemma fresh_block:
  assumes "queue_inv ns q"
  obtains a where "heap q a = None"
proof -
  have "finite (prod_nodes p)" "finite (cons_nodes p)" for p :: "'a lfq_pc" by (cases p; simp)+
  then have "finite (set ns \<union> prod_nodes (pcs q 0) \<union> cons_nodes (pcs q 1))" by simp
  from ex_new_if_finite [OF infinite_UNIV_nat this]
  obtain a where "a \<notin> set ns \<union> prod_nodes (pcs q 0) \<union> cons_nodes (pcs q 1)" ..
  moreover have "\<forall>a. heap q a \<noteq> None \<longleftrightarrow> a \<in> set ns \<or> a \<in> prod_nodes (pcs q 0) \<or> a \<in> cons_nodes (pcs q 1)"
    using assms by (simp add: queue_inv_def)
  ultimately have "heap q a = None" by blast
  then show thesis by (rule that)
qed

section \<open>The invariant\<close>

definition upto_int :: "nat \<Rightarrow> int list" where
  "upto_int n = map int [0..<n]"

lemma upto_int_Suc: "upto_int (Suc n) = upto_int n @ [int n]"
  by (simp add: upto_int_def)

fun producing :: "int lfq \<Rightarrow> nat \<Rightarrow> int lfq_pc \<Rightarrow> bool" where
  "producing q i Idle \<longleftrightarrow> pushed q = upto_int i"
| "producing q i (E_new v) \<longleftrightarrow> (\<exists>j. i = Suc j \<and> v = int j \<and> pushed q = upto_int j)"
| "producing q i (E_tail n) \<longleftrightarrow> (\<exists>j. i = Suc j \<and> map_option value_of (heap q n) = Some (int j) \<and> pushed q = upto_int j)"
| "producing q i (E_cas n old) \<longleftrightarrow> (\<exists>j. i = Suc j \<and> map_option value_of (heap q n) = Some (int j) \<and> pushed q = upto_int j)"
| "producing q i (E_swing n old) \<longleftrightarrow> 0 < i \<and> pushed q = upto_int i"
| "producing q i _ \<longleftrightarrow> False"

definition two_thread_inv :: "lfq_driver \<Rightarrow> bool" where
  "two_thread_inv d \<longleftrightarrow>
     spsc_inv (shared d) \<and> producing (shared d) (prod_i d) (pcs (shared d) 0) \<and> prod_i d \<le> 10 \<and>
     printed_in d = upto_int (if pcs (shared d) 0 = Idle then prod_i d else prod_i d - 1) \<and>
     popped (shared d) = printed_out d \<and> cons_i d = length (printed_out d) \<and> cons_i d \<le> 10 \<and>
     (pcs (shared d) 1 \<noteq> Idle \<longrightarrow> cons_i d < 10)"

lemma two_thread_inv_start: "two_thread_inv TestLFQConcurrently"
  using queue_inv_new [of "0 :: int"]
  by (auto simp: two_thread_inv_def TestLFQConcurrently_def spsc_inv_def LockFreeQueue_new_def upto_int_def)

text \<open>The rank counts the accesses that are left when nothing goes wrong.\<close>

fun prod_left :: "int lfq_pc \<Rightarrow> nat" where
  "prod_left (E_new v) = 4"
| "prod_left (E_tail n) = 3"
| "prod_left (E_cas n old) = 2"
| "prod_left (E_swing n old) = 1"
| "prod_left _ = 0"

fun cons_done :: "int lfq_pc \<Rightarrow> nat" where
  "cons_done D_head = 1"
| "cons_done (D_next o1) = 2"
| "cons_done (D_read o1 f) = 3"
| "cons_done (D_cas o1 f v) = 4"
| "cons_done (D_free o1 v) = 5"
| "cons_done _ = 0"

definition left :: "lfq_driver \<Rightarrow> nat" where
  "left d = (10 - prod_i d) * 5 + prod_left (pcs (shared d) 0) + ((10 - cons_i d) * 6 - cons_done (pcs (shared d) 1))"

text \<open>What a step must show of its outcome.\<close>

definition good_step :: "bool \<Rightarrow> lfq_driver \<Rightarrow> lfq_driver \<Rightarrow> bool" where
  "good_step u d d' \<longleftrightarrow> two_thread_inv d' \<and> (u \<longrightarrow> left d' < left d) \<and> left d' \<le> left d + 2"

lemma produce_call_good:
  assumes "two_thread_inv d" "pcs (shared d) 0 = Idle" "prod_i d < 10"
  shows "good_step True d (d\<lparr>shared := goto 0 (E_new (int (prod_i d))) (shared d), prod_i := prod_i d + 1\<rparr>)"
proof -
  have "lfq_step {0} {1} (shared d) (goto 0 (E_new (int (prod_i d))) (shared d))"
    using assms(2) by (intro call_enqueue) simp_all
  then have "spsc_inv (goto 0 (E_new (int (prod_i d))) (shared d))"
    using spsc_step assms(1) by (auto simp: two_thread_inv_def)
  moreover have "(10 - Suc (prod_i d)) * 5 + 4 < (10 - prod_i d) * 5" using assms(3) by linarith
  ultimately show ?thesis using assms by (simp add: good_step_def two_thread_inv_def left_def goto_def) auto
qed

lemma consume_call_good:
  assumes "two_thread_inv d" "pcs (shared d) 1 = Idle" "cons_i d < 10"
  shows "good_step True d (d\<lparr>shared := goto 1 D_head (shared d)\<rparr>)"
proof -
  have "lfq_step {0} {1} (shared d) (goto 1 D_head (shared d))"
    using assms(2) by (intro call_dequeue) simp_all
  then have "spsc_inv (goto 1 D_head (shared d))" using spsc_step assms(1) by (auto simp: two_thread_inv_def)
  moreover have "producing (goto 1 D_head (shared d)) i p = producing (shared d) i p" for i p
    by (cases p) (simp_all add: goto_def)
  moreover have "(10 - cons_i d) * 6 - 1 < (10 - cons_i d) * 6" using assms(3) by simp
  ultimately show ?thesis using assms by (simp add: good_step_def two_thread_inv_def left_def) (auto simp: goto_def)
qed

lemma produce_access_good:
  assumes inv: "two_thread_inv d" and pc: "pcs (shared d) 0 \<noteq> Idle" and a: "heap (shared d) a = None"
  shows "good_step (\<not> weak) d (after_enqueue (d\<lparr>shared := exec_enqueue 0 a weak (shared d)\<rparr>))"
proof -
  let ?q = "shared d"
  have "lfq_step {0} {1} ?q (exec_enqueue 0 a weak ?q)" using a by (intro step_enqueue) simp_all
  then have s: "spsc_inv (exec_enqueue 0 a weak ?q)" using spsc_step inv by (auto simp: two_thread_inv_def)
  obtain ns where ns: "queue_inv ns ?q" using inv by (auto simp: two_thread_inv_def spsc_inv_def)
  have p: "producing ?q (prod_i d) (pcs ?q 0)" using inv by (simp add: two_thread_inv_def)
  show ?thesis
  proof (cases "pcs ?q 0")
    case (E_new v)
    then show ?thesis using inv p s
      by (auto simp: good_step_def two_thread_inv_def left_def after_enqueue_def exec_enqueue_def goto_def)
  next
    case (E_tail n)
    then show ?thesis using inv p s
      by (auto simp: good_step_def two_thread_inv_def left_def after_enqueue_def exec_enqueue_def goto_def)
  next
    case (E_cas n old)
    obtain nd nn where nd: "heap ?q old = Some nd" "next_of nd = None" "heap ?q n = Some nn" "null_tail ?q = None"
      using cas_nodes [OF ns E_cas] .
    then show ?thesis using inv p s E_cas
      by (cases weak)
        (auto simp: good_step_def two_thread_inv_def left_def after_enqueue_def exec_enqueue_def goto_def upto_int_Suc)
  next
    case (E_swing n old)
    then show ?thesis using inv p s
      by (auto simp: good_step_def two_thread_inv_def left_def after_enqueue_def exec_enqueue_def goto_def
          gr0_conv_Suc upto_int_Suc)
  qed (use p pc in simp_all)
qed

lemma producing_cong:
  "producing q i p \<Longrightarrow> pushed q' = pushed q \<Longrightarrow> (\<And>n. n \<in> prod_nodes p \<Longrightarrow> heap q' n = heap q n) \<Longrightarrow> producing q' i p"
  by (cases p) auto

text \<open>What an access of the consumer leaves alone.\<close>

lemma consume_frame:
  assumes "queue_inv ns q"
  shows "pushed (exec_dequeue 1 stale q) = pushed q \<and> pcs (exec_dequeue 1 stale q) 0 = pcs q 0 \<and>
    (\<forall>n\<in>prod_nodes (pcs q 0). heap (exec_dequeue 1 stale q) n = heap q n)"
  using assms
  by (cases "pcs q 1") (auto simp: queue_inv_def exec_dequeue_def goto_def crash_def split: option.splits)

lemma consume_access_good:
  assumes inv: "two_thread_inv d" and pc: "pcs (shared d) 1 \<noteq> Idle" and q: "q = exec_dequeue 1 stale (shared d)"
  shows "good_step (\<not> empty_poll q) d (after_dequeue (d\<lparr>shared := q\<rparr>))"
proof -
  let ?q = "shared d"
  have "lfq_step {0} {1} ?q q" unfolding q by (intro step_dequeue) simp
  then have s: "spsc_inv q" using spsc_step inv by (auto simp: two_thread_inv_def)
  obtain ns where ns: "queue_inv ns ?q" using inv by (auto simp: two_thread_inv_def spsc_inv_def)
  have f: "pcs q 0 = pcs ?q 0" using consume_frame [OF ns] q by simp
  have p: "producing q (prod_i d) (pcs q 0)"
    using producing_cong [of ?q "prod_i d" "pcs ?q 0" q] consume_frame [OF ns] inv q by (auto simp: two_thread_inv_def)
  have i: "cons_i d < 10" using inv pc by (simp add: two_thread_inv_def)
  have effect: "popped q = popped ?q @ (case (pcs q 1, result q 1) of (Idle, Some v) \<Rightarrow> [v] | _ \<Rightarrow> []) \<and>
      (if pcs q 1 = Idle then (if result q 1 = None then cons_done (pcs ?q 1) \<le> 2 else cons_done (pcs ?q 1) = 5)
       else cons_done (pcs q 1) = Suc (cons_done (pcs ?q 1)))"
  proof (cases "pcs ?q 1")
    case (D_next o1)
    obtain nd where "heap ?q o1 = Some nd" using next_node [OF ns D_next] .
    then show ?thesis using D_next unfolding q
      by (cases "next_of nd"; cases stale) (simp_all add: exec_dequeue_def goto_def del: One_nat_def)
  next
    case (D_read o1 f)
    obtain nd where "heap ?q f = Some nd" using read_node [OF ns D_read] .
    then show ?thesis using D_read unfolding q by (simp add: exec_dequeue_def goto_def del: One_nat_def)
  next
    case (D_free o1 v)
    obtain nd where "heap ?q o1 = Some nd" using free_node [OF ns D_free] .
    then show ?thesis using D_free unfolding q by (simp add: exec_dequeue_def goto_def del: One_nat_def)
  qed (use pc ns in \<open>simp_all add: queue_inv_def exec_dequeue_def goto_def q\<close>)
  have done_le: "cons_done r \<le> 5" for r by (cases r) simp_all
  show ?thesis
  proof (cases "pcs q 1 = Idle")
    case True
    show ?thesis
    proof (cases "result q 1")
      case None
      then show ?thesis using inv effect True s p f i
        by (auto simp: good_step_def two_thread_inv_def left_def after_dequeue_def empty_poll_def)
    next
      case (Some v)
      then show ?thesis using inv effect True s p f i
        by (auto simp: good_step_def two_thread_inv_def left_def after_dequeue_def empty_poll_def)
    qed
  next
    case False
    then have same: "after_dequeue (d\<lparr>shared := q\<rparr>) = d\<lparr>shared := q\<rparr>" "popped q = popped ?q"
      using effect by (cases "pcs q 1"; simp add: after_dequeue_def)+
    show ?thesis using inv effect False s p f i done_le [of "pcs q 1"] unfolding same(1)
      by (auto simp: good_step_def two_thread_inv_def left_def empty_poll_def same(2))
  qed
qed

lemma driver_step_good: "driver_step u d d' \<Longrightarrow> two_thread_inv d \<Longrightarrow> good_step u d d'"
  by (induction rule: driver_step.induct)
    (blast intro: produce_call_good produce_access_good consume_call_good consume_access_good)+

lemma driver_run_left: "driver_run n k d \<Longrightarrow> two_thread_inv d \<and> n + left d \<le> 110 + 3 * k"
proof (induction rule: driver_run.induct)
  case run_begin
  then show ?case by (simp add: two_thread_inv_start) (simp add: left_def TestLFQConcurrently_def LockFreeQueue_new_def)
next
  case (run_useful n k d d')
  then show ?case using driver_step_good [OF run_useful(2)] by (auto simp: good_step_def)
next
  case (run_wasted n k d d')
  then show ?case using driver_step_good [OF run_wasted(2)] by (auto simp: good_step_def)
qed

section \<open>Progress\<close>

lemma driver_progress:
  assumes inv: "two_thread_inv d" and "\<not> joined d"
  shows "\<exists>d'. driver_step True d d'"
proof -
  obtain ns where ns: "queue_inv ns (shared d)" using inv by (auto simp: two_thread_inv_def spsc_inv_def)
  obtain a where a: "heap (shared d) a = None" using fresh_block [OF ns] .
  consider "pcs (shared d) 0 \<noteq> Idle" | "pcs (shared d) 0 = Idle" "prod_i d < 10"
    | "pcs (shared d) 0 = Idle" "prod_i d = 10" "pcs (shared d) 1 = Idle" "cons_i d < 10"
    | "pcs (shared d) 0 = Idle" "prod_i d = 10" "pcs (shared d) 1 \<noteq> Idle"
    using assms by (auto simp: joined_def two_thread_inv_def nat_less_le)
  then show ?thesis
  proof cases
    case 1
    from produce_access [OF this a, of False] show ?thesis by auto
  next
    case 2
    from produce_call [OF this] show ?thesis by blast
  next
    case 3
    from consume_call [OF 3(3,4)] show ?thesis by blast
  next
    case 4
    have "pushed (shared d) = upto_int 10" "length (popped (shared d)) < 10"
      using inv 4 by (auto simp: two_thread_inv_def)
    then have more: "popped (shared d) \<noteq> pushed (shared d)" by (auto simp: upto_int_def)
    have "\<not> empty_poll (exec_dequeue 1 False (shared d))"
    proof (cases "pcs (shared d) 1")
      case (D_next o1)
      obtain nd where nd: "heap (shared d) o1 = Some nd" "next_of nd \<noteq> None"
        using next_node [OF ns D_next] more by metis
      then show ?thesis using D_next by (auto simp: empty_poll_def exec_dequeue_def goto_def)
    next
      case (D_read o1 f)
      obtain nd where "heap (shared d) f = Some nd" using read_node [OF ns D_read] .
      then show ?thesis using D_read by (simp add: empty_poll_def exec_dequeue_def goto_def)
    next
      case (D_free o1 v)
      obtain nd where "heap (shared d) o1 = Some nd" using free_node [OF ns D_free] .
      then show ?thesis using D_free by (simp add: empty_poll_def exec_dequeue_def goto_def)
    qed (use 4 ns in \<open>simp_all add: empty_poll_def queue_inv_def exec_dequeue_def goto_def\<close>)
    then show ?thesis using consume_access [OF 4(3), where stale = False, OF refl] by auto
  qed
qed

lemma prefix_upto_int: "i \<le> n \<Longrightarrow> prefix (upto_int i) (upto_int n)"
  unfolding upto_int_def using upt_add_eq_append [of 0 i "n - i"] by (auto simp: prefix_def)

lemma producing_prefix: "producing q i p \<Longrightarrow> i \<le> 10 \<Longrightarrow> prefix (pushed q) (upto_int 10)"
  using prefix_upto_int [of "i - 1" 10] prefix_upto_int [of i 10] by (cases p) auto

section \<open>Properties\<close>

text \<open>C4: The two threads of \<^verbatim>\<open>TestLFQConcurrently\<close>. However their accesses interleave, the consumer prints
  numbers from 0 on, in order, and nothing crashes; until both loops are over one of the threads can take
  a step that achieves something, and of these there are few: a run with \<open>k\<close> steps that achieve nothing
  (spurious failures, polls that find nothing) has at most \<open>110 + 3 * k\<close> steps. When both are joined, all
  ten numbers have been enqueued and dequeued and the destructor frees every node.\<close>

theorem lfq_driver_delivers:
  assumes "driver_run n k d"
  shows "n \<le> 110 + 3 * k \<and> \<not> crashed (shared d) \<and> prefix (printed_out d) (map int [0..<10]) \<and>
    (if joined d then
       printed_in d = map int [0..<10] \<and> printed_out d = map int [0..<10] \<and>
       LockFreeQueue_dtor (shared d) = Some (\<lambda>_. None)
     else \<exists>d'. driver_step True d d')"
proof -
  have inv: "two_thread_inv d" "n \<le> 110 + 3 * k" using driver_run_left [OF assms] by auto
  then have s: "spsc_inv (shared d)" "printed_out d = popped (shared d)" by (simp_all add: two_thread_inv_def)
  have pre: "prefix (printed_out d) (upto_int 10)"
    using spsc_prefix [OF s(1)] producing_prefix inv(1) s(2) prefix_order.trans by (fastforce simp: two_thread_inv_def)
  have all: "printed_in d = upto_int 10 \<and> printed_out d = upto_int 10 \<and> LockFreeQueue_dtor (shared d) = Some (\<lambda>_. None)"
    if j: "joined d"
  proof -
    have "length (printed_out d) = length (upto_int 10)" using inv(1) j by (simp add: two_thread_inv_def joined_def upto_int_def)
    then have "printed_out d = upto_int 10" using pre by (auto simp: prefix_def)
    then show ?thesis using inv(1) j spsc_dtor [OF s(1)] by (simp add: two_thread_inv_def joined_def)
  qed
  have "\<not> crashed (shared d)" using s(1) by (auto simp: spsc_inv_def queue_inv_def)
  then show ?thesis using inv pre all driver_progress [OF inv(1)] unfolding upto_int_def by auto
qed

text \<open>The producer has begun its first call.\<close>

theorem lfq_driver_delivers_witness:
  "\<exists>d. driver_run 1 0 d \<and> prod_i d = 1 \<and> \<not> crashed (shared d) \<and> (\<exists>d'. driver_step True d d')"
proof -
  let ?d = "TestLFQConcurrently\<lparr>shared := goto 0 (E_new 0) (LockFreeQueue_new 0), prod_i := 1\<rparr>"
  have "driver_step True TestLFQConcurrently ?d"
    using produce_call [of TestLFQConcurrently] by (simp add: TestLFQConcurrently_def LockFreeQueue_new_def)
  from run_useful [OF run_begin this] have r: "driver_run 1 0 ?d" by simp
  have "\<not> joined ?d" by (simp add: joined_def)
  then show ?thesis using lfq_driver_delivers [OF r] r by (intro exI [of _ ?d]) simp
qed

end
