(* ===== verification/Forwarding.thy ===== *)
theory Forwarding
  imports Main
begin

text \<open>
  \<^verbatim>\<open>example-perfect-forwarding/main.cc\<close>: which overload a call selects, directly and through the function
  templates of the file. What the language does to an argument is its type: whether it is constant, and
  whether it is an lvalue or an rvalue. Template deduction, reference collapsing, \<^verbatim>\<open>std::forward\<close> and the
  ranking of overloads are functions on these types, as the standard gives them for the three kinds of
  reference parameters the file uses. The result of a function is what it prints, or \<open>None\<close> where the
  call does not compile.
\<close>

section \<open>Expressions and parameters\<close>

datatype category = Lvalue | Rvalue

datatype expr = Expr (is_const: bool) (category_of: category)

text \<open>The parameters \<^verbatim>\<open>T&\<close>, \<^verbatim>\<open>const T&\<close> and \<^verbatim>\<open>T&&\<close>.\<close>

datatype param = Ref | Const_ref | Rvalue_ref

fun binds :: "param \<Rightarrow> expr \<Rightarrow> bool" where
  "binds Ref e \<longleftrightarrow> \<not> is_const e \<and> category_of e = Lvalue"
| "binds Const_ref e \<longleftrightarrow> True"
| "binds Rvalue_ref e \<longleftrightarrow> \<not> is_const e \<and> category_of e = Rvalue"

text \<open>Binding an rvalue to \<^verbatim>\<open>T&&\<close>, and an lvalue to the less qualified reference, is better.\<close>

definition better :: "param \<Rightarrow> param \<Rightarrow> bool" where
  "better p q \<longleftrightarrow> p \<noteq> Const_ref \<and> q = Const_ref"

definition resolve :: "param list \<Rightarrow> expr \<Rightarrow> param option" where
  "resolve ps e =
     (let viable = filter (\<lambda>p. binds p e) ps
      in case filter (\<lambda>p. list_all (\<lambda>q. q = p \<or> better p q) viable) viable of
           [p] \<Rightarrow> Some p
         | _ \<Rightarrow> None)"

section \<open>Templates\<close>

text \<open>A deduced template argument: the constness of the type and whether it is a reference.\<close>

datatype targ = Plain bool | Lref bool

text \<open>Deduction for a parameter \<^verbatim>\<open>T&&\<close>, and the type \<^verbatim>\<open>T&&\<close> after reference collapsing.\<close>

fun deduce :: "expr \<Rightarrow> targ" where
  "deduce (Expr c Lvalue) = Lref c"
| "deduce (Expr c Rvalue) = Plain c"

datatype ref_type = Lvalue_reference bool | Rvalue_reference bool

fun collapse :: "targ \<Rightarrow> ref_type" where
  "collapse (Lref c) = Lvalue_reference c"
| "collapse (Plain c) = Rvalue_reference c"

text \<open>The name of a parameter is an lvalue; a cast to a reference type has the category of the reference.\<close>

fun named :: "ref_type \<Rightarrow> expr" where
  "named (Lvalue_reference c) = Expr c Lvalue"
| "named (Rvalue_reference c) = Expr c Lvalue"

fun cast :: "ref_type \<Rightarrow> expr" where
  "cast (Lvalue_reference c) = Expr c Lvalue"
| "cast (Rvalue_reference c) = Expr c Rvalue"

definition std_forward :: "targ \<Rightarrow> expr" where
  "std_forward T = cast (collapse T)"

text \<open>\<^verbatim>\<open>std::move\<close> of a variable.\<close>

definition std_move :: "expr \<Rightarrow> expr" where
  "std_move e = Expr (is_const e) Rvalue"

section \<open>The classes and functions\<close>

fun Bar_message :: "param \<Rightarrow> string" where
  "Bar_message Ref = ''Bar lvalue construction''"
| "Bar_message Const_ref = ''Bar rvalue construction''"
| "Bar_message Rvalue_ref = ''Bar construction''"

definition Bar_new :: "expr \<Rightarrow> string list option" where
  "Bar_new i = map_option (\<lambda>p. [Bar_message p]) (resolve [Ref, Const_ref, Rvalue_ref] i)"

fun Process_message :: "param \<Rightarrow> string" where
  "Process_message Ref = ''Process with reference''"
| "Process_message Const_ref = ''Process with const reference''"
| "Process_message Rvalue_ref = ''Process with rvalue''"

text \<open>All parameters are references to \<^verbatim>\<open>Bar\<close>: an \<^verbatim>\<open>int\<close> is converted by a constructor to a temporary, which
  is an rvalue, and that is what the overloads are ranked for.\<close>

definition Process_Bar :: "expr \<Rightarrow> string list option" where
  "Process_Bar i =
     (case Bar_new i of
        None \<Rightarrow> None
      | Some made \<Rightarrow>
          map_option (\<lambda>p. made @ [Process_message p]) (resolve [Ref, Const_ref, Rvalue_ref] (Expr False Rvalue)))"

text \<open>\<^verbatim>\<open>T t\<close> copies its argument; the copy is not constant.\<close>

definition forward_param :: "expr \<Rightarrow> string list option" where
  "forward_param e = map_option (Cons ''forward_param'') (Process_Bar (Expr False Lvalue))"

definition forward_param2 :: "expr \<Rightarrow> string list option" where
  "forward_param2 e = map_option (Cons ''forward_param2'') (Process_Bar (named (collapse (deduce e))))"

definition forward_param3 :: "expr \<Rightarrow> string list option" where
  "forward_param3 e = map_option (Cons ''forward_param3'') (Process_Bar (std_forward (deduce e)))"

fun Foo_message :: "param \<Rightarrow> string" where
  "Foo_message Ref = ''lvalue construction''"
| "Foo_message Rvalue_ref = ''rvalue construciton''"
| "Foo_message Const_ref = []"

definition Foo_new :: "expr \<Rightarrow> string list option" where
  "Foo_new i = map_option (\<lambda>p. [Foo_message p]) (resolve [Ref, Rvalue_ref] i)"

definition create :: "(expr \<Rightarrow> string list option) \<Rightarrow> expr \<Rightarrow> string list option" where
  "create T_new arg = map_option (Cons ''create'') (T_new (std_forward (deduce arg)))"

text \<open>What a list of calls prints.\<close>

fun print_all :: "string list option list \<Rightarrow> string list option" where
  "print_all [] = Some []"
| "print_all (None # calls) = None"
| "print_all (Some out # calls) = map_option (append out) (print_all calls)"

definition TestPerfectForwarding :: "string list option" where
  "TestPerfectForwarding =
     (let a = Expr False Lvalue; literal = Expr False Rvalue; d = Expr True Lvalue in
      print_all
        [Some [''Start test'', ''forward_param test''],
         forward_param a, forward_param literal, forward_param (std_move a),
         Some [''forward_param2 test''],
         forward_param2 a, forward_param2 literal, forward_param2 (std_move a),
         Some [''forward_param3 test''],
         forward_param3 a, forward_param3 literal, forward_param3 (std_move a), forward_param3 d])"

definition TestPerfectForwarding1 :: "string list option" where
  "TestPerfectForwarding1 =
     (let a = Expr False Lvalue; literal = Expr False Rvalue in
      print_all [Some [''Start test1''], create Foo_new a, create Foo_new literal])"

section \<open>Types through layers of calls\<close>

lemma std_forward_deduce [simp]: "std_forward (deduce e) = e"
  by (cases e rule: deduce.cases) (simp_all add: std_forward_def)

lemma named_deduce [simp]: "named (collapse (deduce e)) = Expr (is_const e) Lvalue"
  by (cases e rule: deduce.cases) simp_all

text \<open>An argument handed on through several functions: by \<^verbatim>\<open>std::forward\<close> of a \<^verbatim>\<open>T&&\<close>, by the name of a
  \<^verbatim>\<open>T&&\<close>, or by the name of a copy.\<close>

datatype layer = Forwarded | By_name | By_copy

fun hand_on :: "layer \<Rightarrow> expr \<Rightarrow> expr" where
  "hand_on Forwarded e = std_forward (deduce e)"
| "hand_on By_name e = named (collapse (deduce e))"
| "hand_on By_copy e = Expr False Lvalue"

lemma hand_on_eq:
  "hand_on Forwarded e = e" "hand_on By_name e = Expr (is_const e) Lvalue" "hand_on By_copy e = Expr False Lvalue"
  by simp_all

lemma hand_on_layers:
  "fold hand_on ls e =
     (if set ls \<subseteq> {Forwarded} then e else Expr (is_const e \<and> By_copy \<notin> set ls) Lvalue)"
proof (induction ls arbitrary: e)
  case (Cons l ls)
  then show ?case by (cases l) (auto simp: hand_on_eq simp del: hand_on.simps(1,2))
qed simp

lemma resolve_three:
  "resolve [Ref, Const_ref, Rvalue_ref] e =
     Some (if is_const e then Const_ref else case category_of e of Lvalue \<Rightarrow> Ref | Rvalue \<Rightarrow> Rvalue_ref)"
  by (cases e; cases "is_const e"; cases "category_of e") (simp_all add: resolve_def better_def)

lemma resolve_two:
  "resolve [Ref, Rvalue_ref] e =
     (if is_const e then None else Some (case category_of e of Lvalue \<Rightarrow> Ref | Rvalue \<Rightarrow> Rvalue_ref))"
  by (cases e; cases "is_const e"; cases "category_of e") (simp_all add: resolve_def better_def)

text \<open>The second line of a driver's call tells how the argument arrived, the third is always the same.\<close>

lemma Process_always_rvalue:
  "Process_Bar e = Some [Bar_message (if is_const e then Const_ref else case category_of e of Lvalue \<Rightarrow> Ref | Rvalue \<Rightarrow> Rvalue_ref),
     ''Process with rvalue'']"
  by (simp add: Process_Bar_def Bar_new_def resolve_three)

lemma TestPerfectForwarding_output:
  "map_option (filter (\<lambda>l. take 3 l = ''Bar'')) TestPerfectForwarding =
     Some (replicate 6 ''Bar lvalue construction'' @
       [''Bar lvalue construction'', ''Bar construction'', ''Bar construction'', ''Bar rvalue construction''])"
  "TestPerfectForwarding1 =
     Some [''Start test1'', ''create'', ''lvalue construction'', ''create'', ''rvalue construciton'']"
  by code_simp+

section \<open>Properties\<close>

text \<open>C19: Perfect forwarding is type preserving. Through any chain of functions that forward, an argument
  arrives with the constness and value category it was passed with, so every overload set resolves as
  for a direct call, and \<^verbatim>\<open>create\<close> compiles exactly when the direct construction does; handed on once by
  name or by copy it arrives as an lvalue. But \<^verbatim>\<open>Process\<close> converts its \<^verbatim>\<open>int\<close> to a temporary first, so the
  overload for rvalues is called for every argument.\<close>

theorem forwarding_preserves_types:
  "resolve ps (fold hand_on ls e) =
     (if set ls \<subseteq> {Forwarded} then resolve ps e
      else resolve ps (Expr (is_const e \<and> By_copy \<notin> set ls) Lvalue)) \<and>
   forward_param3 e = map_option (Cons ''forward_param3'') (Process_Bar e) \<and>
   forward_param2 e = map_option (Cons ''forward_param2'') (Process_Bar (Expr (is_const e) Lvalue)) \<and>
   create T_new e = map_option (Cons ''create'') (T_new e) \<and>
   (create Foo_new e = None \<longleftrightarrow> is_const e) \<and>
   (\<exists>how. Process_Bar e = Some [how, ''Process with rvalue''])"
  by (simp add: hand_on_layers forward_param3_def forward_param2_def create_def Foo_new_def resolve_two
      Process_always_rvalue)

end
