(* ===== verification/Layout.thy ===== *)
theory Layout
  imports Bits
begin

text \<open>
  Pointers into structures: \<^verbatim>\<open>container_of\<close> and \<^verbatim>\<open>get_struct_ptr\<close> of \<^verbatim>\<open>common/mem.h\<close>, the tests of
  \<^verbatim>\<open>example-tmp/main.cc\<close> that print offsets and go from a member back to its structure, and the storage of
  \<^verbatim>\<open>example-singleton/main.cc\<close>. A pointer is a 64-bit address. Where the compiler puts the members of a
  structure is the rule of the platform ABI: each at the next multiple of its alignment.
\<close>

section \<open>Types and their layout\<close>

text \<open>A scalar is as aligned as it is large; a storage for a type is an array of as many bytes, declared
  with the alignment of the type; other types are structures.\<close>

datatype ctype = Scalar nat | Struct "ctype list" | Storage ctype

definition uint8 :: ctype where "uint8 = Scalar 1"
definition uint32 :: ctype where "uint32 = Scalar 4"
definition uint64 :: ctype where "uint64 = Scalar 8"

definition round_up :: "nat \<Rightarrow> nat \<Rightarrow> nat" where
  "round_up n a = (n + a - 1) div a * a"

text \<open>The offsets of members with given sizes and alignments, from a position on, and where they end.\<close>

fun place :: "nat \<Rightarrow> (nat \<times> nat) list \<Rightarrow> nat list" where
  "place pos [] = []"
| "place pos ((s, a) # ms) = round_up pos a # place (round_up pos a + s) ms"

fun place_end :: "nat \<Rightarrow> (nat \<times> nat) list \<Rightarrow> nat" where
  "place_end pos [] = pos"
| "place_end pos ((s, a) # ms) = place_end (round_up pos a + s) ms"

fun max_align :: "nat list \<Rightarrow> nat" where
  "max_align [] = 1"
| "max_align (a # as) = max a (max_align as)"

fun alignof :: "ctype \<Rightarrow> nat" where
  "alignof (Scalar n) = n"
| "alignof (Struct ts) = max_align (map alignof ts)"
| "alignof (Storage t) = alignof t"

fun sizeof :: "ctype \<Rightarrow> nat" where
  "sizeof (Scalar n) = n"
| "sizeof (Struct ts) =
     round_up (max 1 (place_end 0 (map (\<lambda>t. (sizeof t, alignof t)) ts))) (max_align (map alignof ts))"
| "sizeof (Storage t) = sizeof t"

definition members :: "ctype list \<Rightarrow> (nat \<times> nat) list" where
  "members ts = map (\<lambda>t. (sizeof t, alignof t)) ts"

definition offsetof :: "ctype list \<Rightarrow> nat \<Rightarrow> nat" where
  "offsetof ts i = place 0 (members ts) ! i"

section \<open>From a member to its structure\<close>

text \<open>The macro subtracts the offset from the address; the template computes the offset as the address of
  the member in a structure at address 0.\<close>

definition member_at :: "u64 \<Rightarrow> ctype list \<Rightarrow> nat \<Rightarrow> u64" where
  "member_at base ts i = base + of_nat (offsetof ts i)"

definition container_of :: "u64 \<Rightarrow> ctype list \<Rightarrow> nat \<Rightarrow> u64" where
  "container_of ptr ts i = ptr - of_nat (offsetof ts i)"

definition get_struct_ptr :: "u64 \<Rightarrow> ctype list \<Rightarrow> nat \<Rightarrow> u64" where
  "get_struct_ptr member_ptr ts i = (let offset = member_at 0 ts i in member_ptr - offset)"

text \<open>What the tests print, for a structure at a given address; \<open>None\<close> is a failed check.\<close>

definition convert_member_pointer_to_struct :: "u64 \<Rightarrow> nat list option" where
  "convert_member_pointer_to_struct f =
     (let foo = [uint8, uint32, uint64]; dummy = member_at f foo 1; fp = container_of dummy foo 1
      in if fp \<noteq> f then None else Some [offsetof foo 0, offsetof foo 1, offsetof foo 2])"

definition TestOffsetOf :: "u64 \<Rightarrow> u64 \<Rightarrow> (nat list \<times> nat list) option" where
  "TestOffsetOf f b =
     (let bar = [uint8, uint32, uint8];
          bp = get_struct_ptr (member_at b bar 2) bar 2;
          bp1 = member_at b bar 2 - of_nat (offsetof bar 2)
      in case convert_member_pointer_to_struct f of
           None \<Rightarrow> None
         | Some offsets \<Rightarrow>
             if bp = b \<and> bp1 = b then Some (offsets, [offsetof bar 0, offsetof bar 1, offsetof bar 2]) else None)"

text \<open>The difference of two pointers counts elements.\<close>

definition TestIndexWithArray :: "nat \<Rightarrow> bool" where
  "TestIndexWithArray fp =
     (let sz = sizeof (Struct [uint8, uint32]) in (fp + 5 * sz - fp) div sz = 5 \<and> (fp + 0 * sz - fp) div sz = 0)"

text \<open>The sizes of \<^verbatim>\<open>Foo\<close>, \<^verbatim>\<open>Bar\<close>, \<^verbatim>\<open>Empty\<close> and an empty vector, for the library's vector.\<close>

definition TestSizeofWithVector :: "ctype \<Rightarrow> nat list" where
  "TestSizeofWithVector vec =
     (let bar = Struct [uint32, uint8];
          foo = Struct [uint32, uint32, uint32, vec];
          empty_struct = Struct [uint32, vec]
      in [sizeof foo, sizeof bar, sizeof empty_struct, sizeof vec])"

text \<open>\<^verbatim>\<open>TestCast\<close>: the base \<^verbatim>\<open>Foo\<close>, two strings, is the first part of a \<^verbatim>\<open>Bar\<close>. A pointer to it is made, and
  read as a pointer to the whole.\<close>

datatype struct_cell = Text string | Number u32

definition cast_key :: "ctype \<Rightarrow> u64 \<Rightarrow> u64" where
  "cast_key str p = member_at (member_at p [Struct [str, str], uint32] 0) [str, str] 0"

definition cast_value :: "ctype \<Rightarrow> u64 \<Rightarrow> u64" where
  "cast_value str p = member_at (member_at p [Struct [str, str], uint32] 0) [str, str] 1"

definition cast_index :: "ctype \<Rightarrow> u64 \<Rightarrow> u64" where
  "cast_index str p = member_at p [Struct [str, str], uint32] 1"

definition TestCast :: "ctype \<Rightarrow> u64 \<Rightarrow> bool" where
  "TestCast str b =
     (let mem = [cast_key str b \<mapsto> Text ''a'', cast_value str b \<mapsto> Text ''b'', cast_index str b \<mapsto> Number 9527];
          foo = member_at b [Struct [str, str], uint32] 0;
          bp = foo
      in mem (cast_index str bp) = Some (Number 9527) \<and> mem (cast_key str bp) = Some (Text ''a'') \<and>
         mem (cast_value str bp) = Some (Text ''b''))"

section \<open>The storage of a singleton\<close>

definition Singleton :: "ctype \<Rightarrow> ctype list" where
  "Singleton t = [Storage t]"

definition singleton_asserts :: "ctype \<Rightarrow> bool" where
  "singleton_asserts t \<longleftrightarrow>
     sizeof (Storage t) \<ge> sizeof t \<and> offsetof (Singleton t) 0 mod alignof t = 0 \<and>
     alignof (Struct (Singleton t)) mod alignof t = 0"

text \<open>The static local of \<^verbatim>\<open>GetDefaultFoo\<close>, at the address \<open>static_foo\<close>: constructed by the first call. The
  destructor of \<^verbatim>\<open>Singleton\<close> is the default one, so the object in the storage is never destroyed.\<close>

record foo_static =
  foo_value :: "(string \<times> u32) option"
  foo_constructions :: nat

definition foo_static_init :: foo_static where
  "foo_static_init = \<lparr>foo_value = None, foo_constructions = 0\<rparr>"

definition Singleton_get :: "u64 \<Rightarrow> u64" where
  "Singleton_get this = this"

definition GetDefaultFoo :: "u64 \<Rightarrow> foo_static \<Rightarrow> u64 \<times> foo_static" where
  "GetDefaultFoo static_foo s =
     (let s' = (case foo_value s of
                  None \<Rightarrow> \<lparr>foo_value = Some (''DefaultFoo'', 9527), foo_constructions = foo_constructions s + 1\<rparr>
                | Some _ \<Rightarrow> s)
      in (Singleton_get static_foo, s'))"

definition Foo_Display :: "string \<times> u32 \<Rightarrow> string" where
  "Foo_Display foo = ''key:'' @ fst foo @ '' value:'' @ show_nat (unat (snd foo))"

definition TestSingleton :: "u64 \<Rightarrow> foo_static \<Rightarrow> string option \<times> foo_static" where
  "TestSingleton static_foo s =
     (let (foo, s') = GetDefaultFoo static_foo s in (map_option Foo_Display (foo_value s'), s'))"

section \<open>The layout rule\<close>

lemma round_up_le: "0 < a \<Longrightarrow> n \<le> round_up n a"
  using div_mult_mod_eq [of "n + a - 1" a] mod_less_divisor [of a "n + a - 1"] unfolding round_up_def by linarith

lemma round_up_dvd: "a dvd round_up n a"
  by (simp add: round_up_def)

lemma round_up_less: "0 < a \<Longrightarrow> round_up n a < n + a"
  using div_times_less_eq_dividend [of "n + a - 1" a] unfolding round_up_def by linarith

lemma round_up_zero: "0 < a \<Longrightarrow> round_up 0 a = 0"
  by (simp add: round_up_def)

lemma place_length [simp]: "length (place pos ms) = length ms"
  by (induction pos ms rule: place.induct) simp_all

lemma place_from: "list_all (\<lambda>m. 0 < snd m) ms \<Longrightarrow> i < length ms \<Longrightarrow> pos \<le> place pos ms ! i"
proof (induction pos ms arbitrary: i rule: place.induct)
  case (2 pos s a ms)
  then show ?case using round_up_le [of a pos] by (cases i) (auto intro: le_trans [OF _ le_trans [OF le_add1]])
qed simp

lemma place_aligned: "i < length ms \<Longrightarrow> snd (ms ! i) dvd place pos ms ! i"
proof (induction pos ms arbitrary: i rule: place.induct)
  case (2 pos s a ms)
  then show ?case by (cases i) (simp_all add: round_up_dvd)
qed simp

lemma place_end_from: "list_all (\<lambda>m. 0 < snd m) ms \<Longrightarrow> pos \<le> place_end pos ms"
proof (induction pos ms rule: place_end.induct)
  case (2 pos s a ms)
  then show ?case using round_up_le [of a pos] by simp
qed simp

lemma place_within:
  "list_all (\<lambda>m. 0 < snd m) ms \<Longrightarrow> i < length ms \<Longrightarrow> place pos ms ! i + fst (ms ! i) \<le> place_end pos ms"
proof (induction pos ms arbitrary: i rule: place.induct)
  case (2 pos s a ms)
  then show ?case by (cases i) (simp_all add: place_end_from)
qed simp

lemma place_disjoint:
  "list_all (\<lambda>m. 0 < snd m) ms \<Longrightarrow> i < j \<Longrightarrow> j < length ms \<Longrightarrow> place pos ms ! i + fst (ms ! i) \<le> place pos ms ! j"
proof (induction pos ms arbitrary: i j rule: place.induct)
  case (2 pos s a ms)
  then obtain k where k: "j = Suc k" by (cases j) auto
  show ?case
  proof (cases i)
    case 0
    then show ?thesis using 2 k place_from [of ms k "round_up pos a + s"] by simp
  next
    case (Suc l)
    then show ?thesis using 2 k by simp
  qed
qed simp

text \<open>Types of scalars of the machine: alignments are powers of two, so the greatest is a multiple of all.\<close>

fun machine_type :: "ctype \<Rightarrow> bool" where
  "machine_type (Scalar n) \<longleftrightarrow> n \<in> {1, 2, 4, 8, 16}"
| "machine_type (Struct ts) \<longleftrightarrow> list_all machine_type ts"
| "machine_type (Storage t) \<longleftrightarrow> machine_type t"

lemma max_align_power:
  "list_all (\<lambda>a. a \<in> {1, 2, 4, 8, 16 :: nat}) as \<Longrightarrow> max_align as \<in> {1, 2, 4, 8, 16} \<and> (\<forall>a\<in>set as. a dvd max_align as)"
proof (induction as)
  case (Cons a as)
  then have "a \<in> {1, 2, 4, 8, 16}" "max_align as \<in> {1, 2, 4, 8, 16}" "\<forall>b\<in>set as. b dvd max_align as" by auto
  moreover have "x dvd max x y \<and> y dvd max x y" if "x \<in> {1, 2, 4, 8, 16}" "y \<in> {1, 2, 4, 8, 16}" for x y :: nat
    using that by auto
  ultimately show ?case by (auto simp: max_def intro: dvd_trans)
qed simp

lemma machine_type_align: "machine_type t \<Longrightarrow> alignof t \<in> {1, 2, 4, 8, 16}"
proof (induction t)
  case (Struct ts)
  then have "list_all (\<lambda>a. a \<in> {1, 2, 4, 8, 16}) (map alignof ts)" by (auto simp: list_all_iff)
  then show ?case using max_align_power by simp
qed simp_all

lemma machine_type_size: "machine_type t \<Longrightarrow> 0 < sizeof t \<and> alignof t dvd sizeof t"
proof (induction t)
  case (Struct ts)
  have "0 < max_align (map alignof ts)" using machine_type_align [OF Struct.prems] by auto
  then show ?case using round_up_dvd round_up_le by (auto simp: less_le_trans [OF _ round_up_le])
qed auto

lemma members_aligned: "list_all machine_type ts \<Longrightarrow> list_all (\<lambda>m. 0 < snd m) (members ts)"
  using machine_type_align by (fastforce simp: list_all_iff members_def)

lemma offset_within:
  assumes "list_all machine_type ts" "i < length ts"
  shows "offsetof ts i + sizeof (ts ! i) \<le> sizeof (Struct ts)"
proof -
  have "offsetof ts i + sizeof (ts ! i) \<le> place_end 0 (members ts)"
    using place_within [OF members_aligned [OF assms(1)], of i 0] assms(2) by (simp add: offsetof_def members_def)
  also have "\<dots> \<le> max 1 (place_end 0 (members ts))" by simp
  also have "\<dots> \<le> sizeof (Struct ts)"
  proof -
    have a: "0 < max_align (map alignof ts)" using machine_type_align [of "Struct ts"] assms(1) by auto
    have "sizeof (Struct ts) = round_up (max 1 (place_end 0 (members ts))) (max_align (map alignof ts))"
      by (simp add: members_def)
    then show ?thesis using round_up_le [OF a] by simp
  qed
  finally show ?thesis .
qed

lemma get_struct_ptr_eq: "get_struct_ptr p ts i = container_of p ts i"
  by (simp add: get_struct_ptr_def container_of_def member_at_def)

lemma container_of_member: "container_of (member_at base ts i) ts i = base"
  by (simp add: container_of_def member_at_def)

lemma member_at_unat:
  assumes "list_all machine_type ts" "i < length ts" "unat base + sizeof (Struct ts) < 2 ^ 64"
  shows "unat (member_at base ts i) = unat base + offsetof ts i"
proof -
  have small: "unat base + offsetof ts i < 2 ^ LENGTH(64)"
    using offset_within [OF assms(1,2)] assms(3) by simp
  then have "unat (of_nat (offsetof ts i) :: u64) = offsetof ts i"
    by (simp only: unsigned_of_nat take_bit_nat_eq_self of_nat_id add_leD2 [OF less_imp_le])
  then show ?thesis unfolding member_at_def using small by (subst unat_add_lem [THEN iffD1]) simp_all
qed

section \<open>Properties\<close>

text \<open>The platform's rule does for these types what the samples rely on: every member is aligned and inside the
  structure, and starts after the end of those before it; from its address \<^verbatim>\<open>container_of\<close> and
  \<^verbatim>\<open>get_struct_ptr\<close> lead back. The compile-time assertions of \<^verbatim>\<open>Singleton\<close> hold for every machine type.\<close>

lemma members_disjoint:
  assumes "list_all machine_type ts" "i < length ts" "j < i"
  shows "offsetof ts j + sizeof (ts ! j) \<le> offsetof ts i"
  using place_disjoint [OF members_aligned [OF assms(1)] assms(3), of 0] assms(2,3) by (simp add: offsetof_def members_def)

lemma member_aligned:
  assumes "list_all machine_type ts" "i < length ts"
    and "unat base + sizeof (Struct ts) < 2 ^ 64" "alignof (Struct ts) dvd unat base"
  shows "alignof (ts ! i) dvd unat (member_at base ts i)"
proof -
  have "list_all (\<lambda>a. a \<in> {1, 2, 4, 8, 16}) (map alignof ts)"
    using machine_type_align assms(1) by (auto simp: list_all_iff)
  from max_align_power [OF this] have "alignof (ts ! i) dvd alignof (Struct ts)" using assms(2) by simp
  then have "alignof (ts ! i) dvd unat base" using assms(4) by (rule dvd_trans)
  moreover have "alignof (ts ! i) dvd offsetof ts i"
    using place_aligned [of i "members ts" 0] assms(2) by (simp add: offsetof_def members_def)
  ultimately show ?thesis
    unfolding member_at_unat [OF assms(1-3)] by (rule dvd_add)
qed

lemma singleton_asserts_hold: "machine_type t \<Longrightarrow> singleton_asserts t"
  using machine_type_align [of t]
  by (auto simp: singleton_asserts_def offsetof_def Singleton_def members_def round_up_zero max_def)

text \<open>The drivers pass wherever the structures are, and print the offsets of the ABI.\<close>

theorem offset_drivers_pass:
  "TestOffsetOf f b = Some ([0, 4, 8], [0, 4, 8]) \<and> TestIndexWithArray fp \<and>
   TestSizeofWithVector (Struct [uint64, uint64, uint64]) = [40, 8, 32, 24] \<and>
   TestCast (Struct [uint64, uint64, uint64, uint64]) b"
proof -
  have o: "map (offsetof [uint8, uint32, uint64]) [0, 1, 2] = [0, 4, 8]" "map (offsetof [uint8, uint32, uint8]) [0, 1, 2] = [0, 4, 8]"
    by code_simp+
  have "TestSizeofWithVector (Struct [uint64, uint64, uint64]) = [40, 8, 32, 24]" by code_simp
  moreover have "sizeof (Struct [uint8, uint32]) = 8" by code_simp
  then have "TestIndexWithArray fp" by (simp add: TestIndexWithArray_def Let_def)
  moreover have "TestCast (Struct [uint64, uint64, uint64, uint64]) b"
  proof -
    let ?str = "Struct [uint64, uint64, uint64, uint64]"
    have "offsetof [Struct [?str, ?str], uint32] 0 = 0" "offsetof [Struct [?str, ?str], uint32] 1 = 64"
      "offsetof [?str, ?str] 0 = 0" "offsetof [?str, ?str] 1 = 32" by code_simp+
    then show ?thesis by (simp add: TestCast_def cast_key_def cast_value_def cast_index_def member_at_def)
  qed
  ultimately show ?thesis
    using o by (simp add: TestOffsetOf_def convert_member_pointer_to_struct_def Let_def get_struct_ptr_eq container_of_member)
      (simp add: member_at_def)
qed

text \<open>However often \<^verbatim>\<open>GetDefaultFoo\<close> is called, the object is constructed once and the pointer is the same.\<close>

lemma default_foo_once:
  "fst (GetDefaultFoo p s) = p"
  "((snd \<circ> GetDefaultFoo p) ^^ Suc n) foo_static_init = \<lparr>foo_value = Some (''DefaultFoo'', 9527), foo_constructions = 1\<rparr>"
proof -
  show "fst (GetDefaultFoo p s) = p" by (simp add: GetDefaultFoo_def Singleton_get_def)
  show "((snd \<circ> GetDefaultFoo p) ^^ Suc n) foo_static_init = \<lparr>foo_value = Some (''DefaultFoo'', 9527), foo_constructions = 1\<rparr>"
    by (induction n) (simp_all add: GetDefaultFoo_def foo_static_init_def)
qed

lemma TestSingleton_prints: "fst (TestSingleton p foo_static_init) = Some ''key:DefaultFoo value:9527''"
proof -
  have "Foo_Display (''DefaultFoo'', 9527) = ''key:DefaultFoo value:9527''"
    by (simp add: Foo_Display_def show_nat.simps) code_simp
  then show ?thesis by (simp add: TestSingleton_def GetDefaultFoo_def foo_static_init_def)
qed

end
