(* ===== verification/Scopes.thy ===== *)
theory Scopes
  imports Prelude "HOL-Library.Monad_Syntax"
begin

text \<open>
  Objects that act when their scope ends: \<^verbatim>\<open>Defer\<close>, \<^verbatim>\<open>deferred_action\<close> and the macro \<^verbatim>\<open>DEFER\<close> of
  \<^verbatim>\<open>common/defer.h\<close>, and \<^verbatim>\<open>MutexLock\<close> of \<^verbatim>\<open>common/mutexlock.h\<close> over the mutex of \<^verbatim>\<open>common/port_stdcxx.h\<close>.
  A block is a list of statements; a local object brings a constructor and a destructor, and leaving
  the block, at its end or by a return, runs the destructors of the objects made so far, the last one
  first. \<open>None\<close> is a statement that blocks for ever or is undefined.
\<close>

section \<open>Blocks\<close>

type_synonym 's action = "'s \<Rightarrow> 's option"

datatype 's stmt = Do "'s action" | Local "'s action" "'s action" | Return_if "'s \<Rightarrow> bool"

fun unwind :: "'s action list \<Rightarrow> 's action" where
  "unwind [] s = Some s"
| "unwind (d # ds) s = Option.bind (d s) (unwind ds)"

fun exec_block :: "'s stmt list \<Rightarrow> 's action list \<Rightarrow> 's action" where
  "exec_block [] ds s = unwind ds s"
| "exec_block (Do f # ss) ds s = Option.bind (f s) (exec_block ss ds)"
| "exec_block (Local ctor dtor # ss) ds s = Option.bind (ctor s) (exec_block ss (dtor # ds))"
| "exec_block (Return_if b # ss) ds s = (if b s then unwind ds s else exec_block ss ds s)"

section \<open>Deferred actions\<close>

text \<open>A \<^verbatim>\<open>Defer\<close> is its function, which may be empty; \<^verbatim>\<open>DEFER\<close> makes one of a body that refers to the
  variables of the block, so it acts on the state at the end.\<close>

definition Defer_new :: "'s action option \<Rightarrow> 's action option" where
  "Defer_new func = func"

definition Defer_dtor :: "'s action option \<Rightarrow> 's action" where
  "Defer_dtor func s = (case func of None \<Rightarrow> Some s | Some f \<Rightarrow> f s)"

definition DEFER :: "'s action \<Rightarrow> 's stmt" where
  "DEFER body = Local Some (Defer_dtor (Defer_new (Some body)))"

text \<open>\<^verbatim>\<open>deferred_action\<close> always has a function; \<^verbatim>\<open>defer\<close> makes one.\<close>

definition deferred_action_dtor :: "'s action \<Rightarrow> 's action" where
  "deferred_action_dtor func s = func s"

definition defer_object :: "'s action \<Rightarrow> 's stmt" where
  "defer_object func = Local Some (deferred_action_dtor func)"

section \<open>The scoped lock\<close>

text \<open>A mutex and what it guards. Locking a mutex that is held blocks, by its own holder too; unlocking
  it without holding it is undefined.\<close>

record 'a guarded =
  holder :: "nat option"
  guarded_data :: 'a

definition Mutex_Lock :: "nat \<Rightarrow> 'a guarded action" where
  "Mutex_Lock t m = (if holder m = None then Some (m\<lparr>holder := Some t\<rparr>) else None)"

definition Mutex_Unlock :: "nat \<Rightarrow> 'a guarded action" where
  "Mutex_Unlock t m = (if holder m = Some t then Some (m\<lparr>holder := None\<rparr>) else None)"

definition AssertHeld :: "'a guarded action" where
  "AssertHeld m = Some m"

text \<open>The constructor locks through the pointer it is given, so the test of the destructor for a null pointer
  is always true.\<close>

definition MutexLock :: "nat \<Rightarrow> 'a guarded stmt" where
  "MutexLock t = Local (Mutex_Lock t) (Mutex_Unlock t)"

section \<open>How a block ends\<close>

text \<open>The objects made by the time a block is left, last first, and the state then.\<close>

fun body :: "'s stmt list \<Rightarrow> 's \<Rightarrow> ('s action list \<times> 's) option" where
  "body [] s = Some ([], s)"
| "body (Do f # ss) s = Option.bind (f s) (body ss)"
| "body (Local ctor dtor # ss) s = do { s' \<leftarrow> ctor s; (ds, t) \<leftarrow> body ss s'; Some (ds @ [dtor], t) }"
| "body (Return_if b # ss) s = (if b s then Some ([], s) else body ss s)"

lemma unwind_append: "unwind (xs @ ys) s = Option.bind (unwind xs s) (unwind ys)"
  by (induction xs arbitrary: s) (simp_all split: Option.bind_splits)

lemma unwind_single [simp]: "unwind [d] s = d s"
  by (cases "d s") simp_all

lemma unwind_singleton: "unwind [d] = d"
  by (rule ext) (simp only: unwind_single)

lemma exec_block_body: "exec_block ss ds s = Option.bind (body ss s) (\<lambda>(es, t). unwind (es @ ds) t)"
  by (induction ss ds s rule: exec_block.induct) (auto split: Option.bind_splits)

text \<open>Deferred bodies that record their number.\<close>

definition record_event :: "nat \<Rightarrow> nat list action" where
  "record_event i s = Some (s @ [i])"

datatype event_stmt = Now nat | Later nat | Maybe_return "nat list \<Rightarrow> bool"

fun event_code :: "event_stmt \<Rightarrow> nat list stmt" where
  "event_code (Now i) = Do (record_event i)"
| "event_code (Later i) = DEFER (record_event i)"
| "event_code (Maybe_return b) = Return_if b"

text \<open>What is to happen: the statements up to the return, then the deferred ones backwards.\<close>

fun expected :: "event_stmt list \<Rightarrow> nat list \<Rightarrow> nat list \<times> nat list" where
  "expected [] s = (s, [])"
| "expected (Now i # es) s = expected es (s @ [i])"
| "expected (Later i # es) s = (let (now, later) = expected es s in (now, later @ [i]))"
| "expected (Maybe_return b # es) s = (if b s then (s, []) else expected es s)"

lemma unwind_notes: "unwind (map (\<lambda>i. Defer_dtor (Defer_new (Some (record_event i)))) is) s = Some (s @ is)"
  by (induction "is" arbitrary: s) (simp_all add: Defer_dtor_def Defer_new_def record_event_def)

lemma body_event:
  "body (event_code (Now i) # ss) s = body ss (s @ [i])"
  "body (event_code (Later i) # ss) s =
     map_option (\<lambda>(ds, t). (ds @ [Defer_dtor (Defer_new (Some (record_event i)))], t)) (body ss s)"
  "body (event_code (Maybe_return b) # ss) s = (if b s then Some ([], s) else body ss s)"
  by (simp_all add: record_event_def DEFER_def) (cases "body ss s"; auto)

lemma body_events:
  "body (map event_code es) s =
     Some (map (\<lambda>i. Defer_dtor (Defer_new (Some (record_event i)))) (snd (expected es s)), fst (expected es s))"
proof (induction es arbitrary: s)
  case (Cons e es)
  then show ?case by (cases e) (simp_all add: body_event case_prod_beta del: event_code.simps)
qed simp

lemma exec_events: "exec_block (map event_code es) [] s = Some (fst (expected es s) @ snd (expected es s))"
  by (simp add: exec_block_body body_events unwind_notes)

text \<open>A body that keeps the mutex where it is.\<close>

fun keeps_holder :: "'a guarded stmt \<Rightarrow> bool" where
  "keeps_holder (Do f) \<longleftrightarrow> (\<forall>s s'. f s = Some s' \<longrightarrow> holder s' = holder s)"
| "keeps_holder (Local c d) \<longleftrightarrow>
     (\<forall>s s'. c s = Some s' \<longrightarrow> holder s' = holder s) \<and> (\<forall>s s'. d s = Some s' \<longrightarrow> holder s' = holder s)"
| "keeps_holder (Return_if b) \<longleftrightarrow> True"

lemma body_keeps_holder:
  assumes "list_all keeps_holder ss" "body ss s = Some (ds, t)"
  shows "holder t = holder s \<and> list_all (\<lambda>d. \<forall>s s'. d s = Some s' \<longrightarrow> holder s' = holder s) ds"
  using assms
proof (induction ss arbitrary: s ds t)
  case (Cons x ss)
  show ?case
  proof (cases x)
    case (Do f)
    then obtain s1 where "f s = Some s1" "body ss s1 = Some (ds, t)" using Cons.prems(2) by (auto split: Option.bind_splits)
    then show ?thesis using Cons.IH [of s1 ds t] Cons.prems(1) Do by auto
  next
    case (Local c d)
    then obtain s1 es where "c s = Some s1" "body ss s1 = Some (es, t)" "ds = es @ [d]"
      using Cons.prems(2) by (auto split: Option.bind_splits)
    then show ?thesis using Cons.IH [of s1 es t] Cons.prems(1) Local by auto
  next
    case (Return_if b)
    then show ?thesis using Cons.IH [of s ds t] Cons.prems by (auto split: if_splits)
  qed
qed simp

lemma unwind_keeps_holder:
  "list_all (\<lambda>d. \<forall>s s'. d s = Some s' \<longrightarrow> holder s' = holder s) ds \<Longrightarrow> unwind ds s = Some t \<Longrightarrow> holder t = holder s"
  by (induction ds arbitrary: s) (auto split: Option.bind_splits)

text \<open>The block of the test: \<^verbatim>\<open>a\<close> is 10 until the scope ends, and 20 afterwards.\<close>

definition TestDefer :: "int option" where
  "TestDefer =
     exec_block [DEFER (\<lambda>a. Some 20), DEFER (\<lambda>a. Some 30), Do (\<lambda>a. if a = 10 then Some a else None)] [] 10"

lemma TestDefer_passes: "TestDefer = Some 20"
  by (simp add: TestDefer_def DEFER_def Defer_dtor_def Defer_new_def)

section \<open>Properties\<close>

text \<open>C15: What a scope owes is done when it is left, whichever way. Deferred actions run exactly once each, in
  the reverse order of their declarations, those declared after the return taken not at all; and a
  block that takes a free mutex with \<^verbatim>\<open>MutexLock\<close> goes on exactly when its statements do, and leaves the
  mutex free, while taking it when it is held, by the same thread too, blocks for ever.\<close>

theorem scope_exit_runs_and_unlocks:
  "exec_block (map event_code es) [] s = Some (fst (expected es s) @ snd (expected es s)) \<and>
   (list_all keeps_holder ss \<longrightarrow> holder m = None \<longrightarrow>
      (exec_block (MutexLock t # ss) [] m = None \<longleftrightarrow> exec_block ss [] (m\<lparr>holder := Some t\<rparr>) = None) \<and>
      (\<forall>m'. exec_block (MutexLock t # ss) [] m = Some m' \<longrightarrow> holder m' = None)) \<and>
   (holder m \<noteq> None \<longrightarrow> exec_block (MutexLock t # ss) [] m = None)"
proof -
  have "(exec_block (MutexLock t # ss) [] m = None \<longleftrightarrow> exec_block ss [] (m\<lparr>holder := Some t\<rparr>) = None) \<and>
      (\<forall>m'. exec_block (MutexLock t # ss) [] m = Some m' \<longrightarrow> holder m' = None)"
    if keeps: "list_all keeps_holder ss" and free: "holder m = None"
  proof (cases "body ss (m\<lparr>holder := Some t\<rparr>)")
    case None
    then show ?thesis using free by (simp add: MutexLock_def Mutex_Lock_def exec_block_body)
  next
    case (Some du)
    obtain ds u where du: "du = (ds, u)" by (cases du)
    have b: "holder u = Some t" "list_all (\<lambda>d. \<forall>s s'. d s = Some s' \<longrightarrow> holder s' = holder s) ds"
      using body_keeps_holder [OF keeps Some [unfolded du]] by auto
    have ex: "exec_block (MutexLock t # ss) [] m = Option.bind (unwind ds u) (Mutex_Unlock t)"
        "exec_block ss [] (m\<lparr>holder := Some t\<rparr>) = unwind ds u"
      using free by (simp_all add: MutexLock_def Mutex_Lock_def exec_block_body Some du unwind_append unwind_singleton del: unwind.simps)
    show ?thesis
    proof (cases "unwind ds u")
      case None
      then show ?thesis by (simp add: ex)
    next
      case (Some v)
      then have "holder v = Some t" using unwind_keeps_holder [OF b(2) Some] b(1) by simp
      then show ?thesis by (simp add: ex Some Mutex_Unlock_def)
    qed
  qed
  moreover have "exec_block (MutexLock t # ss) [] m = None" if held: "holder m \<noteq> None"
  proof -
    have "Mutex_Lock t m = None" using held by (simp only: Mutex_Lock_def if_False)
    then show ?thesis by (simp add: MutexLock_def)
  qed
  ultimately show ?thesis using exec_events by blast
qed

text \<open>A guarded counter that is incremented under the lock, unless it has reached its limit.\<close>

theorem scope_exit_runs_and_unlocks_witness:
  "\<exists>m'. exec_block [MutexLock 7, Return_if (\<lambda>m. 3 \<le> guarded_data m), Do (\<lambda>m. Some (m\<lparr>guarded_data := guarded_data m + 1\<rparr>))] []
      \<lparr>holder = None, guarded_data = 2 :: nat\<rparr> = Some m' \<and> holder m' = None"
proof -
  let ?ss = "[Return_if (\<lambda>m. 3 \<le> guarded_data m), Do (\<lambda>m. Some (m\<lparr>guarded_data := guarded_data m + 1\<rparr>))]"
  let ?m = "\<lparr>holder = None, guarded_data = 2 :: nat\<rparr>"
  have "list_all keeps_holder ?ss" by simp
  moreover have "holder ?m = None" by simp
  ultimately have c: "(exec_block (MutexLock 7 # ?ss) [] ?m = None \<longleftrightarrow> exec_block ?ss [] (?m\<lparr>holder := Some 7\<rparr>) = None) \<and>
      (\<forall>m'. exec_block (MutexLock 7 # ?ss) [] ?m = Some m' \<longrightarrow> holder m' = None)"
    using scope_exit_runs_and_unlocks [where ss = ?ss and m = ?m and t = 7 and es = "[]" and s = "[]"] by simp
  have "exec_block ?ss [] (?m\<lparr>holder := Some 7\<rparr>) \<noteq> None" by simp
  then have "exec_block (MutexLock 7 # ?ss) [] ?m \<noteq> None" unfolding c [THEN conjunct1] .
  then obtain m' where m': "exec_block (MutexLock 7 # ?ss) [] ?m = Some m'" unfolding not_None_eq ..
  show ?thesis by (rule exI [of _ m'], rule conjI [OF m'], rule c [THEN conjunct2, rule_format, OF m'])
qed

end
