(* ===== verification/Tmp_Samples.thy ===== *)
theory Tmp_Samples
  imports Slices Scopes
begin

text \<open>
  The samples of \<^verbatim>\<open>example-tmp/main.cc\<close> that are not about layout (\<open>Layout\<close>) or the map displayed by
  buckets (\<open>Map_List\<close>), with the function templates and the two classes of \<^verbatim>\<open>tmp.h\<close>. What a sample
  prints is a list of lines. Ordered sets and maps keep their elements in the order of a comparison;
  the arrangement of an unordered map, and what \<^verbatim>\<open>std::remove_if\<close> leaves behind its new end, are arguments.
\<close>

section \<open>Ordered sets\<close>

text \<open>\<^verbatim>\<open>std::set::emplace\<close> with a comparison: an element equivalent to one of the set is not inserted.\<close>

fun set_emplace :: "('a \<Rightarrow> 'a \<Rightarrow> bool) \<Rightarrow> 'a \<Rightarrow> 'a list \<Rightarrow> 'a list" where
  "set_emplace lt x [] = [x]"
| "set_emplace lt x (y # ys) =
     (if lt x y then x # y # ys else if lt y x then y # set_emplace lt x ys else y # ys)"

record set_foo =
  set_foo_key :: u64
  set_foo_value :: string

definition set_foo_new :: "u64 \<Rightarrow> string \<Rightarrow> set_foo" where
  "set_foo_new key val = \<lparr>set_foo_key = key, set_foo_value = val\<rparr>"

definition FooCompare :: "set_foo \<Rightarrow> set_foo \<Rightarrow> bool" where
  "FooCompare a b \<longleftrightarrow> set_foo_key a < set_foo_key b"

definition TestStdSet :: "set_foo list option" where
  "TestStdSet =
     (let fs0 = [];
          fs1 = set_emplace FooCompare (set_foo_new 0 ''hello'') fs0;
          fs2 = set_emplace FooCompare (set_foo_new 1 ''wolrd'') fs1;
          fs3 = set_emplace FooCompare (set_foo_new 1 ''foo'') fs2
      in if fs0 = [] \<and> length fs2 = 2 \<and> length fs3 = 2 then Some fs3 else None)"

section \<open>Callbacks\<close>

type_synonym output_lines = "string list"
type_synonym RealCallback = "int \<Rightarrow> output_lines"

definition Callback :: RealCallback where
  "Callback r = [''Callback r:'' @ show_int r]"

definition CallbackWrapper :: "RealCallback \<Rightarrow> RealCallback" where
  "CallbackWrapper cb r = [''CallbackWrapper r:'' @ show_int r] @ cb r"

definition CallWithCallback :: "RealCallback \<Rightarrow> output_lines" where
  "CallWithCallback callback =
     (let wrapper_cb = (\<lambda>r. [''wrapper callback r:'' @ show_int r] @ callback r) in wrapper_cb 1)"

text \<open>\<^verbatim>\<open>std::bind\<close> of a first argument, with a placeholder for the second.\<close>

definition std_bind :: "('a \<Rightarrow> 'b \<Rightarrow> 'c) \<Rightarrow> 'a \<Rightarrow> 'b \<Rightarrow> 'c" where
  "std_bind f x = (\<lambda>y. f x y)"

definition CallWithCallbackBind :: "RealCallback \<Rightarrow> output_lines" where
  "CallWithCallbackBind callback = (let wrapper_cb = std_bind CallbackWrapper callback in wrapper_cb 1)"

definition TestWrapperCallback :: output_lines where
  "TestWrapperCallback = CallWithCallback Callback @ CallWithCallbackBind Callback"

datatype BindClass = BindClass

definition PrivateFunc :: "BindClass \<Rightarrow> unit \<Rightarrow> output_lines" where
  "PrivateFunc this u = [''BinadClass PrivateFunc called'']"

definition GetPrivateBindFun :: "BindClass \<Rightarrow> unit \<Rightarrow> output_lines" where
  "GetPrivateBindFun this = std_bind PrivateFunc this"

definition TestBindPrivateFunc :: output_lines where
  "TestBindPrivateFunc = (let bc = BindClass; func = GetPrivateBindFun bc in func ())"

section \<open>A map of items\<close>

datatype Item = Item (item_val: u32)

definition Item_call :: "Item \<Rightarrow> Item \<Rightarrow> bool" where
  "Item_call this rhs \<longleftrightarrow> item_val this < item_val rhs"

definition show_u32 :: "u32 \<Rightarrow> string" where
  "show_u32 v = show_nat (unat v)"

definition show_item :: "Item \<Rightarrow> string" where
  "show_item item = ''Item val:'' @ show_u32 (item_val item)"

text \<open>A \<^verbatim>\<open>std::map\<close> is a set of pairs ordered by their keys.\<close>

definition key_less :: "u32 \<times> 'a \<Rightarrow> u32 \<times> 'a \<Rightarrow> bool" where
  "key_less p q \<longleftrightarrow> fst p < fst q"

definition TestCompare :: output_lines where
  "TestCompare =
     (let items = foldl (\<lambda>m x. set_emplace key_less x m) [] [(0, Item 1), (1, Item 20), (2, Item 12), (3, Item 0)]
      in map (\<lambda>item. ''Key:'' @ show_u32 (fst item) @ '' item:'' @ show_item (snd item)) items)"

section \<open>Virtual functions, and erasing from a vector\<close>

datatype hi_class = Hi | Hello

fun SayHi :: "hi_class \<Rightarrow> string" where
  "SayHi Hi = ''Say Hi from Hi''"
| "SayHi Hello = ''Hello say hi''"

text \<open>The destructor of the class, then that of its base.\<close>

definition Hi_dtor :: output_lines where
  "Hi_dtor = [''Hi deconstruction'']"

definition Hello_dtor :: output_lines where
  "Hello_dtor = [''Hello deconstruction''] @ Hi_dtor"

definition print_lines :: "output_lines \<Rightarrow> output_lines action" where
  "print_lines ls out = Some (out @ ls)"

text \<open>\<^verbatim>\<open>std::remove_if\<close>: the elements to keep come first, in their order; the result is where they end, and
  \<open>rest\<close> is what the vector holds from there on. \<open>erase\<close> drops the elements from a position to the end.\<close>

definition std_remove_if :: "'a list \<Rightarrow> ('a \<Rightarrow> bool) \<Rightarrow> 'a list \<Rightarrow> nat \<times> 'a list" where
  "std_remove_if rest p xs = (let kept = filter (\<lambda>x. \<not> p x) xs in (length kept, kept @ rest))"

definition vector_erase :: "nat \<Rightarrow> 'a list \<Rightarrow> 'a list" where
  "vector_erase n xs = take n xs"

definition TestXX :: "u32 list \<Rightarrow> output_lines option" where
  "TestXX rest =
     exec_block
       [Local Some (print_lines (Hello_dtor)),
        Do (print_lines [SayHi Hello]),
        Do (let vsc = [0, 1, 3, 2, 9, 10, 20, 4, 7];
                vsc = (case std_remove_if rest (\<lambda>v. v < 7) vsc of (new_end, vs) \<Rightarrow> vector_erase new_end vs)
            in print_lines (map (\<lambda>v. ''after remove: '' @ show_u32 v) vsc)),
        Do (let m = Map.empty(0 :: u32 \<mapsto> 1 :: u32)
            in case m 0 of
                 None \<Rightarrow> (\<lambda>out. None)
               | Some v \<Rightarrow> print_lines [''key:'' @ show_u32 0 @ '' value:'' @ show_u32 v])] [] []"

text \<open>Both loops visit the elements in the arrangement of the map.\<close>

definition TestMapIterator :: "((u32 \<times> u32) list \<Rightarrow> (u32 \<times> u32) list) \<Rightarrow> output_lines" where
  "TestMapIterator arrange =
     (let elements = arrange [(0, 1), (1, 2)];
          line = (\<lambda>item. ''key:'' @ show_u32 (fst item) @ '' value:'' @ show_u32 (snd item))
      in map line elements @ map (\<lambda>i. line (elements ! i)) [0..<length elements])"

section \<open>Closures\<close>

text \<open>\<^verbatim>\<open>[&]\<close>: the closure writes the variables of the function, \<open>last_pos\<close> and \<open>curr_pos\<close>.\<close>

definition capture_func :: "u32 \<times> u32 \<Rightarrow> u32 \<times> u32" where
  "capture_func s = (case s of (last_pos, curr_pos) \<Rightarrow> (curr_pos, ((\<lambda>c. c + 1) ^^ 4) curr_pos))"

fun capture_rounds :: "nat \<Rightarrow> u32 \<times> u32 \<Rightarrow> output_lines" where
  "capture_rounds 0 s = []"
| "capture_rounds (Suc n) s =
     (''before curr_pos:'' @ show_u32 (snd s) @ '' last_pos:'' @ show_u32 (fst s)) # capture_rounds n (capture_func s)"

definition TestLambdaCapture :: output_lines where
  "TestLambdaCapture =
     (let pos = foldl (\<lambda>pos i. pos @ [of_nat i]) [] [0..<100]
      in capture_rounds 5 (0, 0) @ map show_u32 pos)"

text \<open>\<^verbatim>\<open>[=]\<close>: the closure has a copy of the pointer and of \<open>u\<close>. The structure on the heap is \<open>None\<close> before it
  is made and after it is deleted; a use of it then, and a second delete, are undefined.\<close>

record capture_state =
  fp_value :: "u32 option"
  var_u :: u32
  md_u :: u32
  printed :: output_lines

definition say :: "string \<Rightarrow> capture_state action" where
  "say l s = Some (s\<lparr>printed := printed s @ [l]\<rparr>)"

definition new_foo :: "u32 \<Rightarrow> capture_state action" where
  "new_foo v s = Some (s\<lparr>fp_value := Some v\<rparr>)"

definition delete_foo :: "capture_state action" where
  "delete_foo s = (case fp_value s of None \<Rightarrow> None | Some v \<Rightarrow> Some (s\<lparr>fp_value := None\<rparr>))"

definition say_foo :: "capture_state action" where
  "say_foo s =
     (case fp_value s of
        None \<Rightarrow> None
      | Some v \<Rightarrow> say (''foo value:'' @ show_u32 v) (s\<lparr>fp_value := Some (v + 1)\<rparr>))"

definition md :: "capture_state action" where
  "md s = do { s' \<leftarrow> say_foo s; say (''u:'' @ show_u32 (md_u s)) s' }"

definition TestLambdaCapture1 :: "capture_state \<Rightarrow> capture_state option" where
  "TestLambdaCapture1 =
     exec_block
       [Do (new_foo 124), DEFER delete_foo,
        Do (\<lambda>s. Some (s\<lparr>var_u := 123\<rparr>)), Do (\<lambda>s. Some (s\<lparr>md_u := var_u s\<rparr>)),
        Do (say ''before cb''), Do md, Do (say ''after cb''), Do say_foo,
        Do (\<lambda>s. say (''u:'' @ show_u32 (var_u s)) (s\<lparr>var_u := var_u s + 1\<rparr>))] []"

section \<open>Function templates over ranges\<close>

text \<open>A function object acts on a state \<open>'s\<close>. The second template takes the range as two iterators, here
  positions in the container: it compares for equality, so a range given backwards runs off the end.\<close>

fun for_each :: "'a list \<Rightarrow> ('a \<Rightarrow> 's \<Rightarrow> 's) \<Rightarrow> 's \<Rightarrow> 's" where
  "for_each [] f s = s"
| "for_each (x # xs) f s = for_each xs f (f x s)"

function for_each_v1 :: "'a list \<Rightarrow> nat \<Rightarrow> nat \<Rightarrow> ('a \<Rightarrow> 's \<Rightarrow> 's) \<Rightarrow> 's \<Rightarrow> 's option" where
  "for_each_v1 t first stop f s =
     (if first = stop then Some s
      else if first < length t then for_each_v1 t (first + 1) stop f (f (t ! first) s)
      else None)"
  by auto
termination
  by (relation "measure (\<lambda>(t, first, _). length t - first)") auto

declare for_each_v1.simps [simp del]

definition TestIterateTemplate :: "output_lines option" where
  "TestIterateTemplate =
     (let foo = [0, 1, 2, 3]; f = (\<lambda>v out. out @ [show_u32 v]); bar = foo
      in case for_each_v1 bar 0 (length bar) f [] of
           None \<Rightarrow> None
         | Some out \<Rightarrow>
             Some ([''iterate begin:''] @ for_each foo f [] @ [''iterate end.''] @
                   [''iterate begin:''] @ out @ [''iterate end.'']))"

section \<open>Enumerations and defaults\<close>

text \<open>The enumeration has an underlying byte, so the default of the switch can be reached.\<close>

definition BAR_0 :: byte where "BAR_0 = 0"
definition BAR_1 :: byte where "BAR_1 = 1"
definition BAR_2 :: byte where "BAR_2 = 2"

definition IsBar1 :: "byte \<Rightarrow> bool" where
  "IsBar1 bar \<longleftrightarrow> bar = BAR_1"

definition BarToString :: "byte \<Rightarrow> string" where
  "BarToString b =
     (if b = BAR_0 then ''BAR0'' else if b = BAR_1 then ''BAR_1'' else if b = BAR_2 then ''BAR_2'' else ''UNKNOWN'')"

record FooWithDefault =
  default_a :: u32
  default_b :: u32
  default_c :: u32

definition FooWithDefault_new :: "u32 option \<Rightarrow> FooWithDefault" where
  "FooWithDefault_new c = \<lparr>default_a = 0, default_b = 323, default_c = (case c of None \<Rightarrow> 0 | Some v \<Rightarrow> v)\<rparr>"

definition FooWithDefault_ToString :: "FooWithDefault \<Rightarrow> string" where
  "FooWithDefault_ToString s =
     '' a:'' @ show_u32 (default_a s) @ '' b:'' @ show_u32 (default_b s) @ '' c:'' @ show_u32 (default_c s)"

definition TestStructDefault :: output_lines where
  "TestStructDefault = (let foo = FooWithDefault_new (Some 123) in [''Foo '' @ FooWithDefault_ToString foo])"

section \<open>The sets keep the first\<close>

definition equivalent_by :: "('a \<Rightarrow> 'a \<Rightarrow> bool) \<Rightarrow> 'a \<Rightarrow> 'a \<Rightarrow> bool" where
  "equivalent_by lt x y \<longleftrightarrow> \<not> lt x y \<and> \<not> lt y x"

text \<open>What a set asks of its comparison, and what it then promises.\<close>

locale strict_weak_order =
  fixes lt :: "'a \<Rightarrow> 'a \<Rightarrow> bool"
  assumes irreflexive: "\<not> lt x x"
    and transitive: "lt x y \<Longrightarrow> lt y z \<Longrightarrow> lt x z"
    and incomparable: "lt x z \<Longrightarrow> lt x y \<or> lt y z"
begin

lemma equivalent_less: "equivalent_by lt x y \<Longrightarrow> lt y z \<Longrightarrow> lt x z" "equivalent_by lt x y \<Longrightarrow> lt z y \<Longrightarrow> lt z x"
  using incomparable [of y z x] incomparable [of z y x] by (simp_all add: equivalent_by_def)

lemma emplace_set:
  "set (set_emplace lt x ys) = (if \<exists>y\<in>set ys. equivalent_by lt x y then set ys else insert x (set ys))"
  if "sorted_wrt lt ys"
  using that
proof (induction ys)
  case (Cons y ys)
  have tail: "lt x z" if "lt x y" "z \<in> set (y # ys)" for z
    using that transitive [of x y z] Cons.prems by auto
  show ?case
  proof (cases "lt x y")
    case True
    then have "\<not> (\<exists>z\<in>set (y # ys). equivalent_by lt x z)" using tail unfolding equivalent_by_def by blast
    then show ?thesis using True by simp
  next
    case False
    then show ?thesis using Cons by (simp add: equivalent_by_def) blast
  qed
qed simp

lemma emplace_sorted: "sorted_wrt lt ys \<Longrightarrow> sorted_wrt lt (set_emplace lt x ys)"
proof (induction ys)
  case (Cons y ys)
  have "sorted_wrt lt (set_emplace lt x ys)" using Cons by simp
  moreover have "lt y z" if "lt y x" "z \<in> set (set_emplace lt x ys)" for z
    using that emplace_set [of ys x] Cons.prems by (auto split: if_splits)
  moreover have "lt x z" if "lt x y" "z \<in> set ys" for z
    using that transitive [of x y z] Cons.prems by simp
  ultimately show ?case using Cons.prems by simp
qed simp

lemma find_sorted: "sorted_wrt lt ys \<Longrightarrow> y \<in> set ys \<Longrightarrow> equivalent_by lt x y \<Longrightarrow> find (equivalent_by lt x) ys = Some y"
proof (induction ys)
  case (Cons z zs)
  show ?case
  proof (cases "y = z")
    case False
    then have "lt z y" using Cons.prems by simp
    then have "\<not> equivalent_by lt x z" using equivalent_less [OF Cons.prems(3)] by (auto simp: equivalent_by_def)
    then show ?thesis using Cons False by simp
  qed (use Cons in simp)
qed simp

lemma emplace_all:
  "sorted_wrt lt (foldl (\<lambda>s x. set_emplace lt x s) [] xs) \<and>
   find (equivalent_by lt k) (foldl (\<lambda>s x. set_emplace lt x s) [] xs) = find (equivalent_by lt k) xs"
proof (induction xs rule: rev_induct)
  case (snoc x xs)
  let ?s = "foldl (\<lambda>s x. set_emplace lt x s) [] xs"
  have s: "sorted_wrt lt ?s" and f: "find (equivalent_by lt k) ?s = find (equivalent_by lt k) xs" using snoc by auto
  have all: "foldl (\<lambda>s x. set_emplace lt x s) [] (xs @ [x]) = set_emplace lt x ?s" by simp
  have app: "find (equivalent_by lt k) (xs @ [x]) =
      (case find (equivalent_by lt k) xs of Some y \<Rightarrow> Some y | None \<Rightarrow> if equivalent_by lt k x then Some x else None)"
    by (induction xs) auto
  have "find (equivalent_by lt k) (set_emplace lt x ?s) = find (equivalent_by lt k) (xs @ [x])"
  proof (cases "find (equivalent_by lt k) ?s")
    case None
    then have none: "\<not> (\<exists>y\<in>set ?s. equivalent_by lt k y)" by (simp add: find_None_iff)
    show ?thesis
    proof (cases "equivalent_by lt k x")
      case True
      then have "\<not> (\<exists>y\<in>set ?s. equivalent_by lt x y)"
        using none equivalent_less by (metis equivalent_by_def)
      then have "x \<in> set (set_emplace lt x ?s)" using emplace_set [OF s, of x] by auto
      from find_sorted [OF emplace_sorted [OF s] this True] show ?thesis using None f app True by simp
    next
      case False
      then have "\<not> (\<exists>y\<in>set (set_emplace lt x ?s). equivalent_by lt k y)"
        using none emplace_set [OF s, of x] by auto
      then have "find (equivalent_by lt k) (set_emplace lt x ?s) = None" by (simp add: find_None_iff)
      then show ?thesis using None f app False by simp
    qed
  next
    case (Some y)
    then have "y \<in> set ?s" "equivalent_by lt k y" by (auto simp: find_Some_iff)
    then have "y \<in> set (set_emplace lt x ?s)" using emplace_set [OF s, of x] by auto
    from find_sorted [OF emplace_sorted [OF s] this \<open>equivalent_by lt k y\<close>] show ?thesis using Some f app by simp
  qed
  then show ?case using all emplace_sorted [OF s] by simp
qed simp

end

interpretation foo_set: strict_weak_order FooCompare
  by unfold_locales (auto simp: FooCompare_def)

interpretation slice_set: strict_weak_order BySmallestKey
  by unfold_locales (auto simp: BySmallestKey_less)

interpretation key_set: strict_weak_order key_less
  by unfold_locales (auto simp: key_less_def)

text \<open>The set of slices of \<open>Slices\<close> is one of these sets.\<close>

lemma set_insert_emplace: "set_insert s ss = set_emplace BySmallestKey s ss"
  by (induction ss) simp_all

lemma foo_equivalent: "equivalent_by FooCompare x y \<longleftrightarrow> set_foo_key x = set_foo_key y"
  by (auto simp: equivalent_by_def FooCompare_def)

section \<open>Ranges\<close>

lemma for_each_v1_range:
  "i = j \<or> i < j \<and> j \<le> length t \<Longrightarrow> for_each_v1 t i j f s = Some (for_each (take (j - i) (drop i t)) f s)"
proof (induction "j - i" arbitrary: i s)
  case 0
  then have "i = j" by linarith
  then show ?case by (simp add: for_each_v1.simps [of t j j])
next
  case (Suc n)
  then have ij: "i < j" "j \<le> length t" by linarith+
  then have "take (j - i) (drop i t) = t ! i # take (j - (i + 1)) (drop (i + 1) t)"
    by (simp add: Cons_nth_drop_Suc [symmetric] take_Cons')
  moreover have "for_each_v1 t (i + 1) j f (f (t ! i) s) = Some (for_each (take (j - (i + 1)) (drop (i + 1) t)) f (f (t ! i) s))"
    using Suc.hyps(2) ij by (intro Suc.hyps(1)) linarith+
  ultimately show ?case using ij by (simp add: for_each_v1.simps [of t i j])
qed

lemma for_each_v1_off_end: "j < i \<or> i < j \<and> length t < j \<Longrightarrow> for_each_v1 t i j f s = None"
proof (induction t i j f s rule: for_each_v1.induct)
  case (1 t i j f s)
  then show ?case by (subst for_each_v1.simps) auto
qed

section \<open>What the samples print\<close>

lemma samples_print:
  "TestStdSet = Some [set_foo_new 0 ''hello'', set_foo_new 1 ''wolrd'']"
  "TestWrapperCallback = [''wrapper callback r:1'', ''Callback r:1'', ''CallbackWrapper r:1'', ''Callback r:1'']"
  "TestBindPrivateFunc = [''BinadClass PrivateFunc called'']"
  "TestCompare = [''Key:0 item:Item val:1'', ''Key:1 item:Item val:20'', ''Key:2 item:Item val:12'', ''Key:3 item:Item val:0'']"
  "TestIterateTemplate = Some [''iterate begin:'', ''0'', ''1'', ''2'', ''3'', ''iterate end.'',
     ''iterate begin:'', ''0'', ''1'', ''2'', ''3'', ''iterate end.'']"
  "TestStructDefault = [''Foo  a:0 b:323 c:123'']"
  by code_simp+

text \<open>What \<^verbatim>\<open>remove_if\<close> leaves behind does not show; the base class is destroyed last.\<close>

lemma erase_removed: "(case std_remove_if rest p xs of (n, ys) \<Rightarrow> vector_erase n ys) = filter (\<lambda>x. \<not> p x) xs"
  by (simp add: std_remove_if_def vector_erase_def Let_def)

lemma TestXX_prints:
  "TestXX rest = Some ([''Hello say hi'', ''after remove: 9'', ''after remove: 10'', ''after remove: 20'', ''after remove: 7'',
     ''key:0 value:1'', ''Hello deconstruction'', ''Hi deconstruction''])"
proof -
  have "map (\<lambda>v :: u32. ''after remove: '' @ show_u32 v) [9, 10, 20, 7] =
      [''after remove: 9'', ''after remove: 10'', ''after remove: 20'', ''after remove: 7'']"
    "''key:'' @ show_u32 0 @ '' value:'' @ show_u32 1 = ''key:0 value:1''" by code_simp+
  then show ?thesis unfolding TestXX_def erase_removed by (simp add: print_lines_def Hello_dtor_def Hi_dtor_def)
qed

lemma map_nth_map: "map (\<lambda>i. g (xs ! i)) [0..<length xs] = map g xs"
  by (rule nth_equalityI) simp_all

lemma TestMapIterator_twice:
  "\<exists>ls. TestMapIterator arrange = ls @ ls"
  unfolding TestMapIterator_def Let_def map_nth_map by (rule exI, rule refl)

text \<open>The structure is deleted once; both closures and statements before that see it, and the second of the
  two uses sees the increment of the first.\<close>

lemma TestLambdaCapture1_prints:
  "map_option (\<lambda>s. (fp_value s, var_u s, printed s)) (TestLambdaCapture1 \<lparr>fp_value = None, var_u = 0, md_u = 0, printed = []\<rparr>) =
     Some (None, 124, [''before cb'', ''foo value:124'', ''u:123'', ''after cb'', ''foo value:125'', ''u:123''])"
  by code_simp

section \<open>Properties\<close>

text \<open>A set of \<^verbatim>\<open>Foo\<close> that receives any elements is strictly sorted by the keys, so it has one element for
  a key, and that is the first that was inserted with it; the two function templates visit the same
  elements in the same order, for a container and for any range of it, and a range whose end is before its
  beginning, or past the end of the container, is run off.\<close>

theorem samples_keep_order:
  "sorted_wrt FooCompare (foldl (\<lambda>s x. set_emplace FooCompare x s) [] xs) \<and>
   find (\<lambda>x. set_foo_key x = k) (foldl (\<lambda>s x. set_emplace FooCompare x s) [] xs) = find (\<lambda>x. set_foo_key x = k) xs \<and>
   for_each_v1 t i j f s =
     (if i = j \<or> i < j \<and> j \<le> length t then Some (for_each (take (j - i) (drop i t)) f s) else None)"
proof -
  have eq: "equivalent_by FooCompare (set_foo_new k []) = (\<lambda>x. set_foo_key x = k)"
    by (auto simp: foo_equivalent set_foo_new_def fun_eq_iff)
  show ?thesis
    using foo_set.emplace_all [of xs "set_foo_new k []"] for_each_v1_range [of i j t f s] for_each_v1_off_end [of j i t f s]
    unfolding eq by (cases i j rule: linorder_cases) auto
qed

end
