(* ===== verification/Lfq_Publication.thy ===== *)
theory Lfq_Publication
  imports Lock_Free_Queue Memory_Order
begin

text \<open>
  The accesses of \<^verbatim>\<open>example-lfq/main.cc\<close> to the nodes, and what orders them. \<open>Lock_Free_Queue\<close> says what the
  threads compute; here every access is counted, and a thread carries a clock, the accesses it has been
  told of. A release operation leaves the clock of its thread with the value it stores, and a load that
  acquires joins what it finds there. A plain access must know of every access it conflicts with: reading a
  node or one of its atomics must know of its construction, and a \<^verbatim>\<open>delete\<close> of every use by any thread.
  Otherwise the program has a data race and no defined behaviour.
\<close>

section \<open>Clocks\<close>

text \<open>\<open>Made a\<close> counts the constructions and deletions of the block \<open>a\<close>, \<open>Used i a\<close> the uses of it by thread \<open>i\<close>.\<close>

datatype event = Made addr | Used nat addr

fun block_of :: "event \<Rightarrow> addr" where
  "block_of (Made a) = a"
| "block_of (Used i a) = a"

type_synonym clock = "event \<Rightarrow> nat"

text \<open>\<open>next_msg\<close>, \<open>head_msg\<close> and \<open>tail_msg\<close> are the clocks left with the last value of \<^verbatim>\<open>next_\<close> of each node, of
  \<^verbatim>\<open>head_\<close> and of \<^verbatim>\<open>tail_\<close>.\<close>

record 'v clocked =
  queue :: "'v lfq"
  threads :: nat
  happened :: clock
  known :: "nat \<Rightarrow> clock"
  next_msg :: "addr \<Rightarrow> clock"
  head_msg :: clock
  tail_msg :: clock
  raced :: bool

definition knows :: "nat \<Rightarrow> event \<Rightarrow> 'v clocked \<Rightarrow> bool" where
  "knows i e s \<longleftrightarrow> known s i e = happened s e"

definition occur :: "nat \<Rightarrow> event \<Rightarrow> 'v clocked \<Rightarrow> 'v clocked" where
  "occur i e s =
     s\<lparr>happened := (happened s)(e := happened s e + 1), known := (known s)(i := (known s i)(e := happened s e + 1))\<rparr>"

definition learn :: "nat \<Rightarrow> clock \<Rightarrow> 'v clocked \<Rightarrow> 'v clocked" where
  "learn i m s = s\<lparr>known := (known s)(i := (\<lambda>e. max (known s i e) (m e)))\<rparr>"

definition check_order :: "bool \<Rightarrow> 'v clocked \<Rightarrow> 'v clocked" where
  "check_order ok s = (if ok then s else s\<lparr>raced := True\<rparr>)"

text \<open>The allocator orders the deletion of a block before its next allocation.\<close>

definition allocate :: "nat \<Rightarrow> addr \<Rightarrow> 'v clocked \<Rightarrow> 'v clocked" where
  "allocate i a s =
     occur i (Made a)
       (s\<lparr>known := (known s)(i := (\<lambda>e. if block_of e = a then happened s e else known s i e))\<rparr>)"

definition access :: "nat \<Rightarrow> addr \<Rightarrow> 'v clocked \<Rightarrow> 'v clocked" where
  "access i a s = occur i (Used i a) (check_order (knows i (Made a) s) s)"

definition deallocate :: "nat \<Rightarrow> addr \<Rightarrow> 'v clocked \<Rightarrow> 'v clocked" where
  "deallocate i a s =
     occur i (Made a)
       (check_order (knows i (Made a) s \<and> list_all (\<lambda>j. knows i (Used j a) s) [0..<threads s]) s)"

section \<open>The orders of the code\<close>

text \<open>The order of the compare-and-swap that links a node in when it succeeds. The loads and the other
  compare-and-swaps name no order, so they are sequentially consistent, which acquires and releases.\<close>

definition cas_success :: memory_order where
  "cas_success = memory_order_release"

definition release_clock :: "memory_order \<Rightarrow> clock \<Rightarrow> clock" where
  "release_clock mo c = (if mo = memory_order_release then c else (\<lambda>_. 0))"

definition clocked_enqueue :: "nat \<Rightarrow> addr \<Rightarrow> bool \<Rightarrow> 'v clocked \<Rightarrow> 'v clocked" where
  "clocked_enqueue i a weak s =
     (let q = queue s;
          s1 = s\<lparr>queue := exec_enqueue i a weak q\<rparr>
      in case pcs q i of
           E_new v \<Rightarrow> allocate i a s1
         | E_tail new \<Rightarrow> learn i (tail_msg s) s1
         | E_cas new old \<Rightarrow>
             (case heap q old of
                None \<Rightarrow> s1
              | Some nd \<Rightarrow>
                  (let s2 = access i old s1
                   in if next_of nd = null_tail q \<and> \<not> weak
                      then s2\<lparr>next_msg := (next_msg s2)(old := release_clock cas_success (known s2 i))\<rparr>
                      else s2))
         | E_swing new old \<Rightarrow>
             (let s2 = learn i (tail_msg s) s1
              in if tail q = old then s2\<lparr>tail_msg := known s2 i\<rparr> else s2)
         | _ \<Rightarrow> s1)"

definition clocked_dequeue :: "nat \<Rightarrow> bool \<Rightarrow> 'v clocked \<Rightarrow> 'v clocked" where
  "clocked_dequeue i stale s =
     (let q = queue s;
          s1 = s\<lparr>queue := exec_dequeue i stale q\<rparr>
      in case pcs q i of
           D_head \<Rightarrow> learn i (head_msg s) s1
         | D_next old \<Rightarrow>
             (case heap q old of
                None \<Rightarrow> s1
              | Some nd \<Rightarrow>
                  (if stale \<or> next_of nd = None then access i old s1
                   else learn i (next_msg s old) (access i old s1)))
         | D_read old first \<Rightarrow> (case heap q first of None \<Rightarrow> s1 | Some _ \<Rightarrow> access i first s1)
         | D_cas old first v \<Rightarrow>
             (let s2 = learn i (head_msg s) s1
              in if head q = old then s2\<lparr>head_msg := known s2 i\<rparr> else s2)
         | D_free old v \<Rightarrow> (case heap q old of None \<Rightarrow> s1 | Some _ \<Rightarrow> deallocate i old s1)
         | _ \<Rightarrow> s1)"

text \<open>The steps are those of the queue, each with its clocks.\<close>

inductive clocked_step :: "nat set \<Rightarrow> nat set \<Rightarrow> 'v clocked \<Rightarrow> 'v clocked \<Rightarrow> bool" for E D where
  clocked_call_enqueue: "i \<in> E \<Longrightarrow> pcs (queue s) i = Idle \<Longrightarrow>
     clocked_step E D s (s\<lparr>queue := goto i (E_new v) (queue s)\<rparr>)"
| clocked_call_dequeue: "i \<in> D \<Longrightarrow> pcs (queue s) i = Idle \<Longrightarrow>
     clocked_step E D s (s\<lparr>queue := goto i D_head (queue s)\<rparr>)"
| clocked_step_enqueue: "i \<in> E \<Longrightarrow> heap (queue s) a = None \<Longrightarrow>
     clocked_step E D s (clocked_enqueue i a weak s)"
| clocked_step_dequeue: "i \<in> D \<Longrightarrow> clocked_step E D s (clocked_dequeue i stale s)"

text \<open>The constructor runs before the threads start, so they know of what it did.\<close>

definition clocked_new :: "nat \<Rightarrow> 'v \<Rightarrow> 'v clocked" where
  "clocked_new n dflt =
     (let c = (\<lambda>e. of_bool (e = Made 0))
      in \<lparr>queue = LockFreeQueue_new dflt, threads = n, happened = c, known = (\<lambda>_. c), next_msg = (\<lambda>_ _. 0),
          head_msg = c, tail_msg = c, raced = False\<rparr>)"

definition clocked_init :: "nat \<Rightarrow> 'v clocked \<Rightarrow> bool" where
  "clocked_init n s \<longleftrightarrow> (\<exists>dflt. s = clocked_new n dflt)"

text \<open>Joining the two threads tells the caller all they know. The destructor then walks the list, and uses each
  node once more before it deletes it.\<close>

definition join_threads :: "nat \<Rightarrow> 'v clocked \<Rightarrow> 'v clocked" where
  "join_threads i s = learn i (known s 1) (learn i (known s 0) s)"

partial_function (option) clocked_free_from :: "nat \<Rightarrow> addr option \<Rightarrow> 'v clocked \<Rightarrow> 'v clocked option" where
  "clocked_free_from i p s =
     (case p of
        None \<Rightarrow> Some s
      | Some a \<Rightarrow>
          (case heap (queue s) a of
             None \<Rightarrow> None
           | Some nd \<Rightarrow>
               clocked_free_from i (next_of nd)
                 ((deallocate i a (access i a s))\<lparr>queue := (queue s)\<lparr>heap := (heap (queue s))(a := None)\<rparr>\<rparr>)))"

definition clocked_dtor :: "nat \<Rightarrow> 'v clocked \<Rightarrow> 'v clocked option" where
  "clocked_dtor i s = clocked_free_from i (Some (head (queue s))) s"

lemmas clock_defs = knows_def occur_def learn_def check_order_def allocate_def access_def deallocate_def

section \<open>The queue underneath\<close>

lemma queue_of_clock_steps [simp]:
  "queue (occur i e s) = queue s" "queue (learn i m s) = queue s" "queue (check_order b s) = queue s"
  "queue (allocate i a s) = queue s" "queue (access i a s) = queue s" "queue (deallocate i a s) = queue s"
  by (simp_all add: clock_defs)

lemma queue_clocked_enqueue [simp]: "queue (clocked_enqueue i a weak s) = exec_enqueue i a weak (queue s)"
  by (simp add: clocked_enqueue_def Let_def split: lfq_pc.split option.split)

lemma queue_clocked_dequeue [simp]: "queue (clocked_dequeue i stale s) = exec_dequeue i stale (queue s)"
  by (simp add: clocked_dequeue_def Let_def split: lfq_pc.split option.split)

lemma clocked_step_queue: "clocked_step E D s t \<Longrightarrow> lfq_step E D (queue s) (queue t)"
  by (induction rule: clocked_step.induct) (auto intro: lfq_step.intros)

lemma clocked_reachable_queue:
  "reachable (clocked_init n) (clocked_step E D) s \<Longrightarrow> reachable lfq_init (lfq_step E D) (queue s)"
proof (induction rule: reachable.induct)
  case (reach_init s)
  then have "lfq_init (queue s)" by (auto simp: clocked_init_def clocked_new_def Let_def lfq_init_def)
  then show ?case by (rule reachable.reach_init)
next
  case (reach_step s t)
  then show ?case by (blast intro: reachable.reach_step clocked_step_queue)
qed

text \<open>The clocks restrict nothing: every run of the queue is a run with clocks.\<close>

lemma queue_step_clocked:
  assumes "lfq_step E D (queue s) q"
  shows "\<exists>t. clocked_step E D s t \<and> queue t = q"
  using assms
proof cases
  case (call_enqueue i v)
  then show ?thesis by (intro exI [of _ "s\<lparr>queue := q\<rparr>"]) (auto intro: clocked_step.intros)
next
  case (call_dequeue i)
  then show ?thesis by (intro exI [of _ "s\<lparr>queue := q\<rparr>"]) (auto intro: clocked_step.intros)
next
  case (step_enqueue i a weak)
  then show ?thesis by (intro exI [of _ "clocked_enqueue i a weak s"]) (auto intro: clocked_step.intros)
next
  case (step_dequeue i stale)
  then show ?thesis by (intro exI [of _ "clocked_dequeue i stale s"]) (auto intro: clocked_step.intros)
qed

lemma queue_reachable_clocked:
  "reachable lfq_init (lfq_step E D) q \<Longrightarrow> \<exists>s. reachable (clocked_init n) (clocked_step E D) s \<and> queue s = q"
proof (induction rule: reachable.induct)
  case (reach_init q)
  then obtain d where "q = queue (clocked_new n d)" by (auto simp: lfq_init_def clocked_new_def Let_def)
  then show ?case by (auto simp: clocked_init_def intro: reachable.reach_init)
next
  case (reach_step q q')
  then obtain s where s: "reachable (clocked_init n) (clocked_step E D) s" "queue s = q" by blast
  then obtain t where "clocked_step E D s t" "queue t = q'" using queue_step_clocked [of E D s q'] reach_step.hyps by auto
  then show ?case using s(1) by (blast intro: reachable.reach_step)
qed

section \<open>Nothing races\<close>

text \<open>The nodes each thread may go on to use, and those of which the consumer knows all uses.\<close>

fun prod_reach :: "addr \<Rightarrow> 'v lfq_pc \<Rightarrow> addr set" where
  "prod_reach t (E_tail n) = {t, n}"
| "prod_reach t (E_cas n old) = {old, n}"
| "prod_reach t (E_swing n old) = {n}"
| "prod_reach t _ = {t}"

fun cons_reach :: "addr \<Rightarrow> 'v lfq_pc \<Rightarrow> addr set" where
  "cons_reach h (D_next old) = {h, old}"
| "cons_reach h (D_read old first) = {h, old, first}"
| "cons_reach h (D_cas old first v) = {h, old, first}"
| "cons_reach h (D_free old v) = {h, old}"
| "cons_reach h _ = {h}"

fun done_with :: "'v lfq_pc \<Rightarrow> addr set" where
  "done_with (D_read old first) = {old}"
| "done_with (D_cas old first v) = {old}"
| "done_with (D_free old v) = {old}"
| "done_with _ = {}"

definition bounded :: "'v clocked \<Rightarrow> bool" where
  "bounded s \<longleftrightarrow> (\<forall>e. (\<forall>i. known s i e \<le> happened s e) \<and> (\<forall>a. next_msg s a e \<le> happened s e) \<and>
     head_msg s e \<le> happened s e \<and> tail_msg s e \<le> happened s e)"

text \<open>The clock left with a next pointer tells of the construction of the node it leads to and of all the
  producer did with the node it is in.\<close>

definition published_link :: "addr \<Rightarrow> addr \<Rightarrow> 'v clocked \<Rightarrow> bool" where
  "published_link a b s \<longleftrightarrow>
     next_msg s a (Made b) = happened s (Made b) \<and> next_msg s a (Used 0 a) = happened s (Used 0 a)"

definition links_published :: "'v clocked \<Rightarrow> bool" where
  "links_published s \<longleftrightarrow>
     (\<forall>a nd b. heap (queue s) a = Some nd \<longrightarrow> next_of nd = Some b \<longrightarrow> a \<notin> cons_nodes (pcs (queue s) 1) \<longrightarrow>
        published_link a b s)"

definition order_inv :: "'v clocked \<Rightarrow> bool" where
  "order_inv s \<longleftrightarrow>
     bounded s \<and> threads s = 2 \<and> \<not> raced s \<and> (\<forall>a. knows 0 (Used 0 a) s \<and> knows 1 (Used 1 a) s) \<and>
     (\<forall>a\<in>prod_reach (tail (queue s)) (pcs (queue s) 0). knows 0 (Made a) s) \<and>
     (\<forall>a\<in>cons_reach (head (queue s)) (pcs (queue s) 1). knows 1 (Made a) s) \<and>
     (\<forall>a\<in>done_with (pcs (queue s) 1). knows 1 (Used 0 a) s) \<and> links_published s"

subsection \<open>What the clock operations keep\<close>

lemma knows_occur [simp]:
  "knows i e (occur i e s)" "e' \<noteq> e \<Longrightarrow> knows j e' (occur i e s) = knows j e' s"
  by (auto simp: clock_defs)

lemma knows_learn: "knows j e s \<Longrightarrow> (\<And>e. m e \<le> happened s e) \<Longrightarrow> knows j e (learn i m s)"
  by (auto simp: clock_defs max_def intro: antisym)

lemma learn_knows: "m e = happened s e \<Longrightarrow> bounded s \<Longrightarrow> knows i e (learn i m s)"
  by (simp add: clock_defs bounded_def max_def)

lemma bounded_occur: "bounded s \<Longrightarrow> bounded (occur i e s)"
  by (auto simp: bounded_def occur_def le_Suc_eq)

lemma bounded_learn: "bounded s \<Longrightarrow> (\<And>e. m e \<le> happened s e) \<Longrightarrow> bounded (learn i m s)"
  by (auto simp: bounded_def learn_def)

lemma links_publishedI:
  assumes "\<And>a nd b. heap (queue s) a = Some nd \<Longrightarrow> next_of nd = Some b \<Longrightarrow> a \<notin> cons_nodes (pcs (queue s) 1) \<Longrightarrow>
    published_link a b s"
  shows "links_published s"
  using assms by (auto simp: links_published_def)

lemma links_publishedD:
  "links_published s \<Longrightarrow> heap (queue s) a = Some nd \<Longrightarrow> next_of nd = Some b \<Longrightarrow>
     a \<notin> cons_nodes (pcs (queue s) 1) \<Longrightarrow> published_link a b s"
  by (auto simp: links_published_def)

lemma published_learn [simp]: "published_link a b (learn i m s) = published_link a b s"
  by (simp add: published_link_def learn_def)

lemma published_occur:
  "e \<noteq> Made b \<Longrightarrow> e \<noteq> Used 0 a \<Longrightarrow> published_link a b (occur i e s) = published_link a b s"
  by (auto simp: published_link_def occur_def)

subsection \<open>What the queue tells\<close>

lemma linked_next: "linked h ns \<Longrightarrow> a \<in> set ns \<Longrightarrow> h a = Some nd \<Longrightarrow> next_of nd = Some b \<Longrightarrow> b \<in> set ns"
  by (induction h ns rule: linked.induct) auto

lemma successor_in_list:
  assumes inv: "queue_inv ns q" and "heap q a = Some nd" "next_of nd = Some b" "a \<notin> cons_nodes (pcs q 1)"
  shows "a \<in> set ns" "b \<in> set ns"
proof -
  have "a \<notin> prod_nodes (pcs q 0)"
    using inv assms(2,3) by (cases "pcs q 0") (auto simp: queue_inv_def fresh_node_def)
  then show a: "a \<in> set ns" using inv assms(2,4) by (auto simp: queue_inv_def)
  have "linked (heap q) ns" using inv by (simp add: queue_inv_def)
  then show "b \<in> set ns" using a assms(2,3) by (rule linked_next)
qed

lemma queue_invD:
  assumes "queue_inv ns q"
  shows "linked (heap q) ns" "distinct ns" "hd ns = head q" "ns \<noteq> []" "null_tail q = None"
    "prod_ok (heap q) (tail q) ns (pcs q 0)" "cons_ok (heap q) ns (pcs q 1)"
    "prod_nodes (pcs q 0) \<inter> cons_nodes (pcs q 1) = {}"
    "\<And>a. heap q a \<noteq> None \<longleftrightarrow> a \<in> set ns \<or> a \<in> prod_nodes (pcs q 0) \<or> a \<in> cons_nodes (pcs q 1)"
  using assms linked_nonempty unfolding queue_inv_def by blast+

lemma listed_allocated: "queue_inv ns q \<Longrightarrow> a \<in> set ns \<Longrightarrow> heap q a \<noteq> None"
  using queue_invD(9) by blast

lemma cons_nodes_unlisted: "cons_ok h ns pc \<Longrightarrow> cons_nodes pc \<inter> set ns = {}"
  by (cases pc) auto

lemma prod_reach_listed: "prod_ok h t ns pc \<Longrightarrow> ns \<noteq> [] \<Longrightarrow> prod_reach t pc \<subseteq> set ns \<union> prod_nodes pc"
  by (cases pc) auto

lemma cons_reach_listed: "cons_ok h ns pc \<Longrightarrow> ns \<noteq> [] \<Longrightarrow> cons_reach (hd ns) pc \<subseteq> set ns \<union> cons_nodes pc"
  by (cases pc) auto

lemma done_with_listed: "cons_ok h ns pc \<Longrightarrow> distinct ns \<Longrightarrow> ns \<noteq> [] \<Longrightarrow> last ns \<notin> done_with pc"
  by (cases pc) (auto split: if_splits)

lemma prod_reach_allocated:
  assumes "queue_inv ns q" "a \<in> prod_reach (tail q) (pcs q 0)"
  shows "heap q a \<noteq> None" "a \<notin> cons_nodes (pcs q 1)"
proof -
  note inv = queue_invD [OF assms(1)]
  have a: "a \<in> set ns \<union> prod_nodes (pcs q 0)"
    using prod_reach_listed [OF inv(6,4)] assms(2) by (rule subsetD)
  then show "heap q a \<noteq> None" unfolding inv(9) by blast
  show "a \<notin> cons_nodes (pcs q 1)" using a inv(8) cons_nodes_unlisted [OF inv(7)] by blast
qed

lemma cons_reach_allocated:
  assumes "queue_inv ns q" "a \<in> cons_reach (head q) (pcs q 1)"
  shows "heap q a \<noteq> None"
proof -
  note inv = queue_invD [OF assms(1)]
  have "a \<in> set ns \<union> cons_nodes (pcs q 1)"
    using cons_reach_listed [OF inv(7,4), unfolded inv(3)] assms(2) by (rule subsetD)
  then show ?thesis unfolding inv(9) by blast
qed

subsection \<open>The invariant\<close>

lemma order_invI:
  assumes "bounded s" "threads s = 2" "\<not> raced s" "\<And>a. knows 0 (Used 0 a) s" "\<And>a. knows 1 (Used 1 a) s"
    and "\<And>a. a \<in> prod_reach (tail (queue s)) (pcs (queue s) 0) \<Longrightarrow> knows 0 (Made a) s"
    and "\<And>a. a \<in> cons_reach (head (queue s)) (pcs (queue s) 1) \<Longrightarrow> knows 1 (Made a) s"
    and "\<And>a. a \<in> done_with (pcs (queue s) 1) \<Longrightarrow> knows 1 (Used 0 a) s" "links_published s"
  shows "order_inv s"
  using assms unfolding order_inv_def by blast

lemma order_invD:
  assumes "order_inv s"
  shows "bounded s" "threads s = 2" "\<not> raced s" "\<And>a. knows 0 (Used 0 a) s" "\<And>a. knows 1 (Used 1 a) s"
    "\<And>a. a \<in> prod_reach (tail (queue s)) (pcs (queue s) 0) \<Longrightarrow> knows 0 (Made a) s"
    "\<And>a. a \<in> cons_reach (head (queue s)) (pcs (queue s) 1) \<Longrightarrow> knows 1 (Made a) s"
    "\<And>a. a \<in> done_with (pcs (queue s) 1) \<Longrightarrow> knows 1 (Used 0 a) s" "links_published s"
  using assms unfolding order_inv_def by blast+

lemma boundedD:
  assumes "bounded s"
  shows "known s i e \<le> happened s e" "next_msg s a e \<le> happened s e" "head_msg s e \<le> happened s e"
    "tail_msg s e \<le> happened s e"
  using assms by (simp_all add: bounded_def)

text \<open>A step of the queue that reaches no further node and links or frees none leaves the order alone.\<close>

lemma order_inv_queue:
  assumes inv: "order_inv s"
    and "prod_reach (tail q) (pcs q 0) \<subseteq> prod_reach (tail (queue s)) (pcs (queue s) 0)"
    and "cons_reach (head q) (pcs q 1) \<subseteq> cons_reach (head (queue s)) (pcs (queue s) 1)"
    and "done_with (pcs q 1) \<subseteq> done_with (pcs (queue s) 1)"
    and "heap q = heap (queue s)" "cons_nodes (pcs (queue s) 1) \<subseteq> cons_nodes (pcs q 1)"
  shows "order_inv (s\<lparr>queue := q\<rparr>)"
proof -
  have "links_published (s\<lparr>queue := q\<rparr>)"
    using order_invD(9) [OF inv] assms(5,6) unfolding links_published_def published_link_def by auto
  moreover have "bounded (s\<lparr>queue := q\<rparr>)" using order_invD(1) [OF inv] by (simp add: bounded_def)
  ultimately show ?thesis
    using inv assms(2-4) unfolding order_inv_def knows_def by auto
qed

lemma clock_steps_queue_update:
  "occur i e (s\<lparr>queue := q\<rparr>) = (occur i e s)\<lparr>queue := q\<rparr>"
  "learn i m (s\<lparr>queue := q\<rparr>) = (learn i m s)\<lparr>queue := q\<rparr>"
  "allocate i a (s\<lparr>queue := q\<rparr>) = (allocate i a s)\<lparr>queue := q\<rparr>"
  "access i a (s\<lparr>queue := q\<rparr>) = (access i a s)\<lparr>queue := q\<rparr>"
  "deallocate i a (s\<lparr>queue := q\<rparr>) = (deallocate i a s)\<lparr>queue := q\<rparr>"
  by (simp_all add: clock_defs cong: if_cong)

lemma clock_fields [simp]:
  "threads (occur i e s) = threads s" "raced (occur i e s) = raced s" "next_msg (occur i e s) = next_msg s"
  "threads (learn i m s) = threads s" "raced (learn i m s) = raced s" "next_msg (learn i m s) = next_msg s"
  "happened (learn i m s) = happened s"
  by (simp_all add: occur_def learn_def)

lemma order_inv_learn:
  assumes inv: "order_inv s" and m: "\<And>e. m e \<le> happened s e"
  shows "order_inv (learn i m s)"
proof (rule order_invI)
  show "links_published (learn i m s)" using order_invD(9) [OF inv] by (simp add: links_published_def)
qed (use order_invD(1-8) [OF inv] m in \<open>auto intro: bounded_learn knows_learn\<close>)

lemma order_inv_messages:
  assumes "order_inv s"
  shows "order_inv (s\<lparr>head_msg := known s i\<rparr>)" "order_inv (s\<lparr>tail_msg := known s i\<rparr>)"
  using assms unfolding order_inv_def knows_def links_published_def published_link_def
  by (auto simp: bounded_def)

lemma access_ok: "knows i (Made a) s \<Longrightarrow> access i a s = occur i (Used i a) s"
  by (simp add: access_def check_order_def)

lemma order_inv_use:
  assumes inv: "order_inv s" and i: "i \<in> {0, 1}" and knows: "knows i (Made a) s"
    and free: "i = 0 \<Longrightarrow> a \<notin> done_with (pcs (queue s) 1)"
    and last: "\<And>nd. i = 0 \<Longrightarrow> heap (queue s) a = Some nd \<Longrightarrow> next_of nd = None"
  shows "order_inv (access i a s)"
  unfolding access_ok [OF knows]
proof (rule order_invI)
  note o = order_invD [OF inv]
  let ?s = "occur i (Used i a) s"
  show "bounded ?s" using o(1) by (rule bounded_occur)
  show "knows 0 (Used 0 b) ?s" "knows 1 (Used 1 b) ?s" for b
    using i o(4,5) by (cases "b = a"; auto)+
  show "knows 1 (Used 0 b) ?s" if "b \<in> done_with (pcs (queue ?s) 1)" for b
  proof -
    have "Used 0 b \<noteq> Used i a" using that free by auto
    then show ?thesis using that o(8) [of b] by simp
  qed
  show "links_published ?s"
  proof (rule links_publishedI)
    fix b nd c assume "heap (queue ?s) b = Some nd" "next_of nd = Some c" "b \<notin> cons_nodes (pcs (queue ?s) 1)"
    then have link: "published_link b c s" "heap (queue s) b = Some nd" "next_of nd = Some c"
      using links_publishedD [OF o(9)] by simp_all
    then have "Used i a \<noteq> Used 0 b" using last [of nd] by auto
    then show "published_link b c ?s" using link(1) published_occur [of "Used i a" c b i s] by blast
  qed
qed (use order_invD [OF inv] in simp_all)

subsection \<open>The producer\<close>

lemma allocate_known:
  "bounded s \<Longrightarrow> bounded (allocate i a s)" "threads (allocate i a s) = threads s" "raced (allocate i a s) = raced s"
  "knows i (Made a) (allocate i a s)" "block_of e \<noteq> a \<Longrightarrow> knows j e (allocate i a s) = knows j e s"
  "knows i (Used j a) (allocate i a s)" "j \<noteq> i \<Longrightarrow> knows j (Used k a) (allocate i a s) = knows j (Used k a) s"
  "b \<noteq> a \<Longrightarrow> published_link c b (allocate i a s) = published_link c b s"
  by (auto simp: clock_defs bounded_def published_link_def le_Suc_eq)

lemma producer_constructs:
  assumes inv: "queue_inv ns (queue s)" "order_inv s" and pc: "pcs (queue s) 0 = E_new v"
    and free: "heap (queue s) a = None"
  shows "order_inv (clocked_enqueue 0 a weak s)"
proof -
  define q where "q = queue s"
  note o = order_invD [OF inv(2), folded q_def] and nodes = successor_in_list [OF inv(1), folded q_def]
  have free': "heap q a = None" using free by (simp add: q_def)
  define q' where "q' = exec_enqueue 0 a weak q"
  have q': "heap q' = (heap q)(a \<mapsto> \<lparr>value_of = v, next_of = None\<rparr>)" "tail q' = tail q" "head q' = head q"
      "pcs q' 0 = E_tail a" "pcs q' 1 = pcs q 1"
    using pc by (simp_all add: q'_def q_def exec_enqueue_def goto_def)
  have t: "clocked_enqueue 0 a weak s = (allocate 0 a s)\<lparr>queue := q'\<rparr>"
    using pc by (simp add: clocked_enqueue_def Let_def q'_def q_def clock_steps_queue_update)
  let ?t = "(allocate 0 a s)\<lparr>queue := q'\<rparr>"
  have knows: "knows j e ?t = knows j e (allocate 0 a s)" for j e by (simp add: knows_def)
  show ?thesis unfolding t
  proof (rule order_invI)
    show "bounded ?t" using allocate_known(1) [OF o(1)] by (simp add: bounded_def)
    show "knows 0 (Used 0 b) ?t" "knows 1 (Used 1 b) ?t" for b
      unfolding knows using o(4,5) [of b] by (cases "b = a"; simp add: allocate_known)+
    show "knows 0 (Made b) ?t" if "b \<in> prod_reach (tail (queue ?t)) (pcs (queue ?t) 0)" for b
      unfolding knows using that o(6) [of b] pc by (cases "b = a") (auto simp: allocate_known q' q_def)
    show "knows 1 (Made b) ?t" if "b \<in> cons_reach (head (queue ?t)) (pcs (queue ?t) 1)" for b
    proof -
      have b: "b \<in> cons_reach (head q) (pcs q 1)" using that by (simp add: q' del: One_nat_def)
      then have "b \<noteq> a" using cons_reach_allocated [OF inv(1), folded q_def, OF b] free' by auto
      then show ?thesis unfolding knows using o(7) [OF b] by (simp add: allocate_known)
    qed
    show "knows 1 (Used 0 b) ?t" if "b \<in> done_with (pcs (queue ?t) 1)" for b
      unfolding knows using that o(8) [of b] by (cases "b = a") (simp_all add: allocate_known q' del: One_nat_def)
    show "links_published ?t"
    proof (rule links_publishedI)
      fix c nd b assume l: "heap (queue ?t) c = Some nd" "next_of nd = Some b" "c \<notin> cons_nodes (pcs (queue ?t) 1)"
      have c: "heap q c = Some nd" using l(1,2) by (auto simp: q' split: if_splits)
      have "c \<notin> cons_nodes (pcs q 1)" using l(3) by (simp add: q' del: One_nat_def)
      then have "b \<in> set ns" and "published_link c b s"
        using nodes [OF c l(2)] links_publishedD [OF o(9), folded q_def, OF c l(2)] by simp_all
      moreover have "b \<noteq> a" using listed_allocated [OF inv(1) calculation(1)] free by auto
      ultimately show "published_link c b ?t" using allocate_known(8) [of b a c 0 s] by (simp add: published_link_def)
    qed
  qed (use o(2,3) in \<open>simp_all add: allocate_known\<close>)
qed

lemma cas_node:
  assumes inv: "queue_inv ns q" and pc: "pcs q 0 = E_cas n old"
  obtains nd where "heap q old = Some nd" "next_of nd = None" "tail q = old" "old = last ns" "null_tail q = None"
    "old \<notin> done_with (pcs q 1)"
proof -
  note q = queue_invD [OF inv]
  have old: "tail q = old" "old = last ns" using q(6) by (auto simp: pc)
  obtain nd where nd: "heap q old = Some nd" "next_of nd = None"
    using linked_last [OF q(1)] old(2) by (auto simp: fresh_node_def)
  show thesis by (rule that [OF nd old q(5)]) (use done_with_listed [OF q(7,2,4)] in \<open>simp only: old(2) not_False_eq_True\<close>)
qed

lemma order_inv_link:
  assumes inv: "order_inv s" and pc: "pcs (queue s) 0 = E_cas n old" and nd: "heap (queue s) old = Some nd"
    and q': "heap q' = (heap (queue s))(old \<mapsto> nd\<lparr>next_of := Some n\<rparr>)" "tail q' = tail (queue s)"
      "head q' = head (queue s)" "pcs q' = (pcs (queue s))(0 := E_swing n old)"
  shows "order_inv (s\<lparr>next_msg := (next_msg s)(old := known s 0), queue := q'\<rparr>)" (is "order_inv ?t")
proof (rule order_invI)
  note o = order_invD [OF inv]
  show "bounded ?t" using o(1) by (simp add: bounded_def)
  show "links_published ?t"
  proof (rule links_publishedI)
    fix b m c assume l: "heap (queue ?t) b = Some m" "next_of m = Some c" "b \<notin> cons_nodes (pcs (queue ?t) 1)"
    show "published_link b c ?t"
    proof (cases "b = old")
      case True
      then have "c = n" using l by (auto simp: q')
      then show ?thesis using True o(4) [of old] o(6) [of n]
        by (simp add: published_link_def knows_def pc)
    next
      case False
      then have "published_link b c s"
        using links_publishedD [OF o(9), of b m c] l by (simp add: q')
      then show ?thesis using False by (simp add: published_link_def)
    qed
  qed
qed (use order_invD [OF inv] in \<open>simp_all add: knows_def q' pc\<close>)

lemma producer_links:
  assumes inv: "queue_inv ns (queue s)" "order_inv s" and pc: "pcs (queue s) 0 = E_cas n old"
  shows "order_inv (clocked_enqueue 0 a weak s)"
proof -
  obtain nd where nd: "heap (queue s) old = Some nd" "next_of nd = None" "tail (queue s) = old" "null_tail (queue s) = None"
      "old \<notin> done_with (pcs (queue s) 1)"
    by (rule cas_node [OF inv(1) pc])
  define s2 q' where "s2 = access 0 old s" and "q' = exec_enqueue 0 a weak (queue s)"
  have "knows 0 (Made old) s" using order_invD(6) [OF inv(2), of old] by (simp add: pc)
  then have s2: "order_inv s2" unfolding s2_def using nd by (intro order_inv_use [OF inv(2)]) simp_all
  have qs: "queue s2 = queue s" by (simp add: s2_def)
  show ?thesis
  proof (cases weak)
    case True
    have t: "clocked_enqueue 0 a weak s = s2\<lparr>queue := q'\<rparr>"
      using nd True by (simp add: clocked_enqueue_def Let_def pc clock_steps_queue_update s2_def q'_def)
    show ?thesis unfolding t using nd True
      by (intro order_inv_queue [OF s2, unfolded qs]) (simp_all add: q'_def exec_enqueue_def pc goto_def)
  next
    case False
    have t: "clocked_enqueue 0 a weak s = s2\<lparr>next_msg := (next_msg s2)(old := known s2 0), queue := q'\<rparr>"
      using nd False
      by (simp add: clocked_enqueue_def Let_def pc clock_steps_queue_update s2_def q'_def cas_success_def release_clock_def)
    show ?thesis unfolding t using nd False
      by (intro order_inv_link [OF s2, unfolded qs, OF pc]) (simp_all add: q'_def exec_enqueue_def pc goto_def)
  qed
qed

lemma producer_keeps_order:
  assumes inv: "queue_inv ns (queue s)" "order_inv s" and free: "heap (queue s) a = None"
  shows "order_inv (clocked_enqueue 0 a weak s)"
proof (cases "pcs (queue s) 0")
  case (E_new v)
  then show ?thesis using producer_constructs [OF inv _ free] by simp
next
  case (E_cas n old)
  then show ?thesis by (rule producer_links [OF inv])
next
  case pc: (E_tail n)
  define q' where "q' = exec_enqueue 0 a weak (queue s)"
  have t: "clocked_enqueue 0 a weak s = (learn 0 (tail_msg s) s)\<lparr>queue := q'\<rparr>"
    by (simp add: clocked_enqueue_def Let_def pc clock_steps_queue_update q'_def)
  have "order_inv (learn 0 (tail_msg s) s)"
    using inv(2) boundedD(4) [OF order_invD(1) [OF inv(2)]] by (rule order_inv_learn)
  then show ?thesis unfolding t
    by (rule order_inv_queue) (simp_all add: q'_def exec_enqueue_def pc goto_def)
next
  case pc: (E_swing n old)
  define q' where "q' = exec_enqueue 0 a weak (queue s)"
  define s2 where "s2 = learn 0 (tail_msg s) s"
  have "tail (queue s) = old" using queue_invD(6) [OF inv(1)] by (simp add: pc)
  then have t: "clocked_enqueue 0 a weak s = (s2\<lparr>tail_msg := known s2 0\<rparr>)\<lparr>queue := q'\<rparr>"
      and q': "heap q' = heap (queue s)" "head q' = head (queue s)" "tail q' = n" "pcs q' = (pcs (queue s))(0 := Idle)"
    by (simp_all add: clocked_enqueue_def Let_def pc clock_steps_queue_update q'_def s2_def exec_enqueue_def goto_def)
  have "order_inv s2" unfolding s2_def
    using inv(2) boundedD(4) [OF order_invD(1) [OF inv(2)]] by (rule order_inv_learn)
  from order_inv_messages(2) [OF this] show ?thesis unfolding t
    by (rule order_inv_queue) (simp_all add: q' pc s2_def)
qed (use order_inv_queue [OF inv(2), of "queue s"] in \<open>simp_all add: clocked_enqueue_def Let_def exec_enqueue_def\<close>)

subsection \<open>The consumer\<close>

lemma order_inv_reached:
  assumes inv: "order_inv s" and pc: "pcs (queue s) 1 = D_next old"
    and new: "knows 1 (Made f) s" "knows 1 (Used 0 old) s"
    and q': "heap q' = heap (queue s)" "tail q' = tail (queue s)" "head q' = head (queue s)"
      "pcs q' = (pcs (queue s))(1 := D_read old f)"
  shows "order_inv (s\<lparr>queue := q'\<rparr>)"
proof -
  note o = order_invD [OF inv]
  have knows: "knows j e (s\<lparr>queue := q'\<rparr>) = knows j e s" for j e by (simp add: knows_def)
  have "cons_nodes (pcs (queue s) 1) = cons_nodes (pcs q' 1)" by (simp add: pc q' del: One_nat_def)
  then have "links_published (s\<lparr>queue := q'\<rparr>)"
    using o(9) by (simp add: links_published_def published_link_def q' del: One_nat_def)
  then show ?thesis
    using o new by (intro order_invI) (auto simp: knows q' pc bounded_def simp del: One_nat_def)
qed

lemma consumer_finds_next:
  assumes inv: "queue_inv ns (queue s)" "order_inv s" and pc: "pcs (queue s) 1 = D_next old"
  shows "order_inv (clocked_dequeue 1 stale s)"
proof -
  have reach: "old \<in> cons_reach (head (queue s)) (pcs (queue s) 1)" by (simp add: pc del: One_nat_def)
  obtain nd where nd: "heap (queue s) old = Some nd" using cons_reach_allocated [OF inv(1) reach] by auto
  define s2 q' where "s2 = access 1 old s" and "q' = exec_dequeue 1 stale (queue s)"
  have knows: "knows 1 (Made old) s" using order_invD(7) [OF inv(2) reach] .
  then have s2: "order_inv s2" unfolding s2_def by (intro order_inv_use [OF inv(2)]) simp_all
  have qs: "queue s2 = queue s" by (simp add: s2_def)
  show ?thesis
  proof (cases "stale \<or> next_of nd = None")
    case True
    have t: "clocked_dequeue 1 stale s = s2\<lparr>queue := q'\<rparr>"
      using nd True by (simp add: clocked_dequeue_def Let_def pc clock_steps_queue_update s2_def q'_def del: One_nat_def)
    show ?thesis unfolding t using nd True
      by (intro order_inv_queue [OF s2, unfolded qs])
        (auto simp: q'_def exec_dequeue_def pc goto_def simp del: One_nat_def)
  next
    case False
    then obtain f where f: "next_of nd = Some f" "\<not> stale" by auto
    define s3 where "s3 = learn 1 (next_msg s2 old) s2"
    have msg: "next_msg s2 = next_msg s" using knows by (simp add: s2_def access_ok del: One_nat_def)
    have t: "clocked_dequeue 1 stale s = s3\<lparr>queue := q'\<rparr>"
      using nd f by (simp add: clocked_dequeue_def Let_def pc clock_steps_queue_update s2_def s3_def q'_def
          msg [unfolded s2_def] del: One_nat_def)
    note b = order_invD(1) [OF s2]
    have s3: "order_inv s3" unfolding s3_def using s2 boundedD(2) [OF b] by (rule order_inv_learn)
    have "published_link old f s2"
      using links_publishedD [OF order_invD(9) [OF s2], unfolded qs, OF nd f(1)] by (simp add: pc del: One_nat_def)
    then have "knows 1 (Made f) s3" "knows 1 (Used 0 old) s3"
      unfolding s3_def published_link_def using b by (auto intro: learn_knows)
    then show ?thesis unfolding t using nd f
      by (intro order_inv_reached [OF s3])
        (simp_all add: s3_def qs q'_def exec_dequeue_def pc goto_def del: One_nat_def)
  qed
qed

lemma consumer_frees:
  assumes inv: "queue_inv ns (queue s)" "order_inv s" and pc: "pcs (queue s) 1 = D_free old v"
  shows "order_inv (clocked_dequeue 1 stale s)"
proof -
  define q where "q = queue s"
  note q = queue_invD [OF inv(1), folded q_def] and o = order_invD [OF inv(2), folded q_def]
  have pcq: "pcs q 1 = D_free old v" using pc by (simp add: q_def)
  have old: "old \<notin> set ns" "heap q old \<noteq> None" using q(7) by (simp_all add: pcq del: One_nat_def)
  define q' where "q' = exec_dequeue 1 stale q"
  have q': "heap q' = (heap q)(old := None)" "tail q' = tail q" "head q' = head q" "pcs q' 0 = pcs q 0" "pcs q' 1 = Idle"
    using old(2) by (auto simp: q'_def exec_dequeue_def pcq goto_def simp del: One_nat_def)
  have made: "knows 1 (Made old) s" and used: "knows 1 (Used 0 old) s"
    using o(7) [of old] o(8) [of old] by (simp_all add: pcq del: One_nat_def)
  have "[0..<threads s] = [0, 1]" by (simp add: o(2) upt_conv_Cons)
  then have "deallocate 1 old s = occur 1 (Made old) s"
    using made used o(5) [of old] by (simp add: deallocate_def check_order_def)
  then have t: "clocked_dequeue 1 stale s = (occur 1 (Made old) s)\<lparr>queue := q'\<rparr>"
    using old(2) by (auto simp: clocked_dequeue_def Let_def pcq q_def [symmetric] clock_steps_queue_update q'_def
        simp del: One_nat_def)
  let ?t = "(occur 1 (Made old) s)\<lparr>queue := q'\<rparr>"
  have knows: "knows j e ?t = knows j e s" if "e \<noteq> Made old" for j e
    using that by (simp add: knows_def occur_def)
  show ?thesis unfolding t
  proof (rule order_invI)
    show "bounded ?t" using bounded_occur [OF o(1)] by (simp add: bounded_def)
    show "knows 0 (Made b) ?t" if "b \<in> prod_reach (tail (queue ?t)) (pcs (queue ?t) 0)" for b
    proof -
      have b: "b \<in> prod_reach (tail q) (pcs q 0)" using that by (simp add: q')
      then have "b \<noteq> old" using prod_reach_allocated(2) [OF inv(1), folded q_def, OF b] by (auto simp: pcq simp del: One_nat_def)
      then show ?thesis using o(6) [OF b] by (simp add: knows del: One_nat_def)
    qed
    show "knows 1 (Made b) ?t" if "b \<in> cons_reach (head (queue ?t)) (pcs (queue ?t) 1)" for b
    proof -
      have b: "b = head q" using that by (simp add: q' del: One_nat_def)
      then have "b \<noteq> old" using q(3) hd_in_set [OF q(4)] old(1) by auto
      then show ?thesis using o(7) [of b] b by (simp add: knows pcq del: One_nat_def)
    qed
    show "links_published ?t"
    proof (rule links_publishedI)
      fix c nd b assume l: "heap (queue ?t) c = Some nd" "next_of nd = Some b" "c \<notin> cons_nodes (pcs (queue ?t) 1)"
      have c: "heap q c = Some nd" "c \<noteq> old" using l(1) by (auto simp: q' split: if_splits)
      then have "c \<notin> cons_nodes (pcs q 1)" by (simp add: pcq del: One_nat_def)
      then have "b \<in> set ns" and "published_link c b s"
        using successor_in_list(2) [OF inv(1), folded q_def, OF c(1) l(2)] links_publishedD [OF o(9), folded q_def, OF c(1) l(2)]
        by simp_all
      then show "published_link c b ?t" using old(1) by (auto simp: published_link_def occur_def)
    qed
  qed (use o in \<open>simp_all add: knows q' del: One_nat_def\<close>)
qed

lemma consumer_keeps_order:
  assumes inv: "queue_inv ns (queue s)" "order_inv s"
  shows "order_inv (clocked_dequeue 1 stale s)"
proof (cases "pcs (queue s) 1")
  case (D_next old)
  then show ?thesis by (rule consumer_finds_next [OF inv])
next
  case (D_free old v)
  then show ?thesis by (rule consumer_frees [OF inv])
next
  case pc: D_head
  define q' where "q' = exec_dequeue 1 stale (queue s)"
  have t: "clocked_dequeue 1 stale s = (learn 1 (head_msg s) s)\<lparr>queue := q'\<rparr>"
    by (simp add: clocked_dequeue_def Let_def pc clock_steps_queue_update q'_def del: One_nat_def)
  have "order_inv (learn 1 (head_msg s) s)"
    using inv(2) boundedD(3) [OF order_invD(1) [OF inv(2)]] by (rule order_inv_learn)
  then show ?thesis unfolding t
    by (rule order_inv_queue) (simp_all add: q'_def exec_dequeue_def pc goto_def del: One_nat_def)
next
  case pc: (D_read old f)
  define q' where "q' = exec_dequeue 1 stale (queue s)"
  have "knows 1 (Made f) s" using order_invD(7) [OF inv(2), of f] by (simp add: pc del: One_nat_def)
  then have use: "order_inv (access 1 f s)" by (intro order_inv_use [OF inv(2)]) simp_all
  have "heap (queue s) f \<noteq> None" using cons_reach_allocated [OF inv(1), of f] by (simp add: pc del: One_nat_def)
  then have t: "clocked_dequeue 1 stale s = (access 1 f s)\<lparr>queue := q'\<rparr>"
      and q': "heap q' = heap (queue s)" "head q' = head (queue s)" "tail q' = tail (queue s)"
        "\<exists>v. pcs q' = (pcs (queue s))(1 := D_cas old f v)"
    by (auto simp: clocked_dequeue_def Let_def pc clock_steps_queue_update q'_def exec_dequeue_def goto_def
        simp del: One_nat_def)
  from use show ?thesis unfolding t by (rule order_inv_queue) (use q' in \<open>auto simp: pc simp del: One_nat_def\<close>)
next
  case pc: (D_cas old f v)
  define q' where "q' = exec_dequeue 1 stale (queue s)"
  define s2 where "s2 = learn 1 (head_msg s) s"
  have "head (queue s) = old" using queue_invD(3,7) [OF inv(1)] by (auto simp: pc simp del: One_nat_def)
  then have t: "clocked_dequeue 1 stale s = (s2\<lparr>head_msg := known s2 1\<rparr>)\<lparr>queue := q'\<rparr>"
      and q': "heap q' = heap (queue s)" "head q' = f" "tail q' = tail (queue s)"
        "pcs q' = (pcs (queue s))(1 := D_free old v)"
    by (simp_all add: clocked_dequeue_def Let_def pc clock_steps_queue_update q'_def s2_def exec_dequeue_def goto_def
        del: One_nat_def)
  have "order_inv s2" unfolding s2_def
    using inv(2) boundedD(3) [OF order_invD(1) [OF inv(2)]] by (rule order_inv_learn)
  from order_inv_messages(1) [OF this] show ?thesis unfolding t
    by (rule order_inv_queue) (simp_all add: q' pc s2_def del: One_nat_def)
qed (use order_inv_queue [OF inv(2), of "queue s"] in
    \<open>simp_all add: clocked_dequeue_def Let_def exec_dequeue_def del: One_nat_def\<close>)

subsection \<open>Every run\<close>

definition clock_inv :: "'v clocked \<Rightarrow> bool" where
  "clock_inv s \<longleftrightarrow> spsc_inv (queue s) \<and> order_inv s"

lemma clock_inv_new: "clocked_init 2 s \<Longrightarrow> clock_inv s"
proof -
  assume "clocked_init 2 s"
  then obtain d where s: "s = clocked_new 2 d" by (auto simp: clocked_init_def)
  have "order_inv s"
    by (auto simp: s order_inv_def clocked_new_def Let_def bounded_def knows_def links_published_def LockFreeQueue_new_def
        split: if_splits)
  moreover have "spsc_inv (queue s)"
    by (auto simp: s clocked_new_def Let_def spsc_inv_def intro: queue_inv_new)
  ultimately show ?thesis by (simp add: clock_inv_def)
qed

lemma clock_inv_step:
  assumes "clocked_step {0} {1} s t" "clock_inv s"
  shows "clock_inv t"
proof -
  obtain ns where inv: "queue_inv ns (queue s)" "order_inv s" using assms(2) by (auto simp: clock_inv_def spsc_inv_def)
  have "spsc_inv (queue t)"
    using spsc_step [OF clocked_step_queue [OF assms(1)]] assms(2) by (simp add: clock_inv_def)
  moreover from assms(1) have "order_inv t"
  proof cases
    case (clocked_call_enqueue i v)
    have "order_inv (s\<lparr>queue := goto 0 (E_new v) (queue s)\<rparr>)"
      using clocked_call_enqueue(2,3) by (intro order_inv_queue [OF inv(2)]) (simp_all add: goto_def)
    then show ?thesis using clocked_call_enqueue by simp
  next
    case (clocked_call_dequeue i)
    have "order_inv (s\<lparr>queue := goto 1 D_head (queue s)\<rparr>)"
      using clocked_call_dequeue(2,3)
      by (intro order_inv_queue [OF inv(2)]) (simp_all add: goto_def del: One_nat_def)
    then show ?thesis using clocked_call_dequeue by simp
  next
    case (clocked_step_enqueue i a weak)
    then show ?thesis using producer_keeps_order [OF inv, of a weak] by simp
  next
    case (clocked_step_dequeue i stale)
    then show ?thesis using consumer_keeps_order [OF inv, of stale] by simp
  qed
  ultimately show ?thesis by (simp add: clock_inv_def)
qed

interpretation clocked: inductive_invariant "clocked_init 2" "clocked_step {0} {1}" clock_inv
  by unfold_locales (rule clock_inv_new clock_inv_step; assumption)+

subsection \<open>The destructor\<close>

text \<open>Whoever caused the last event of a kind knows of it, so the two threads together know all.\<close>

definition someone_knows :: "'v clocked \<Rightarrow> bool" where
  "someone_knows s \<longleftrightarrow> bounded s \<and> (\<forall>e. knows 0 e s \<or> knows 1 e s)"

lemma someone_knows_occur: "someone_knows s \<Longrightarrow> i \<in> {0, 1} \<Longrightarrow> someone_knows (occur i e s)"
  by (auto simp: someone_knows_def bounded_occur) (metis knows_occur)+

lemma someone_knows_learn: "someone_knows s \<Longrightarrow> (\<And>e. m e \<le> happened s e) \<Longrightarrow> someone_knows (learn i m s)"
  unfolding someone_knows_def using bounded_learn knows_learn by blast

lemma someone_knows_update [simp]:
  "someone_knows (s\<lparr>queue := q\<rparr>) = someone_knows s" "someone_knows (s\<lparr>raced := b\<rparr>) = someone_knows s"
  by (simp_all add: someone_knows_def bounded_def knows_def)

lemma someone_knows_messages:
  assumes "someone_knows s" "\<And>e. m e \<le> happened s e"
  shows "someone_knows (s\<lparr>queue := q, next_msg := (next_msg s)(a := m)\<rparr>)"
    "someone_knows (s\<lparr>queue := q, head_msg := m\<rparr>)" "someone_knows (s\<lparr>queue := q, tail_msg := m\<rparr>)"
  using assms by (auto simp: someone_knows_def bounded_def knows_def)

lemma someone_knows_uses:
  assumes s: "someone_knows s" and i: "i \<in> {0, 1}"
  shows "someone_knows (access i a s)" "someone_knows (deallocate i a s)" "someone_knows (allocate i a s)"
proof -
  have "someone_knows (check_order b s)" for b using s by (simp add: check_order_def)
  then show "someone_knows (access i a s)" "someone_knows (deallocate i a s)"
    unfolding access_def deallocate_def using i by (blast intro: someone_knows_occur)+
  have "someone_knows (s\<lparr>known := (known s)(i := (\<lambda>e. if block_of e = a then happened s e else known s i e))\<rparr>)"
    using s by (auto simp: someone_knows_def bounded_def knows_def)
  then show "someone_knows (allocate i a s)" unfolding allocate_def using i by (rule someone_knows_occur)
qed

lemma someone_knows_bounds:
  assumes "someone_knows s"
  shows "known s i e \<le> happened s e" "next_msg s a e \<le> happened s e" "head_msg s e \<le> happened s e"
    "tail_msg s e \<le> happened s e" "release_clock mo (known s i) e \<le> happened s e"
  using assms by (simp_all add: someone_knows_def bounded_def release_clock_def)

lemma someone_knows_enqueue:
  assumes s: "someone_knows s" and i: "i \<in> {0, 1}"
  shows "someone_knows (clocked_enqueue i a weak s)"
proof (cases "pcs (queue s) i")
  case (E_new v)
  then show ?thesis using someone_knows_uses(3) [OF s i]
    by (simp add: clocked_enqueue_def Let_def clock_steps_queue_update)
next
  case (E_tail n)
  then show ?thesis using someone_knows_learn [OF s someone_knows_bounds(4) [OF s]]
    by (simp add: clocked_enqueue_def Let_def clock_steps_queue_update)
next
  case (E_cas n old)
  have "someone_knows (access i old s)" using s i by (rule someone_knows_uses)
  from this someone_knows_messages(1) [OF this someone_knows_bounds(5) [OF this]] show ?thesis using s
    by (simp add: clocked_enqueue_def Let_def E_cas clock_steps_queue_update split: option.split)
next
  case (E_swing n old)
  have "someone_knows (learn i (tail_msg s) s)" using s someone_knows_bounds(4) [OF s] by (rule someone_knows_learn)
  from this someone_knows_messages(3) [OF this someone_knows_bounds(1) [OF this]] show ?thesis
    by (simp add: clocked_enqueue_def Let_def E_swing clock_steps_queue_update)
qed (use s in \<open>simp_all add: clocked_enqueue_def Let_def\<close>)

lemma someone_knows_dequeue:
  assumes s: "someone_knows s" and i: "i \<in> {0, 1}"
  shows "someone_knows (clocked_dequeue i stale s)"
proof (cases "pcs (queue s) i")
  case (D_next old)
  have a: "someone_knows (access i old s)" using s i by (rule someone_knows_uses)
  have m: "next_msg (access i old s) = next_msg s" by (simp add: access_def check_order_def)
  have "someone_knows (learn i (next_msg s old) (access i old s))"
    by (rule someone_knows_learn [OF a]) (use someone_knows_bounds(2) [OF a, of old] in \<open>simp add: m\<close>)
  then show ?thesis using s a
    by (simp add: clocked_dequeue_def Let_def D_next clock_steps_queue_update split: option.split)
next
  case (D_cas old f v)
  have "someone_knows (learn i (head_msg s) s)" using s someone_knows_bounds(3) [OF s] by (rule someone_knows_learn)
  from this someone_knows_messages(2) [OF this someone_knows_bounds(1) [OF this]] show ?thesis
    by (simp add: clocked_dequeue_def Let_def D_cas clock_steps_queue_update)
next
  case D_head
  then show ?thesis using someone_knows_learn [OF s someone_knows_bounds(3) [OF s]]
    by (simp add: clocked_dequeue_def Let_def clock_steps_queue_update)
qed (use s someone_knows_uses [OF s i] in
    \<open>simp_all add: clocked_dequeue_def Let_def clock_steps_queue_update split: option.split\<close>)

lemma someone_knows_step: "clocked_step {0} {1} s t \<Longrightarrow> someone_knows s \<Longrightarrow> someone_knows t"
  by (induction rule: clocked_step.induct) (auto intro!: someone_knows_enqueue someone_knows_dequeue)

lemma someone_knows_new: "clocked_init n s \<Longrightarrow> someone_knows s"
  by (auto simp: clocked_init_def clocked_new_def Let_def someone_knows_def bounded_def knows_def)

interpretation shared: inductive_invariant "clocked_init 2" "clocked_step {0} {1}" someone_knows
  by unfold_locales (rule someone_knows_new someone_knows_step; assumption)+

lemma join_knows_all:
  assumes "someone_knows s"
  shows "knows i e (join_threads i s)" "raced (join_threads i s) = raced s" "queue (join_threads i s) = queue s"
proof -
  have "known s i e \<le> happened s e" "known s 0 e \<le> happened s e" "known s 1 e \<le> happened s e"
      "known s 0 e = happened s e \<or> known s 1 e = happened s e"
    using assms unfolding someone_knows_def bounded_def knows_def by blast+
  then have "max (max (known s i e) (known s 0 e)) (known s 1 e) = happened s e" by linarith
  then show "knows i e (join_threads i s)" by (simp add: join_threads_def learn_def knows_def)
qed (simp_all add: join_threads_def)

lemma knower_uses:
  assumes "\<And>e. knows i e s"
  shows "knows i e (access i a s)" "raced (access i a s) = raced s"
    "knows i e (deallocate i a s)" "raced (deallocate i a s) = raced s"
proof -
  have o: "knows i e (occur i e' s)" for e' using assms by (cases "e = e'") simp_all
  show "knows i e (access i a s)" "raced (access i a s) = raced s"
    "knows i e (deallocate i a s)" "raced (deallocate i a s) = raced s"
    using assms o by (simp_all add: access_def deallocate_def check_order_def list_all_iff)
qed

lemma clocked_free_linked:
  assumes "linked (heap (queue s)) ns" "distinct ns" "\<And>e. knows i e s"
  shows "\<exists>t. clocked_free_from i (Some (hd ns)) s = Some t \<and> raced t = raced s \<and>
    heap (queue t) = (\<lambda>a. if a \<in> set ns then None else heap (queue s) a)"
  using assms
proof (induction ns arbitrary: s)
  case (Cons a ms)
  obtain nd where nd: "heap (queue s) a = Some nd" "next_of nd = (case ms of [] \<Rightarrow> None | b # _ \<Rightarrow> Some b)"
    using linked_hd Cons.prems(1) by blast
  define u where "u = (deallocate i a (access i a s))\<lparr>queue := (queue s)\<lparr>heap := (heap (queue s))(a := None)\<rparr>\<rparr>"
  have step: "clocked_free_from i (Some a) s = clocked_free_from i (next_of nd) u"
    by (subst clocked_free_from.simps) (simp add: nd(1) u_def)
  have acc: "knows i e (access i a s)" "raced (access i a s) = raced s" for e
    using knower_uses(1,2) [OF Cons.prems(3)] .
  have "raced (deallocate i a (access i a s)) = raced s" "knows i e (deallocate i a (access i a s))" for e
    using knower_uses(3,4) [OF acc(1)] acc(2) by simp_all
  then have u: "heap (queue u) = (heap (queue s))(a := None)" "raced u = raced s" "knows i e u" for e
    by (simp_all add: u_def knows_def)
  show ?case
  proof (cases ms)
    case Nil
    have "clocked_free_from i None u = Some u" by (subst clocked_free_from.simps) simp
    then have "clocked_free_from i (Some (hd (a # ms))) s = Some u" using step nd(2) Nil by simp
    then show ?thesis using u(1,2) Nil by (intro exI [of _ u]) (simp add: fun_eq_iff)
  next
    case (Cons b ms')
    have "linked (heap (queue u)) ms" "distinct ms"
      using Cons.prems(1,2) linked_other [of a ms "heap (queue s)" None] Cons by (simp_all add: u(1))
    from Cons.IH [OF this u(3)] obtain t where "clocked_free_from i (Some (hd ms)) u = Some t" "raced t = raced u"
        "heap (queue t) = (\<lambda>x. if x \<in> set ms then None else heap (queue u) x)"
      by blast
    then show ?thesis using nd(2) Cons u by (auto simp: step fun_eq_iff)
  qed
qed simp

lemma clocked_dtor_ordered:
  assumes "someone_knows s" "queue_inv ns (queue s)" "pcs (queue s) 0 = Idle" "pcs (queue s) 1 = Idle"
  shows "\<exists>t. clocked_dtor i (join_threads i s) = Some t \<and> raced t = raced s \<and> heap (queue t) = (\<lambda>_. None)"
proof -
  note q = queue_invD [OF assms(2)]
  note join = join_knows_all [OF assms(1), of i]
  have "linked (heap (queue (join_threads i s))) ns" using q(1) join(3) by simp
  from clocked_free_linked [OF this q(2) join(1), unfolded join(2,3)] obtain t where
    t: "clocked_free_from i (Some (hd ns)) (join_threads i s) = Some t" "raced t = raced s"
      "heap (queue t) = (\<lambda>a. if a \<in> set ns then None else heap (queue s) a)"
    by blast
  have "heap (queue s) a = None" if "a \<notin> set ns" for a
    using q(9) [of a] that assms(3,4) by (simp del: One_nat_def)
  then have "heap (queue t) = (\<lambda>_. None)" using t(3) by (simp add: fun_eq_iff)
  then show ?thesis using t(1,2) q(3) join(3) by (simp add: clocked_dtor_def)
qed

section \<open>Property\<close>

text \<open>C7: With one thread that enqueues and one that dequeues, no access of the lock-free queue races: each use
  of a node happens after its construction, and each deletion after every use by either thread, whatever the
  interleaving, the stale loads and the spurious failures. The release order of the compare-and-swap that
  links a node in, and the acquiring load of the next pointer, are what orders them. No deleted node is
  touched. When no call is running and the threads are joined, the destructor does not race either and
  deletes every node.\<close>

theorem lfq_accesses_are_ordered:
  assumes "reachable (clocked_init 2) (clocked_step {0} {1}) s"
  shows "\<not> raced s \<and> \<not> crashed (queue s) \<and>
    (pcs (queue s) 0 = Idle \<and> pcs (queue s) 1 = Idle \<longrightarrow>
       (\<exists>t. clocked_dtor i (join_threads i s) = Some t \<and> \<not> raced t \<and> heap (queue t) = (\<lambda>_. None)))"
proof -
  have inv: "spsc_inv (queue s)" "\<not> raced s"
    using clocked.reachable_inv [OF assms] by (simp_all add: clock_inv_def order_inv_def)
  then obtain ns where ns: "queue_inv ns (queue s)" by (auto simp: spsc_inv_def)
  then have "\<not> crashed (queue s)" by (simp add: queue_inv_def)
  then show ?thesis using inv(2) clocked_dtor_ordered [OF shared.reachable_inv [OF assms] ns] by auto
qed

text \<open>A value goes through the queue.\<close>

definition one_value :: "nat clocked" where
  "one_value =
     (let s0 = clocked_new 2 0;
          s1 = s0\<lparr>queue := goto 0 (E_new 7) (queue s0)\<rparr>;
          s2 = (clocked_enqueue 0 2 False ^^ 3) (clocked_enqueue 0 1 False s1);
          s3 = s2\<lparr>queue := goto 1 D_head (queue s2)\<rparr>
      in (clocked_dequeue 1 False ^^ 5) s3)"

lemma clocked_dequeues:
  "reachable I (clocked_step E D) s \<Longrightarrow> i \<in> D \<Longrightarrow> reachable I (clocked_step E D) ((clocked_dequeue i stale ^^ n) s)"
  by (induction n) (auto intro: reach_step clocked_step_dequeue)

lemma clocked_first_enqueue:
  assumes "reachable I (clocked_step E D) s" "i \<in> E" "pcs (queue s) i = Idle" "heap (queue s) a = None"
  shows "reachable I (clocked_step E D) (clocked_enqueue i a weak (s\<lparr>queue := goto i (E_new v) (queue s)\<rparr>))"
proof -
  have "reachable I (clocked_step E D) (s\<lparr>queue := goto i (E_new v) (queue s)\<rparr>)"
    using assms(1) by (rule reach_step) (use assms(2,3) in \<open>rule clocked_call_enqueue\<close>)
  then show ?thesis by (rule reach_step) (rule clocked_step_enqueue; use assms(2,4) in \<open>simp add: goto_def\<close>)
qed

lemmas queue_run =
  clocked_new_def LockFreeQueue_new_def exec_enqueue_def exec_dequeue_def goto_def Let_def eval_nat_numeral

lemma one_value_reachable: "reachable (clocked_init 2) (clocked_step {0} {1}) one_value"
proof -
  let ?R = "reachable (clocked_init 2) (clocked_step {0} {1}) :: nat clocked \<Rightarrow> bool"
  define s0 :: "nat clocked" where "s0 = clocked_new 2 0"
  define s1 where "s1 = clocked_enqueue 0 1 False (s0\<lparr>queue := goto 0 (E_new 7) (queue s0)\<rparr>)"
  have "?R s0" by (rule reach_init) (auto simp: s0_def clocked_init_def)
  then have s1: "?R s1" unfolding s1_def
    by (rule clocked_first_enqueue) (simp_all add: s0_def queue_run)
  have more: "?R ((clocked_enqueue 0 2 False ^^ k) s1)" if "k \<le> 3" for k
    using that
  proof (induction k)
    case 0
    then show ?case using s1 by simp
  next
    case (Suc k)
    have "k = 0 \<or> k = 1 \<or> k = 2" using Suc.prems by auto
    then have "heap (queue ((clocked_enqueue 0 2 False ^^ k) s1)) 2 = None"
      by (elim disjE) (simp_all add: s1_def s0_def queue_run)
    then have "clocked_step {0} {1} ((clocked_enqueue 0 2 False ^^ k) s1) (clocked_enqueue 0 2 False ((clocked_enqueue 0 2 False ^^ k) s1))"
      by (intro clocked_step_enqueue) simp_all
    then show ?case using Suc by (auto intro: reach_step)
  qed
  define s2 where "s2 = (clocked_enqueue 0 2 False ^^ 3) s1"
  have s2: "?R s2" unfolding s2_def by (rule more) simp
  have "pcs (queue s2) 1 = Idle" by (simp add: s2_def s1_def s0_def queue_run)
  then have "clocked_step {0} {1} s2 (s2\<lparr>queue := goto 1 D_head (queue s2)\<rparr>)"
    by (intro clocked_call_dequeue) simp_all
  with s2 have "?R (s2\<lparr>queue := goto 1 D_head (queue s2)\<rparr>)" by (rule reach_step)
  then have "?R ((clocked_dequeue 1 False ^^ 5) (s2\<lparr>queue := goto 1 D_head (queue s2)\<rparr>))"
    by (rule clocked_dequeues) simp
  then show ?thesis by (simp only: one_value_def Let_def s2_def s1_def s0_def)
qed

theorem lfq_accesses_are_ordered_witness:
  "popped (queue one_value) = [7] \<and> \<not> raced one_value \<and> \<not> crashed (queue one_value)"
proof -
  have "popped (queue one_value) = [7]" by (simp add: one_value_def queue_run)
  then show ?thesis using lfq_accesses_are_ordered [OF one_value_reachable] by blast
qed

end
