(* ===== verification/Monitors.thy ===== *)
theory Monitors
  imports Scopes
begin

text \<open>
  \<^verbatim>\<open>Mutex\<close> and \<^verbatim>\<open>CondVar\<close> of \<^verbatim>\<open>common/port_stdcxx.h\<close> as a monitor. What the mutex guards is where each thread
  is: outside, inside, waiting for a condition variable with the mutex released, or woken and about to take
  the mutex again. \<^verbatim>\<open>Wait\<close> is two steps, one up to the point where the thread sleeps and one after it was woken.
  A wait may also end without a signal.
\<close>

section \<open>Condition variables\<close>

datatype phase = Outside | Inside | Waiting nat | Woken

type_synonym monitor = "(nat \<Rightarrow> phase) guarded"

definition set_phase :: "nat \<Rightarrow> phase \<Rightarrow> monitor \<Rightarrow> monitor" where
  "set_phase t p m = m\<lparr>guarded_data := (guarded_data m)(t := p)\<rparr>"

text \<open>The \<^verbatim>\<open>unique_lock\<close> of \<^verbatim>\<open>Wait\<close> is whether it owns the mutex: it adopts the lock of the caller, gives it up
  by \<^verbatim>\<open>release\<close>, and would unlock in its destructor.\<close>

definition adopt_lock :: bool where
  "adopt_lock = True"

definition unique_lock_release :: "bool \<Rightarrow> bool" where
  "unique_lock_release owns = False"

definition unique_lock_dtor :: "nat \<Rightarrow> bool \<Rightarrow> monitor \<Rightarrow> monitor option" where
  "unique_lock_dtor t owns m = (if owns then Mutex_Unlock t m else Some m)"

definition CondVar_Wait :: "nat \<Rightarrow> nat \<Rightarrow> monitor \<Rightarrow> monitor option" where
  "CondVar_Wait t cv m = map_option (set_phase t (Waiting cv)) (Mutex_Unlock t m)"

definition CondVar_Wait_return :: "nat \<Rightarrow> monitor \<Rightarrow> monitor option" where
  "CondVar_Wait_return t m =
     do {
       m1 \<leftarrow> Mutex_Lock t m;
       m2 \<leftarrow> unique_lock_dtor t (unique_lock_release adopt_lock) m1;
       Some (set_phase t Inside m2)
     }"

text \<open>\<open>u\<close> is the thread \<^verbatim>\<open>notify_one\<close> picks.\<close>

definition CondVar_Signal :: "nat \<Rightarrow> nat \<Rightarrow> monitor \<Rightarrow> monitor" where
  "CondVar_Signal cv u m = (if guarded_data m u = Waiting cv then set_phase u Woken m else m)"

definition CondVar_SignalAll :: "nat \<Rightarrow> monitor \<Rightarrow> monitor" where
  "CondVar_SignalAll cv m =
     m\<lparr>guarded_data := (\<lambda>u. if guarded_data m u = Waiting cv then Woken else guarded_data m u)\<rparr>"

inductive monitor_step :: "monitor \<Rightarrow> monitor \<Rightarrow> bool" where
  enter: "guarded_data m t = Outside \<Longrightarrow> Mutex_Lock t m = Some m' \<Longrightarrow> monitor_step m (set_phase t Inside m')"
| leave: "guarded_data m t = Inside \<Longrightarrow> Mutex_Unlock t m = Some m' \<Longrightarrow> monitor_step m (set_phase t Outside m')"
| wait: "guarded_data m t = Inside \<Longrightarrow> CondVar_Wait t cv m = Some m' \<Longrightarrow> monitor_step m m'"
| signal: "guarded_data m u = Waiting cv \<or> (\<forall>v. guarded_data m v \<noteq> Waiting cv) \<Longrightarrow>
    monitor_step m (CondVar_Signal cv u m)"
| signal_all: "monitor_step m (CondVar_SignalAll cv m)"
| spurious: "guarded_data m t = Waiting cv \<Longrightarrow> monitor_step m (set_phase t Woken m)"
| resume: "guarded_data m t = Woken \<Longrightarrow> CondVar_Wait_return t m = Some m' \<Longrightarrow> monitor_step m m'"

definition monitor_new :: monitor where
  "monitor_new = \<lparr>holder = None, guarded_data = (\<lambda>_. Outside)\<rparr>"

definition monitor_init :: "monitor \<Rightarrow> bool" where
  "monitor_init m \<longleftrightarrow> m = monitor_new"

section \<open>The thread inside holds the mutex\<close>

definition monitor_inv :: "monitor \<Rightarrow> bool" where
  "monitor_inv m \<longleftrightarrow> (\<forall>t. guarded_data m t = Inside \<longleftrightarrow> holder m = Some t)"

lemmas monitor_defs =
  Mutex_Lock_def Mutex_Unlock_def CondVar_Wait_def CondVar_Wait_return_def CondVar_Signal_def CondVar_SignalAll_def
  set_phase_def unique_lock_dtor_def unique_lock_release_def

lemma monitor_inv_step: "monitor_step m m' \<Longrightarrow> monitor_inv m \<Longrightarrow> monitor_inv m'"
  by (induction rule: monitor_step.induct)
    (auto simp: monitor_inv_def monitor_defs split: if_splits Option.bind_splits, (metis phase.distinct)+)

interpretation monitor: inductive_invariant monitor_init monitor_step monitor_inv
proof unfold_locales
  show "monitor_inv m" if "monitor_init m" for m
    using that by (simp add: monitor_init_def monitor_new_def monitor_inv_def)
qed (rule monitor_inv_step)

lemma holder_may_leave:
  assumes "monitor_inv m" "guarded_data m t = Inside"
  shows "Mutex_Unlock t m \<noteq> None" "CondVar_Wait t cv m \<noteq> None"
  using assms by (simp_all add: monitor_inv_def monitor_defs)

lemma woken_takes_mutex:
  assumes "holder m = None"
  shows "\<exists>m'. CondVar_Wait_return t m = Some m' \<and> holder m' = Some t \<and> guarded_data m' t = Inside"
  using assms by (simp add: monitor_defs)

lemma signal_wakes:
  "guarded_data m u = Waiting cv \<Longrightarrow> guarded_data (CondVar_Signal cv u m) = (guarded_data m)(u := Woken)"
  "guarded_data (CondVar_SignalAll cv m) v = (if guarded_data m v = Waiting cv then Woken else guarded_data m v)"
  "holder (CondVar_Signal cv u m) = holder m" "holder (CondVar_SignalAll cv m) = holder m"
  by (simp_all add: monitor_defs)

text \<open>C18: Whatever the threads do, a thread is between \<^verbatim>\<open>Lock\<close> (or the return of \<^verbatim>\<open>Wait\<close>) and \<^verbatim>\<open>Unlock\<close> (or the call
  of \<^verbatim>\<open>Wait\<close>) exactly when it holds the mutex, so never two of them. No call there unlocks a mutex it does not
  hold. A woken thread that finds the mutex free returns from \<^verbatim>\<open>Wait\<close> with the mutex, and \<^verbatim>\<open>SignalAll\<close> wakes
  every thread that waits for the condition variable, and no other.
\<close>

theorem monitor_excludes:
  assumes "reachable monitor_init monitor_step m"
  shows "(guarded_data m t = Inside \<longleftrightarrow> holder m = Some t) \<and>
    (guarded_data m t = Inside \<longrightarrow> Mutex_Unlock t m \<noteq> None \<and> CondVar_Wait t cv m \<noteq> None) \<and>
    (guarded_data m t = Woken \<and> holder m = None \<longrightarrow>
       (\<exists>m'. CondVar_Wait_return t m = Some m' \<and> holder m' = Some t \<and> guarded_data m' t = Inside)) \<and>
    (guarded_data (CondVar_SignalAll cv m) t =
       (if guarded_data m t = Waiting cv then Woken else guarded_data m t))"
proof -
  have inv: "monitor_inv m" using assms by (rule monitor.reachable_inv)
  then have "guarded_data m t = Inside \<longleftrightarrow> holder m = Some t" by (simp add: monitor_inv_def)
  then show ?thesis using holder_may_leave [OF inv] woken_takes_mutex signal_wakes(2) by simp
qed

text \<open>Thread 1 waits for the condition variable 9 and is signalled by thread 2, which still holds the mutex.\<close>

definition signalled_monitor :: monitor where
  "signalled_monitor = \<lparr>holder = Some 2, guarded_data = (\<lambda>_. Outside)(1 := Woken, 2 := Inside)\<rparr>"

lemma signalled_monitor_reachable: "reachable monitor_init monitor_step signalled_monitor"
proof -
  have "reachable monitor_init monitor_step monitor_new" by (rule reach_init) (simp add: monitor_init_def)
  then have "reachable monitor_init monitor_step (set_phase 1 Inside (monitor_new\<lparr>holder := Some 1\<rparr>))"
    by (rule reach_step) (rule monitor_step.enter; simp add: monitor_new_def Mutex_Lock_def)
  then have "reachable monitor_init monitor_step (set_phase 1 (Waiting 9) monitor_new)"
    by (rule reach_step) (rule monitor_step.wait [where t = 1]; simp add: monitor_new_def monitor_defs)
  then have "reachable monitor_init monitor_step (set_phase 2 Inside ((set_phase 1 (Waiting 9) monitor_new)\<lparr>holder := Some 2\<rparr>))"
    by (rule reach_step) (rule monitor_step.enter; simp add: monitor_new_def monitor_defs)
  then have "reachable monitor_init monitor_step
      (CondVar_Signal 9 1 (set_phase 2 Inside ((set_phase 1 (Waiting 9) monitor_new)\<lparr>holder := Some 2\<rparr>)))"
    by (rule reach_step) (rule monitor_step.signal; simp add: monitor_new_def monitor_defs)
  moreover have "CondVar_Signal 9 1 (set_phase 2 Inside ((set_phase 1 (Waiting 9) monitor_new)\<lparr>holder := Some 2\<rparr>)) =
      signalled_monitor"
    by (simp add: monitor_new_def monitor_defs signalled_monitor_def fun_upd_twist)
  ultimately show ?thesis by simp
qed

theorem monitor_excludes_witness:
  "Mutex_Unlock 2 signalled_monitor \<noteq> None \<and> guarded_data (CondVar_SignalAll 9 signalled_monitor) 1 = Woken"
  using monitor_excludes [OF signalled_monitor_reachable, of 2 9] monitor_excludes [OF signalled_monitor_reachable, of 1 9]
  by (simp add: signalled_monitor_def)

end
