(* ===== verification/Commit_Monitor.thy ===== *)
theory Commit_Monitor
  imports Ping_Pong Monitors
begin

text \<open>
  The group commit of \<^verbatim>\<open>example-ping-pong-batch/main.cc\<close> runs on the monitor of \<^verbatim>\<open>common/port_stdcxx.h\<close>: each
  step of a writer is made of steps of the monitor, where the condition variable of writer \<open>t\<close> has number
  \<open>t\<close>. What \<open>Monitors\<close> shows of every client of the monitor so holds of the writers.
\<close>

section \<open>The monitor inside the database\<close>

definition writer_phase :: "db \<Rightarrow> nat \<Rightarrow> phase" where
  "writer_phase d t =
     (case wpc d t of
        AtLoop \<Rightarrow> Inside
      | Blocked \<Rightarrow> if signalled d t then Woken else Waiting t
      | _ \<Rightarrow> Outside)"

definition db_monitor :: "db \<Rightarrow> monitor" where
  "db_monitor d = \<lparr>holder = mu d, guarded_data = writer_phase d\<rparr>"

text \<open>While the leader notifies it is inside, though its program counter is still before \<^verbatim>\<open>mu_.Lock()\<close>.\<close>

definition notifying :: "nat \<Rightarrow> db \<Rightarrow> monitor" where
  "notifying t d = set_phase t Inside (db_monitor d)"

lemmas db_monitor_defs = db_monitor_def writer_phase_def fun_eq_iff monitor_defs

lemma Signal_monitor:
  assumes "wpc d t \<noteq> Blocked"
  shows "monitor_step\<^sup>*\<^sup>* (notifying t d) (notifying t (Signal u d))"
proof (cases "wpc d u = Blocked \<and> \<not> signalled d u")
  case True
  then have "u \<noteq> t" using assms by auto
  then have "notifying t (Signal u d) = CondVar_Signal u u (notifying t d)" and
      "guarded_data (notifying t d) u = Waiting u"
    using True by (auto simp: notifying_def Signal_def db_monitor_defs)
  then show ?thesis using monitor_step.signal [of "notifying t d" u u] by auto
next
  case False
  then have "writer_phase (Signal u d) = writer_phase d" "mu (Signal u d) = mu d"
    by (auto simp: Signal_def writer_phase_def fun_eq_iff)
  then have "notifying t (Signal u d) = notifying t d" by (simp add: notifying_def db_monitor_def)
  then show ?thesis by simp
qed

lemma writer_phase_mu [simp]: "writer_phase (d\<lparr>mu := x\<rparr>) = writer_phase d"
  by (simp add: writer_phase_def fun_eq_iff)

lemma Signal_keeps: "wpc (Signal u d) = wpc d" "mu (Signal u d) = mu d"
  by (simp_all add: Signal_def)

lemma db_monitor_cong: "mu d' = mu d \<Longrightarrow> wpc d' = wpc d \<Longrightarrow> signalled d' = signalled d \<Longrightarrow> db_monitor d' = db_monitor d"
  by (simp add: db_monitor_def writer_phase_def fun_eq_iff)

lemma notify_loop_monitor:
  "notify_loop t last_writer st ws d = Some d' \<Longrightarrow> wpc d t \<noteq> Blocked \<Longrightarrow>
     wpc d' = wpc d \<and> mu d' = mu d \<and> monitor_step\<^sup>*\<^sup>* (notifying t d) (notifying t d')"
proof (induction ws arbitrary: d)
  case (Cons ready rest)
  define d0 where "d0 = d\<lparr>writers := rest, popped := popped d @ [ready]\<rparr>"
  define d1 where "d1 = d0\<lparr>w_done := (w_done d0)(ready := True), w_status := (w_status d0)(ready := st)\<rparr>"
  define d2 where "d2 = (if ready \<noteq> t then Signal ready d1 else d0)"
  have same: "db_monitor d0 = db_monitor d" "db_monitor d1 = db_monitor d"
    by (rule db_monitor_cong; simp add: d0_def d1_def)+
  have pc: "wpc d2 = wpc d" "mu d2 = mu d" by (simp_all add: d2_def d1_def d0_def Signal_keeps)
  have "monitor_step\<^sup>*\<^sup>* (notifying t d1) (notifying t (Signal ready d1))"
    using Cons.prems(2) by (intro Signal_monitor) (simp add: d1_def d0_def)
  then have one: "monitor_step\<^sup>*\<^sup>* (notifying t d) (notifying t d2)"
    by (simp add: d2_def notifying_def same)
  have loop: "(if ready = last_writer then Some d2 else notify_loop t last_writer st rest d2) = Some d'"
    using Cons.prems(1) unfolding notify_loop.simps Let_def d2_def d1_def d0_def .
  show ?case
  proof (cases "ready = last_writer")
    case True
    then show ?thesis using loop one pc by simp
  next
    case False
    then show ?thesis using Cons.IH [of d2] loop one pc Cons.prems(2) by (auto intro: rtranclp_trans)
  qed
qed simp

lemma notify_monitor:
  assumes "wpc d t = Relock l" "mu d = None" "notify_loop t l OK (writers d) (Lock t d) = Some d1"
  shows "monitor_step\<^sup>*\<^sup>* (db_monitor d) (db_monitor ((Unlock (signal_front d1))\<lparr>wpc := (wpc d1)(t := Returned OK)\<rparr>))"
proof -
  have lock: "monitor_step (db_monitor d) (notifying t (Lock t d))"
    using monitor_step.enter [of "db_monitor d" t "db_monitor d\<lparr>holder := Some t\<rparr>"] assms(1,2)
    by (simp add: notifying_def Lock_def db_monitor_def writer_phase_def Mutex_Lock_def)
  have loop: "wpc d1 = wpc d" "mu d1 = Some t" "monitor_step\<^sup>*\<^sup>* (notifying t (Lock t d)) (notifying t d1)"
    using notify_loop_monitor [OF assms(3)] assms(1) by (simp_all add: Lock_def)
  define d2 where "d2 = signal_front d1"
  have front: "wpc d2 = wpc d" "mu d2 = Some t" "monitor_step\<^sup>*\<^sup>* (notifying t d1) (notifying t d2)"
    using Signal_monitor [of d1 t] loop(1,2) assms(1)
    by (auto simp: d2_def signal_front_def Signal_keeps split: list.split)
  define d3 where "d3 = (Unlock d2)\<lparr>wpc := (wpc d1)(t := Returned OK)\<rparr>"
  have "guarded_data (notifying t d2) t = Inside" by (simp add: notifying_def set_phase_def)
  moreover have "Mutex_Unlock t (notifying t d2) = Some (notifying t d2\<lparr>holder := None\<rparr>)"
    by (simp add: notifying_def set_phase_def db_monitor_def Mutex_Unlock_def front(2))
  moreover have "set_phase t Outside (notifying t d2\<lparr>holder := None\<rparr>) = db_monitor d3"
    by (simp add: d3_def Unlock_def notifying_def db_monitor_def set_phase_def writer_phase_def fun_eq_iff front(1) loop(1))
  ultimately have unlock: "monitor_step (notifying t d2) (db_monitor d3)"
    using monitor_step.leave [of "notifying t d2" t] by simp
  have "monitor_step\<^sup>*\<^sup>* (db_monitor d) (db_monitor d3)"
    using converse_rtranclp_into_rtranclp [OF lock rtranclp_trans [OF loop(3) front(3)]] unlock
    by (rule rtranclp.rtrancl_into_rtrancl)
  then show ?thesis by (simp add: d3_def d2_def)
qed

section \<open>Every step\<close>

lemma db_step_monitor:
  assumes "db_step d d'"
  shows "monitor_step\<^sup>*\<^sup>* (db_monitor d) (db_monitor d')"
  using assms
proof cases
  case (enter t)
  then have "db_monitor d' = set_phase t Inside (db_monitor d\<lparr>holder := Some t\<rparr>)"
    by (auto simp: Lock_def db_monitor_defs)
  then show ?thesis using enter monitor_step.enter [of "db_monitor d" t]
    by (auto simp: db_monitor_def writer_phase_def Mutex_Lock_def)
next
  case (wait t)
  then have "CondVar_Wait t t (db_monitor d) = Some (db_monitor d')" "guarded_data (db_monitor d) t = Inside"
    by (auto simp: Wait_def Unlock_def db_monitor_defs)
  then show ?thesis using monitor_step.wait by blast
next
  case (wake t)
  then have "CondVar_Wait_return t (db_monitor d) = Some (db_monitor d')" "guarded_data (db_monitor d) t = Woken"
    by (auto simp: Lock_def db_monitor_defs)
  then show ?thesis using monitor_step.resume by blast
next
  case (spurious_wake t)
  then have "CondVar_Wait_return t (set_phase t Woken (db_monitor d)) = Some (db_monitor d')"
      "guarded_data (db_monitor d) t = Waiting t" "guarded_data (set_phase t Woken (db_monitor d)) t = Woken"
    by (auto simp: Lock_def db_monitor_defs)
  then show ?thesis using monitor_step.spurious monitor_step.resume
    by (meson converse_rtranclp_into_rtranclp r_into_rtranclp)
next
  case (return_done t)
  then have "db_monitor d' = set_phase t Outside (db_monitor d\<lparr>holder := None\<rparr>)"
    by (auto simp: Unlock_def db_monitor_defs)
  then show ?thesis using return_done monitor_step.leave [of "db_monitor d" t]
    by (auto simp: db_monitor_def writer_phase_def Mutex_Unlock_def)
next
  case (lead t d1 l)
  then have "mu d1 = mu d" "wpc d1 = wpc d" "signalled d1 = signalled d"
    by (auto simp: BuildBatchGroup_def split: list.splits)
  then have "db_monitor d' = set_phase t Outside (db_monitor d\<lparr>holder := None\<rparr>)"
    using lead by (auto simp: Unlock_def db_monitor_defs)
  then show ?thesis using lead monitor_step.leave [of "db_monitor d" t]
    by (auto simp: db_monitor_def writer_phase_def Mutex_Unlock_def)
next
  case (write_io t l)
  then have "db_monitor d' = db_monitor d" by (auto simp: db_monitor_defs)
  then show ?thesis by simp
next
  case (notify t l d1)
  then show ?thesis using notify_monitor by simp
qed

lemma db_monitor_reachable:
  "reachable (db_init ops) db_step d \<Longrightarrow> reachable monitor_init monitor_step (db_monitor d)"
proof (induction rule: reachable.induct)
  case (reach_init d)
  then have "db_monitor d = monitor_new"
    by (simp add: db_init_def db_monitor_def monitor_new_def writer_phase_def fun_eq_iff)
  then show ?case by (simp add: monitor_init_def reachable.reach_init)
next
  case (reach_step d d')
  show ?case by (rule reachable_rtranclp [OF reach_step.IH db_step_monitor [OF reach_step.hyps(2)]])
qed

text \<open>C11: The database is a client of the monitor: in every run each step of a writer is a sequence of steps of
  \<^verbatim>\<open>Mutex\<close> and \<^verbatim>\<open>CondVar\<close> (none for the write to the log), from one reachable state of the monitor to another. So the
  writers lock, unlock, wait and signal only where that is allowed.
\<close>

theorem group_commit_runs_on_monitor:
  assumes "reachable (db_init ops) db_step d" "db_step d d'"
  shows "reachable monitor_init monitor_step (db_monitor d) \<and>
    monitor_step\<^sup>*\<^sup>* (db_monitor d) (db_monitor d')"
  using db_monitor_reachable [OF assms(1)] db_step_monitor [OF assms(2)] by simp

text \<open>The first writer of the driver enters.\<close>

theorem group_commit_runs_on_monitor_witness:
  "\<exists>d'. db_step TestPingPongBatch d' \<and> reachable monitor_init monitor_step (db_monitor TestPingPongBatch) \<and>
     monitor_step\<^sup>*\<^sup>* (db_monitor TestPingPongBatch) (db_monitor d')"
proof -
  have init: "reachable (db_init driver_ops) db_step TestPingPongBatch" using driver_init by (rule reach_init)
  have idle: "wpc TestPingPongBatch 0 = Idle" "mu TestPingPongBatch = None"
    using driver_init by (simp_all add: db_init_def)
  note enter = db_step.enter [OF this]
  note r = group_commit_runs_on_monitor [OF init enter]
  show ?thesis using enter conjunct1 [OF r] conjunct2 [OF r] by (intro exI conjI)
qed

end
