(* ===== verification/Weights.thy ===== *)
theory Weights
  imports Complex_Main
begin

text \<open>
  The weight literal of \<^verbatim>\<open>example-udl/main.cc\<close>. A long double is a significand and an exponent of two; a
  product is rounded to the nearest number with \<open>p\<close> significant bits, ties to the even one. \<open>p\<close> is the
  \<^verbatim>\<open>LDBL_MANT_DIG\<close> of the platform, 64 for the extended format of x86. The range of the exponent is not bounded.
\<close>

section \<open>Long doubles\<close>

type_synonym long_double = "int \<times> int"

fun significant_bits :: "nat \<Rightarrow> nat" where
  "significant_bits n = (if n = 0 then 0 else Suc (significant_bits (n div 2)))"

declare significant_bits.simps [simp del]

text \<open>The integer nearest to \<open>a / 2 ^ k\<close>.\<close>

definition half_even :: "int \<Rightarrow> nat \<Rightarrow> int" where
  "half_even a k =
     (let q = a div 2 ^ k; r = a mod 2 ^ k
      in if 2 * r < 2 ^ k \<or> 2 * r = 2 ^ k \<and> even q then q else q + 1)"

definition round_long_double :: "nat \<Rightarrow> long_double \<Rightarrow> long_double" where
  "round_long_double p x =
     (let k = significant_bits (nat \<bar>fst x\<bar>) - p in (half_even (fst x) k, snd x + int k))"

definition long_double_times :: "nat \<Rightarrow> long_double \<Rightarrow> long_double \<Rightarrow> long_double" where
  "long_double_times p x y = round_long_double p (fst x * fst y, snd x + snd y)"

definition long_double_eq :: "long_double \<Rightarrow> long_double \<Rightarrow> bool" where
  "long_double_eq x y \<longleftrightarrow>
     (let d = min (snd x) (snd y) in fst x * 2 ^ nat (snd x - d) = fst y * 2 ^ nat (snd y - d))"

definition operator_kg :: "nat \<Rightarrow> long_double \<Rightarrow> long_double" where
  "operator_kg p n = long_double_times p n (1000, 0)"

text \<open>\<open>0.5\<close> is one half exactly.\<close>

definition TestKGUDLFunctional :: "nat \<Rightarrow> bool" where
  "TestKGUDLFunctional p = long_double_eq (operator_kg p (1, -1)) (500, 0)"

section \<open>The value of a weight\<close>

definition value_of_ld :: "long_double \<Rightarrow> real" where
  "value_of_ld x = of_int (fst x) * 2 powi snd x"

lemma half_even_0 [simp]: "half_even a 0 = a"
  by (simp add: half_even_def)

lemma half_even_near: "2 * \<bar>half_even a k * 2 ^ k - a\<bar> \<le> 2 ^ k"
proof -
  define q r where "q = a div 2 ^ k" and "r = a mod 2 ^ k"
  have a: "a = q * 2 ^ k + r" unfolding q_def r_def by (rule div_mult_mod_eq [symmetric])
  have r: "0 \<le> r" "r < 2 ^ k" by (simp_all add: r_def)
  have "half_even a k = q \<and> 2 * r \<le> 2 ^ k \<or> half_even a k = q + 1 \<and> 2 ^ k \<le> 2 * r"
    by (auto simp: half_even_def Let_def q_def r_def)
  then show ?thesis using a r by (auto simp: algebra_simps)
qed

lemma significant_bits_le: "n < 2 ^ p \<Longrightarrow> significant_bits n \<le> p"
proof (induction p arbitrary: n)
  case (Suc p)
  then have "n div 2 < 2 ^ p" by auto
  then show ?case using Suc.IH by (subst significant_bits.simps) simp
qed (simp add: significant_bits.simps)

lemma value_round:
  "value_of_ld (round_long_double p x) - value_of_ld x =
     of_int (half_even (fst x) (significant_bits (nat \<bar>fst x\<bar>) - p) * 2 ^ (significant_bits (nat \<bar>fst x\<bar>) - p) - fst x) *
       2 powi snd x"
  by (simp add: round_long_double_def Let_def value_of_ld_def power_int_add algebra_simps)

text \<open>
  The weight in grams is a thousand times the one in kilograms up to half a unit of the last of \<open>p\<close> bits,
  and exact when the product has no more than \<open>p\<close> bits.
\<close>

theorem kg_is_nearest:
  fixes m e :: int and p :: nat
  defines "k \<equiv> significant_bits (nat \<bar>m * 1000\<bar>) - p"
  shows "\<bar>value_of_ld (operator_kg p (m, e)) - 1000 * value_of_ld (m, e)\<bar> \<le> 2 ^ k / 2 * 2 powi e \<and>
    (\<bar>m * 1000\<bar> < 2 ^ p \<longrightarrow> value_of_ld (operator_kg p (m, e)) = 1000 * value_of_ld (m, e))"
proof -
  define d where "d = half_even (m * 1000) k * 2 ^ k - m * 1000"
  have diff: "value_of_ld (operator_kg p (m, e)) - 1000 * value_of_ld (m, e) = of_int d * 2 powi e"
    using value_round [of p "(m * 1000, e)"]
    by (simp add: operator_kg_def long_double_times_def k_def d_def value_of_ld_def algebra_simps)
  have "2 * \<bar>d\<bar> \<le> 2 ^ k" unfolding d_def by (rule half_even_near)
  then have "of_int (2 * \<bar>d\<bar>) \<le> (2 ^ k :: real)" by (metis of_int_le_iff of_int_numeral of_int_power)
  then have "\<bar>of_int d :: real\<bar> \<le> 2 ^ k / 2" by simp
  then have "\<bar>of_int d * 2 powi e\<bar> \<le> 2 ^ k / 2 * (2 powi e :: real)"
    by (simp add: abs_mult mult_right_mono)
  moreover have "d = 0" if "\<bar>m * 1000\<bar> < 2 ^ p"
  proof -
    have "nat \<bar>m * 1000\<bar> < 2 ^ p" using that by (simp add: nat_less_iff)
    then have "k = 0" using significant_bits_le unfolding k_def by simp
    then show ?thesis by (simp add: d_def)
  qed
  ultimately show ?thesis using diff by auto
qed

theorem TestKGUDLFunctional_passes: "10 \<le> p \<Longrightarrow> TestKGUDLFunctional p"
proof -
  assume "10 \<le> p"
  then have "(1000 :: nat) < 2 ^ p" using power_increasing [of 10 p "2 :: nat"] by simp
  then have "significant_bits 1000 \<le> p" by (rule significant_bits_le)
  then show ?thesis
    by (simp add: TestKGUDLFunctional_def operator_kg_def long_double_times_def round_long_double_def long_double_eq_def)
qed

end
