(* ===== verification/Mains.thy ===== *)
theory Mains
  imports Slices Sections Fair_Queue Block_List Free_Space Dynamic_Bits Small_Examples Weights Lfq_Driver Forwarding
    Map_List Layout Tmp_Samples
begin

text \<open>
  The \<^verbatim>\<open>main\<close> functions of the examples whose tests assert something or may be undefined, composed of the
  models of the tests in the order of the calls. The result is the exit code; \<open>None\<close> is a failed assertion or
  undefined behaviour. Where a test depends on the clock, an address or the order of a hash table, that is an
  argument.
\<close>

section \<open>The programs\<close>

definition main_bitset :: "int option" where
  "main_bitset = do { assert_that TestMetaDataLayout; assert_that TestMetaDataLayoutV1; Some 0 }"

definition main_blocklist :: "(u64 \<times> u64 \<times> u64) list \<Rightarrow> (u64 \<times> u64 \<times> u64) list \<Rightarrow> int option" where
  "main_blocklist ts ts' =
     do { assert_that (TestBlockListWithoutBlockPolicy ts); assert_that (TestBlockListFunctional ts'); Some 0 }"

definition main_dynamic_bits :: "int option" where
  "main_dynamic_bits =
     do { b \<leftarrow> TestDynamicBitSetFunctional; assert_that b; b \<leftarrow> TestDynamicBitSetFindNext; assert_that b; Some 0 }"

definition main_fq :: "int option" where
  "main_fq = do { assert_that TestFairQueueFunctional; Some 0 }"

definition main_str_utils :: "int option" where
  "main_str_utils = do { assert_that TestTrimString; TestIniParser; TestParseIniFile; Some 0 }"

text \<open>\<open>p\<close> is the number of significant bits of a long double.\<close>

definition main_udl :: "nat \<Rightarrow> int option" where
  "main_udl p =
     do { assert_that TestNumUDLFunctional; assert_that TestStrUDLFunctional; assert_that (TestKGUDLFunctional p); Some 0 }"

text \<open>The lines the program prints, and the exit code at the end of \<^verbatim>\<open>main\<close>.\<close>

definition main_perfect_forwarding :: "(string list \<times> int) option" where
  "main_perfect_forwarding = do { ls \<leftarrow> TestPerfectForwarding; ls' \<leftarrow> TestPerfectForwarding1; Some (ls @ ls', 0) }"

text \<open>The second test of the queue has threads: the state they start from.\<close>

definition main_lfq :: "lfq_driver option" where
  "main_lfq = do { TestLFQFunctional; Some TestLFQConcurrently }"

text \<open>\<open>rest\<close> is what \<^verbatim>\<open>std::remove_if\<close> leaves at the end; \<open>bucket\<close>, \<open>bs\<close> and \<open>arrange\<close> are the hash tables; \<open>f\<close>, \<open>b\<close>,
  \<open>fp\<close> and \<open>b'\<close> the addresses of the structures, \<open>str\<close> and \<open>vec\<close> the layouts of a string and a vector.
  \<^verbatim>\<open>TestStructEnum\<close> declares a structure and does nothing.\<close>

definition TestTmp ::
  "u32 list \<Rightarrow> (kv \<Rightarrow> kv list list \<Rightarrow> kv list list) \<Rightarrow> kv list list \<Rightarrow> ((u32 \<times> u32) list \<Rightarrow> (u32 \<times> u32) list) \<Rightarrow>
   u64 \<Rightarrow> u64 \<Rightarrow> nat \<Rightarrow> u64 \<Rightarrow> ctype \<Rightarrow> ctype \<Rightarrow> unit option" where
  "TestTmp rest bucket bs arrange f b fp b' str vec =
     do {
       TestStdSet;
       Some TestWrapperCallback;
       Some TestCompare;
       TestXX rest;
       Some (TestIterateUnorderedMapByBucket bucket bs);
       Some (TestMapIterator arrange);
       Some TestLambdaCapture;
       TestLambdaCapture1 \<lparr>fp_value = None, var_u = 0, md_u = 0, printed = []\<rparr>;
       TestIterateTemplate;
       TestFillup;
       TestOffsetOf f b;
       assert_that (TestIndexWithArray fp);
       assert_that (TestCast str b');
       Some (TestSizeofWithVector vec);
       Some TestBindPrivateFunc;
       Some TestStructDefault;
       Some ()
     }"

definition main_tmp where
  "main_tmp rest bucket bs arrange f b fp b' str vec =
     map_option (\<lambda>_. 0 :: int) (TestTmp rest bucket bs arrange f b fp b' str vec)"

section \<open>They return 0\<close>

lemma TestTmp_returns:
  "TestTmp rest bucket bs arrange f b fp b' (Struct [uint64, uint64, uint64, uint64]) (Struct [uint64, uint64, uint64]) = Some ()"
proof -
  obtain s where s: "TestLambdaCapture1 \<lparr>fp_value = None, var_u = 0, md_u = 0, printed = []\<rparr> = Some s"
    using TestLambdaCapture1_prints by (auto simp: map_option_eq_Some)
  obtain pieces where pieces: "TestFillup = Some pieces" using TestFillup_returns by blast
  show ?thesis unfolding TestTmp_def pieces
    using s offset_drivers_pass [of f b fp] offset_drivers_pass [of f b' fp]
    by (simp add: samples_print TestXX_prints assert_that_def)
qed

text \<open>
  Every program runs to its end: no assertion of a test fails and no test is undefined, whatever the clock
  reads, wherever the structures lie and however the hash tables are arranged; for the fair queue this is
  granted that the storage of a removed element keeps its value, without which its first pop is undefined.
\<close>

theorem mains_return:
  "main_bitset = Some 0" "main_blocklist ts ts' = Some 0" "main_dynamic_bits = Some 0" "main_fq = Some 0"
  "main_str_utils = Some 0" "main_udl 64 = Some 0" "main_lfq = Some TestLFQConcurrently"
  "\<exists>ls. main_perfect_forwarding = Some (ls, 0)"
  "main_tmp rest bucket bs arrange f b fp b' (Struct [uint64, uint64, uint64, uint64]) (Struct [uint64, uint64, uint64]) = Some 0"
proof -
  show "main_bitset = Some 0"
    by (simp add: main_bitset_def assert_that_def TestMetaDataLayout_passes TestMetaDataLayoutV1_passes)
  show "main_blocklist ts ts' = Some 0"
    by (simp add: main_blocklist_def assert_that_def TestBlockListFunctional_passes TestBlockListWithoutBlockPolicy_def
        GetBlockList_def BlockList_new_def Let_def)
  show "main_dynamic_bits = Some 0"
    by (simp add: main_dynamic_bits_def assert_that_def TestDynamicBitSetFunctional_passes TestDynamicBitSetFindNext_passes)
  show "main_fq = Some 0" by (simp add: main_fq_def assert_that_def TestFairQueueFunctional_passes)
  show "main_str_utils = Some 0"
    by (simp add: main_str_utils_def assert_that_def TestTrimString_passes TestIniParser_passes TestParseIniFile_passes)
  show "main_udl 64 = Some 0"
    by (simp add: main_udl_def assert_that_def udl_drivers_pass TestKGUDLFunctional_passes)
  show "main_lfq = Some TestLFQConcurrently" by (simp add: main_lfq_def TestLFQFunctional_passes)
  obtain ls where ls: "TestPerfectForwarding = Some ls" using TestPerfectForwarding_output(1) by auto
  show "\<exists>ls. main_perfect_forwarding = Some (ls, 0)"
    unfolding main_perfect_forwarding_def ls TestPerfectForwarding_output(2) by simp
  show "main_tmp rest bucket bs arrange f b fp b' (Struct [uint64, uint64, uint64, uint64]) (Struct [uint64, uint64, uint64]) = Some 0"
    by (simp add: main_tmp_def TestTmp_returns)
qed

end
