(* ===== verification/Spec2Isabelle.thy ===== *)
theory Spec2Isabelle
  imports Bits Slices Coding Statuses Write_Batch Group_Commit Lru Fair_Queue Time_Wheel Block_List Top_K
    Free_Space Dynamic_Bits Sections Writable_File Lock_Free_Queue Map_List Memory_Order Ping_Pong Small_Examples
    Group_Commit_Liveness Lfq_Driver Forwarding Layout Scopes Tmp_Samples
    Lfq_Publication Monitors Commit_Monitor Weights Mains
begin

text \<open>
  A verification library for the C++ examples of this repository: the shared code under \<^verbatim>\<open>src/common\<close> and
  one directory \<^verbatim>\<open>src/example-*\<close> for each example.

  \<^bold>\<open>Parts of the program, and the theories that model them.\<close>

  \<^item> \<open>Prelude\<close>: names of the machine types; reachable states and the locale \<open>inductive_invariant\<close>; the
    locales of the contracts that several components share: \<open>codec\<close> (what is encoded is decoded, and
    the rest of the input is left), \<open>op_refinement\<close> (runs of operations refine runs of a specification),
    \<open>partial_refinement\<close> (the same where the specification may refuse an operation), \<open>fifo_queue\<close> (first in, first out). \<open>Top_K\<close> and \<open>Free_Space\<close> have locales of their own for a queue by
    priority and for a pair of searches.
  \<^item> \<open>Bits\<close>: \<^verbatim>\<open>common/align.h\<close>, \<^verbatim>\<open>common/bitopts.h\<close>, the size literals of \<^verbatim>\<open>example-udl/main.cc\<close>.
  \<^item> \<open>Slices\<close>: \<^verbatim>\<open>common/slice.h\<close> and the ordered set of \<^verbatim>\<open>example-algorithm/main.cc\<close>.
  \<^item> \<open>Coding\<close>: \<^verbatim>\<open>common/coding.h\<close>, \<^verbatim>\<open>common/coding.cc\<close>, over slices.
  \<^item> \<open>Statuses\<close>: \<^verbatim>\<open>common/status.h\<close>, \<^verbatim>\<open>common/status.cc\<close>: the byte layout of a status, and the ownership
    of its array over sequences of constructions, copies, moves, assignments and destructions.
  \<^item> \<open>Write_Batch\<close>: \<^verbatim>\<open>common/dbformat.h\<close> and \<^verbatim>\<open>example-ping-pong-batch/write_batch.*\<close>, over the codecs;
    \<open>Group_Commit\<close>: \<^verbatim>\<open>example-ping-pong-batch/main.cc\<close>, the writers that commit each other's batches, over
    batches and statuses; \<open>Ping_Pong\<close>: its drivers; \<open>Group_Commit_Liveness\<close>: how long the calls take.
    \<open>Monitors\<close>: the mutex and the condition variable of \<^verbatim>\<open>common/port_stdcxx.h\<close>, and \<open>Commit_Monitor\<close>: the group
    commit runs on them.
  \<^item> \<open>Lru\<close>: \<^verbatim>\<open>common/lru.h\<close>. \<open>Fair_Queue\<close>: \<^verbatim>\<open>example-fq\<close>. \<open>Time_Wheel\<close>: \<^verbatim>\<open>example-time-wheel\<close>.
    \<open>Block_List\<close>: \<^verbatim>\<open>example-blocklist\<close>. \<open>Top_K\<close>: \<^verbatim>\<open>example-minheap-topk\<close>.
  \<^item> \<open>Free_Space\<close>: \<^verbatim>\<open>example-bitset/main.cc\<close>. \<open>Dynamic_Bits\<close>: \<^verbatim>\<open>example-dynamic-bits\<close>, over \<open>Bits\<close>.
  \<^item> \<open>Sections\<close>: \<^verbatim>\<open>common/strutils.h\<close> and \<^verbatim>\<open>example-str-utils\<close>, the ini parser.
  \<^item> \<open>Writable_File\<close>: \<^verbatim>\<open>example-writablefile\<close>, over slices and statuses.
  \<^item> \<open>Lock_Free_Queue\<close>: \<^verbatim>\<open>example-lfq/main.cc\<close>, and \<open>Lfq_Driver\<close> its two threads; \<open>Lfq_Publication\<close> adds to
    every step the clocks that say which access happens before which. \<open>Memory_Order\<close>: \<^verbatim>\<open>example-memory-ordered/main.cc\<close>.
  \<^item> \<open>Map_List\<close>: \<^verbatim>\<open>example-tmp/tmp.*\<close> and the buffer loop of \<^verbatim>\<open>example-tmp/main.cc\<close>; \<open>Layout\<close>: its samples about
    structures, with \<^verbatim>\<open>common/mem.h\<close> and \<^verbatim>\<open>example-singleton\<close>; \<open>Tmp_Samples\<close>: the other samples.
  \<^item> \<open>Scopes\<close>: \<^verbatim>\<open>common/defer.h\<close> and \<^verbatim>\<open>common/mutexlock.h\<close>, what a block does when it is left. \<open>Tmp_Samples\<close> uses
    its blocks. \<open>Forwarding\<close>: \<^verbatim>\<open>example-perfect-forwarding\<close>, the types of arguments handed on.
  \<^item> \<open>Small_Examples\<close>: the string literal of \<^verbatim>\<open>example-udl/main.cc\<close>, \<^verbatim>\<open>example-posix/main.cc\<close>, \<^verbatim>\<open>example-inc\<close>,
    \<^verbatim>\<open>example-gperftools\<close>. \<open>Weights\<close>: the weight literal of \<^verbatim>\<open>example-udl\<close>.
  \<^item> \<open>Mains\<close>: the \<^verbatim>\<open>main\<close> functions of the examples whose tests assert something, and that they return 0.

  Functions, methods and types keep their names, with a suffix or the class name where a name is taken.
  An object is a record with the members of the class; a method takes the object and returns it; a
  failed assertion, an access outside a vector and a dangling pointer are \<open>None\<close>; where ownership matters
  (statuses, fair queue, lock-free queue) blocks live in a heap given as a map. Integers have their width
  (\<open>u32\<close>, \<open>u64\<close>) wherever they can wrap; sizes and indices of containers are natural numbers.

  \<^bold>\<open>What the lemmas show.\<close>

  \<^item> Bytes: the unrolled and looping varint writers and both readers agree with one definition of LEB128;
    streams of varints, fixed integers and slices are read back, by the readers of slices and of pointers;
    truncated and overlong input is refused by both.
    A batch records its calls in the documented layout; an ini file is read back as it was written, and
    what the parser makes of any other text is stated too.
  \<^item> Containers: the cache, the fair queue, the hierarchical bitset, the status objects and the calls of the
    lock-free queue refine, over every run, a recency list, round robin, a set, values, and a queue. The fair
    queue does so only while the storage of an element that \<^verbatim>\<open>pop_front\<close> removed keeps its value: both its
    \<^verbatim>\<open>Pop\<close>s read a reference after it, and \<open>Fair_Queue\<close> also shows that by the rules of the language every pop
    that returns a request is undefined. The
    top-k search, the run search, the chunked search and the failure window compute what they should.
  \<^item> Concurrency: the group commit logs each write once, in order, never deadlocks, and every call returns
    within a bound of steps; one producer and one consumer may share the lock-free queue, without a data
    race, more may not, and the two threads of its driver finish with all values in order; the writers use the
    mutex and the condition variables as these allow; a release store publishes what was written
    before it; the last task of a counter, and no other, reports.
  \<^item> Time and files: timers are never early, twice or lost, and when they are exact; a file receives what was
    appended, whatever the kernel answers; what is left of it after an error.
  \<^item> The language: members are aligned, disjoint and lead back to their structure; forwarding keeps types;
    deferred actions run last first and locks are released, on every way out of a block; ordered sets keep
    the first of equivalent elements (the locale \<open>strict_weak_order\<close>).

  \<^bold>\<open>Bounds.\<close> The map that is shown by buckets is shown whole as long as the 64-bit index does not wrap within a
  cycle; \<open>Map_List\<close> has a map of which a bucket is left out when it does. The bitset is shown right up to 2^30 bits, where its 32-bit arithmetic is exact. Statuses and
  batches have the bounds their 32-bit length fields impose. Loops that may not end are partial functions
  (\<open>Free_Space\<close>, \<open>Lock_Free_Queue\<close>), which are shown to return; the write loop ends with the answers of the
  kernel, and the property says how many it needs. An \<open>enqueue\<close> that is not interleaved takes four accesses
  and a \<open>dequeue\<close> at most five. The runs of the two drivers with threads are bounded by counting the accesses that are
  left: six per writer, and 110 for ten values through the queue, plus a constant for each spurious wake-up,
  failed compare-and-swap or poll of an empty queue.

  \<^bold>\<open>Assumed of code outside the repository.\<close> The containers and string functions of the C++ library are
  modelled by lists and maps with their documented results; the hash function, the arrangement of a
  heap, the texts of \<^verbatim>\<open>strerror\<close> and the answers of the kernel are parameters. In \<open>Lock_Free_Queue\<close>
  the head and the tail are sequentially consistent and the load of the next pointer may be old;
  \<open>Memory_Order\<close> has loads of old values of any location, release and acquire. In \<open>Lfq_Publication\<close> the
  allocator orders the deletion of a block before its next allocation, and starting a thread orders what was done before.

  \<^bold>\<open>Not modelled.\<close> The operations of the write-ahead log (\<^verbatim>\<open>example-wal\<close>) are declared and have no body
  anywhere. The pointer overloads of \<^verbatim>\<open>align.h\<close> do not compile when used. The macros of
  \<^verbatim>\<open>thread_annotations.h\<close> have no effect on the state. Printing is left out except where it is the result or depends on
  the state. Overload resolution, layout and the end of a scope are modelled by the rules of the language for the
  forms the files use, not for all of C++; the exponent of a long double is not bounded. What remains of the
  files besides is declarations, includes and defaulted members.
\<close>

end
